(* ===== verification/Sihd_Prelude.thy ===== *)
theory Sihd_Prelude
  imports Main "HOL-Library.Word"
begin

text \<open>
  What every component of the model shares: the names of the machine integers, the
  collections of facts that component proofs add to the simplifier or to the classical
  reasoner, and generic facts about bit fields, lists and loops over an index.
\<close>

section \<open>Machine integers\<close>

type_synonym u8 = "8 word"
type_synonym u16 = "16 word"
type_synonym u32 = "32 word"
type_synonym u64 = "64 word"

named_theorems model_defs \<open>unfoldings of the small, non-recursive definitions of a component\<close>
named_theorems keeps_inv \<open>operations that keep the invariant of their component\<close>

section \<open>Bit fields of a 64-bit key\<close>

unbundle bit_operations_syntax

lemma ucast_high_half [simp]:
  "(ucast (drop_bit 32 (push_bit 32 (ucast (s::u32)) OR ucast (e::u32) :: u64)) :: u32) = s"
  by (rule bit_eqI)
    (auto simp: bit_simps dest: bit_imp_le_length)

lemma mask_low: "(0xFFFFFFFF :: u64) = mask 32"
  by (simp add: mask_eq_exp_minus_1)

lemma ucast_low_half [simp]:
  "(ucast ((push_bit 32 (ucast (s::u32)) OR ucast (e::u32) :: u64) AND 0xFFFFFFFF) :: u32) = e"
proof (rule bit_word_eqI)
  fix n
  assume "n < LENGTH(32)"
  then show "bit (ucast ((push_bit 32 (ucast s) OR ucast e :: u64) AND 0xFFFFFFFF) :: u32) n
      = bit e n"
    unfolding mask_low
    by (auto simp: bit_simps dest: bit_imp_le_length)
qed

end
