(* ===== verification/Sihd_StateMachine.thy ===== *)
theory Sihd_StateMachine
  imports Sihd_Prelude
begin

text \<open>
  The flat transition table of \<open>StateMachine\<close> (util/StateMachine.hpp): a state and an
  event are packed into one 64-bit key, and the machine's table maps such keys to states.
  The template parameters \<open>State\<close> and \<open>Event\<close> are C++ enums; what the code uses of
  them is their conversion to a 32-bit integer, the arguments \<open>sc\<close> and \<open>ec\<close> below.
  The locale \<open>transition_table\<close> is the contract a table has towards the controllers
  that run on it.
\<close>

section \<open>Packed keys\<close>

definition pack_key :: "u32 \<Rightarrow> u32 \<Rightarrow> u64" where
  "pack_key s e = push_bit 32 (ucast s) OR ucast e"

definition unpack_key :: "u64 \<Rightarrow> u32 \<times> u32" where
  "unpack_key key = (ucast (drop_bit 32 key), ucast (key AND 0xFFFFFFFF))"

lemma unpack_pack [simp]: "unpack_key (pack_key s e) = (s, e)"
  by (simp only: unpack_key_def pack_key_def ucast_high_half ucast_low_half)

lemma pack_key_eq_iff [simp]: "pack_key s e = pack_key s' e' \<longleftrightarrow> s = s' \<and> e = e'"
  by (metis Pair_inject unpack_pack)

lemma pack_unpack: "case unpack_key k of (s, e) \<Rightarrow> pack_key s e = k"
  unfolding unpack_key_def pack_key_def mask_low prod.case
  by (rule bit_word_eqI) (auto simp: bit_simps dest: bit_imp_le_length)

section \<open>The machine\<close>

record ('s, 'e) StateMachine =
  sm_state :: 's
  sm_states_name :: "'s \<rightharpoonup> string"
  sm_last_event :: 'e
  sm_events_name :: "'e \<rightharpoonup> string"
  sm_transitions :: "u64 \<rightharpoonup> 's"

definition new_StateMachine :: "'s \<Rightarrow> 'e \<Rightarrow> ('s, 'e) StateMachine" where
  \<comment> \<open>\<open>Event()\<close>, the value-initialised event, is the argument \<open>e0\<close>\<close>
  "new_StateMachine initial e0 =
     \<lparr>sm_state = initial, sm_states_name = Map.empty, sm_last_event = e0,
      sm_events_name = Map.empty, sm_transitions = Map.empty\<rparr>"

definition add_transition ::
  "('s \<Rightarrow> u32) \<Rightarrow> ('e \<Rightarrow> u32) \<Rightarrow> ('s, 'e) StateMachine \<Rightarrow> 's \<Rightarrow> 'e \<Rightarrow> 's
     \<Rightarrow> ('s, 'e) StateMachine" where
  "add_transition sc ec m from ev into =
     m\<lparr>sm_transitions := (sm_transitions m)(pack_key (sc from) (ec ev) \<mapsto> into)\<rparr>"

definition transition ::
  "('s \<Rightarrow> u32) \<Rightarrow> ('e \<Rightarrow> u32) \<Rightarrow> ('s, 'e) StateMachine \<Rightarrow> 'e
     \<Rightarrow> ('s, 'e) StateMachine \<times> bool" where
  "transition sc ec m ev =
     (case sm_transitions m (pack_key (sc (sm_state m)) (ec ev)) of
        None \<Rightarrow> (m, False)
      | Some into \<Rightarrow> (m\<lparr>sm_state := into, sm_last_event := ev\<rparr>, True))"

definition state_name :: "('s, 'e) StateMachine \<Rightarrow> 's \<Rightarrow> string" where
  "state_name m st = (case sm_states_name m st of None \<Rightarrow> '''' | Some n \<Rightarrow> n)"

definition event_name :: "('s, 'e) StateMachine \<Rightarrow> 'e \<Rightarrow> string" where
  "event_name m ev = (case sm_events_name m ev of None \<Rightarrow> '''' | Some n \<Rightarrow> n)"

definition set_state_name :: "('s, 'e) StateMachine \<Rightarrow> 's \<Rightarrow> string \<Rightarrow> ('s, 'e) StateMachine" where
  "set_state_name m st n = m\<lparr>sm_states_name := (sm_states_name m)(st \<mapsto> n)\<rparr>"

definition set_event_name :: "('s, 'e) StateMachine \<Rightarrow> 'e \<Rightarrow> string \<Rightarrow> ('s, 'e) StateMachine" where
  "set_event_name m ev n = m\<lparr>sm_events_name := (sm_events_name m)(ev \<mapsto> n)\<rparr>"

text \<open>
  The three \<open>set_\<dots>_map\<close> overloads that take an initialiser list build the map from the
  list; of two entries with one key the first is kept, as \<open>std::map\<close> and
  \<open>std::unordered_map\<close> do when constructed from a range, which is what \<open>map_of\<close> does.
\<close>

definition set_transitions_map :: "('s, 'e) StateMachine \<Rightarrow> (u64 \<times> 's) list \<Rightarrow> ('s, 'e) StateMachine" where
  "set_transitions_map m init = m\<lparr>sm_transitions := map_of init\<rparr>"

definition set_states_names_map :: "('s, 'e) StateMachine \<Rightarrow> ('s \<times> string) list \<Rightarrow> ('s, 'e) StateMachine" where
  "set_states_names_map m init = m\<lparr>sm_states_name := map_of init\<rparr>"

definition set_events_names_map :: "('s, 'e) StateMachine \<Rightarrow> ('e \<times> string) list \<Rightarrow> ('s, 'e) StateMachine" where
  "set_events_names_map m init = m\<lparr>sm_events_name := map_of init\<rparr>"

section \<open>The contract of a transition table\<close>

text \<open>
  A controller only ever asks where an event leads from a state, and adds single edges.
  \<open>path\<close> follows a list of events; an event with no edge is refused and leaves the
  state, as \<open>transition\<close> does.
\<close>

locale transition_table =
  fixes edge :: "'m \<Rightarrow> 's \<Rightarrow> 'e \<Rightarrow> 's option"
    and put :: "'m \<Rightarrow> 's \<Rightarrow> 'e \<Rightarrow> 's \<Rightarrow> 'm"
  assumes edge_put: "edge (put m f e t) s e' = (if s = f \<and> e' = e then Some t else edge m s e')"
begin

fun path :: "'m \<Rightarrow> 's \<Rightarrow> 'e list \<Rightarrow> 's" where
  "path m s [] = s"
| "path m s (e # es) = path m (case edge m s e of None \<Rightarrow> s | Some t \<Rightarrow> t) es"

fun visits :: "'m \<Rightarrow> 's \<Rightarrow> 'e list \<Rightarrow> ('s \<times> 'e) set" where
  "visits m s [] = {}"
| "visits m s (e # es) = insert (s, e) (visits m (case edge m s e of None \<Rightarrow> s | Some t \<Rightarrow> t) es)"

text \<open>An added edge is invisible to every run that never asks for it.\<close>

lemma path_put:
  "(f, e) \<notin> visits m s es \<Longrightarrow> path (put m f e t) s es = path m s es"
  by (induction es arbitrary: s) (auto simp: edge_put)

lemma path_append: "path m s (es @ es') = path m (path m s es) es'"
  by (induction es arbitrary: s) auto

text \<open>A state with no way out is never left.\<close>

lemma path_stuck: "(\<And>e. edge m s e = None) \<Longrightarrow> path m s es = s"
  by (induction es) auto

text \<open>A set of states that no edge leaves is never left.\<close>

lemma path_closed:
  assumes "\<And>s e t. s \<in> S \<Longrightarrow> edge m s e = Some t \<Longrightarrow> t \<in> S" and "s \<in> S"
  shows "path m s es \<in> S"
  using assms(2) by (induction es arbitrary: s) (auto split: option.split dest: assms(1))

end

definition sm_edge ::
  "('s \<Rightarrow> u32) \<Rightarrow> ('e \<Rightarrow> u32) \<Rightarrow> ('s, 'e) StateMachine \<Rightarrow> 's \<Rightarrow> 'e \<Rightarrow> 's option" where
  "sm_edge sc ec m s e = sm_transitions m (pack_key (sc s) (ec e))"

lemma transition_sm_edge:
  "transition sc ec m ev =
     (case sm_edge sc ec m (sm_state m) ev of
        None \<Rightarrow> (m, False)
      | Some into \<Rightarrow> (m\<lparr>sm_state := into, sm_last_event := ev\<rparr>, True))"
  by (simp add: transition_def sm_edge_def)

text \<open>The machine's table is such a table for every pair of enums whose codes are distinct.\<close>

lemma transition_table_StateMachine:
  assumes "inj sc" and "inj ec"
  shows "transition_table (sm_edge sc ec) (add_transition sc ec)"
proof
  show "sm_edge sc ec (add_transition sc ec m f e t) s e' =
      (if s = f \<and> e' = e then Some t else sm_edge sc ec m s e')" for m f e t s e'
    by (simp add: sm_edge_def add_transition_def inj_eq [OF assms(1)] inj_eq [OF assms(2)])
qed

end
