(* ===== verification/Sihd_Service.thy ===== *)
theory Sihd_Service
  imports Sihd_StateMachine "HOL-Library.Sublist"
begin

text \<open>
  The service life cycle: \<open>AService\<close> (util/AService.hpp, AService.cpp) and the three
  controllers that decide which operation is allowed when, \<open>ServiceController\<close>,
  \<open>BlockingServiceController\<close> and \<open>ThreadedServiceController\<close>. The locale
  \<open>service_controller\<close> is the interface \<open>AService::IServiceController\<close>; the
  operations of \<open>AService\<close> are its client, and the three controllers interpret it.
\<close>

section \<open>Operations and states\<close>

datatype Operation = Setup | Init | Start | Stop | Reset | Success | OpError

fun op_code :: "Operation \<Rightarrow> u32" where
  "op_code Setup = 0"
| "op_code Init = 1"
| "op_code Start = 2"
| "op_code Stop = 3"
| "op_code Reset = 4"
| "op_code Success = 254"
| "op_code OpError = 255"

datatype State = StNone | Configuring | Configured | Initializing | Starting | Running
  | Stopping | Stopped | Resetting | StError

fun st_code :: "State \<Rightarrow> u32" where
  "st_code StNone = 0"
| "st_code Configuring = 1"
| "st_code Configured = 2"
| "st_code Initializing = 3"
| "st_code Starting = 4"
| "st_code Running = 5"
| "st_code Stopping = 6"
| "st_code Stopped = 7"
| "st_code Resetting = 8"
| "st_code StError = 255"

lemma inj_op_code: "inj op_code"
proof (rule injI)
  show "x = y" if "op_code x = op_code y" for x y
    using that by (cases x; cases y) simp_all
qed

lemma inj_st_code: "inj st_code"
proof (rule injI)
  show "x = y" if "st_code x = st_code y" for x y
    using that by (cases x; cases y) simp_all
qed

text \<open>The enums are ordered by their values, as the keys of the \<open>std::map\<close>s of names are.\<close>

instantiation Operation :: linorder
begin
definition "less_eq_Operation a b \<longleftrightarrow> op_code a \<le> op_code b"
definition "less_Operation a b \<longleftrightarrow> op_code a < op_code b"
instance
  by standard (auto simp: less_eq_Operation_def less_Operation_def dest: injD [OF inj_op_code])
end

instantiation State :: linorder
begin
definition "less_eq_State a b \<longleftrightarrow> st_code a \<le> st_code b"
definition "less_State a b \<longleftrightarrow> st_code a < st_code b"
instance
  by standard (auto simp: less_eq_State_def less_State_def dest: injD [OF inj_st_code])
end

type_synonym Machine = "(State, Operation) StateMachine"

abbreviation sm_key :: "State \<Rightarrow> Operation \<Rightarrow> u64" where
  "sm_key s e \<equiv> pack_key (st_code s) (op_code e)"

abbreviation sm_next :: "Machine \<Rightarrow> State \<Rightarrow> Operation \<Rightarrow> State option" where
  "sm_next \<equiv> sm_edge st_code op_code"

interpretation smt: transition_table "sm_edge st_code op_code" "add_transition st_code op_code"
  by (rule transition_table_StateMachine [OF inj_st_code inj_op_code])

section \<open>ServiceController\<close>

definition default_statemachine :: Machine where
  "default_statemachine =
     set_events_names_map
      (set_states_names_map
        (set_transitions_map (new_StateMachine StNone Setup)
          [(sm_key StNone Setup, Configuring),
           (sm_key Configuring OpError, StError),
           (sm_key Configuring Success, Configured),
           (sm_key Configured Init, Initializing),
           (sm_key Initializing OpError, StError),
           (sm_key Initializing Success, Stopped),
           (sm_key Stopped Start, Starting),
           (sm_key Starting OpError, StError),
           (sm_key Starting Success, Running),
           (sm_key Running Stop, Stopping),
           (sm_key Stopping OpError, StError),
           (sm_key Stopping Success, Stopped),
           (sm_key Configured Reset, Resetting),
           (sm_key Stopped Reset, Resetting),
           (sm_key Resetting OpError, StError),
           (sm_key Resetting Success, StNone)])
        [(StNone, ''none''), (Configuring, ''configuring''), (Configured, ''configured''),
         (Initializing, ''initializing''), (Starting, ''starting''), (Running, ''running''),
         (Stopping, ''stopping''), (Stopped, ''stopped''), (Resetting, ''resetting'')])
      [(Setup, ''setup''), (Init, ''init''), (Start, ''start''), (Stop, ''stop''),
       (Reset, ''reset''), (Success, ''success''), (OpError, ''error'')]"

text \<open>
  The controller and what its observers have seen: each \<open>notify_observers\<close> appends the
  state the observers can read at that moment.
\<close>

record ServiceController =
  statemachine :: Machine
  seen :: "State list"

definition new_ServiceController :: ServiceController where
  "new_ServiceController = \<lparr>statemachine = default_statemachine, seen = []\<rparr>"

definition sc_state :: "ServiceController \<Rightarrow> State" where
  "sc_state c = sm_state (statemachine c)"

definition sc_notify :: "ServiceController \<Rightarrow> ServiceController" where
  "sc_notify c = c\<lparr>seen := seen c @ [sc_state c]\<rparr>"

definition optional_setup :: "ServiceController \<Rightarrow> ServiceController" where
  "optional_setup c =
     c\<lparr>statemachine := add_transition st_code op_code (statemachine c) StNone Init Initializing\<rparr>"

definition optional_init :: "ServiceController \<Rightarrow> ServiceController" where
  "optional_init c =
     c\<lparr>statemachine := add_transition st_code op_code (statemachine c) StNone Start Starting\<rparr>"

definition sc_op_start :: "ServiceController \<Rightarrow> Operation \<Rightarrow> ServiceController \<times> bool" where
  "sc_op_start c op =
     (case transition st_code op_code (statemachine c) op of
        (m, ret) \<Rightarrow>
          let c' = c\<lparr>statemachine := m\<rparr>
          in (if ret then sc_notify c' else c', ret))"

definition sc_op_end :: "ServiceController \<Rightarrow> Operation \<Rightarrow> bool \<Rightarrow> ServiceController \<times> bool" where
  "sc_op_end c op status =
     (case transition st_code op_code (statemachine c) (if status then Success else OpError) of
        (m, ret) \<Rightarrow> (sc_notify (c\<lparr>statemachine := m\<rparr>), ret))"

fun state_str :: "State \<Rightarrow> string" where
  "state_str Configuring = ''configuring''"
| "state_str Configured = ''configured''"
| "state_str Initializing = ''initializing''"
| "state_str Starting = ''starting''"
| "state_str Running = ''running''"
| "state_str Stopping = ''stopping''"
| "state_str Stopped = ''stopped''"
| "state_str Resetting = ''resetting''"
| "state_str StError = ''error''"
| "state_str _ = ''none''"

section \<open>BlockingServiceController and ThreadedServiceController\<close>

datatype BState = BRunning | BStopped | BError

record BlockingServiceController =
  b_current_state :: BState

definition new_BlockingServiceController :: BlockingServiceController where
  "new_BlockingServiceController = \<lparr>b_current_state = BStopped\<rparr>"

fun b_op_start :: "BlockingServiceController \<Rightarrow> Operation \<Rightarrow> BlockingServiceController \<times> bool" where
  "b_op_start c Start =
     (if b_current_state c = BStopped \<or> b_current_state c = BError
      then (c\<lparr>b_current_state := BRunning\<rparr>, True) else (c, False))"
| "b_op_start c Stop =
     (if b_current_state c = BRunning
      then (c\<lparr>b_current_state := BStopped\<rparr>, True) else (c, False))"
| "b_op_start c _ = (c, True)"

fun b_op_end :: "BlockingServiceController \<Rightarrow> Operation \<Rightarrow> bool \<Rightarrow> BlockingServiceController \<times> bool" where
  "b_op_end c Start status = (c\<lparr>b_current_state := (if status then BRunning else BError)\<rparr>, True)"
| "b_op_end c Stop status = (c\<lparr>b_current_state := (if status then BStopped else BError)\<rparr>, True)"
| "b_op_end c _ status = (c, True)"

datatype TState = TStarting | TRunning | TStopping | TStopped | TError

record ThreadedServiceController =
  t_current_state :: TState

definition new_ThreadedServiceController :: ThreadedServiceController where
  "new_ThreadedServiceController = \<lparr>t_current_state = TStopped\<rparr>"

fun t_op_start :: "ThreadedServiceController \<Rightarrow> Operation \<Rightarrow> ThreadedServiceController \<times> bool" where
  "t_op_start c Start =
     (if t_current_state c = TStopped \<or> t_current_state c = TError
      then (c\<lparr>t_current_state := TStarting\<rparr>, True) else (c, False))"
| "t_op_start c Stop =
     (if t_current_state c = TRunning
      then (c\<lparr>t_current_state := TStopping\<rparr>, True) else (c, False))"
| "t_op_start c _ = (c, True)"

fun t_op_end :: "ThreadedServiceController \<Rightarrow> Operation \<Rightarrow> bool \<Rightarrow> ThreadedServiceController \<times> bool" where
  "t_op_end c Start status = (c\<lparr>t_current_state := (if status then TRunning else TError)\<rparr>, True)"
| "t_op_end c Stop status = (c\<lparr>t_current_state := (if status then TStopped else TError)\<rparr>, True)"
| "t_op_end c _ status = (c, True)"

section \<open>AService: an operation under a controller\<close>

text \<open>
  One macro of AService.cpp generates \<open>setup\<close>, \<open>init\<close>, \<open>start\<close>, \<open>stop\<close> and
  \<open>reset\<close>; \<open>aservice_op\<close> is its body. The service's own virtual method
  \<open>do_OP\<close> is the argument \<open>do_op\<close>, a state transformer of the rest of the program's
  state \<open>'w\<close> that returns the method's \<open>bool\<close>. \<open>svc_notified\<close> counts the calls of
  \<open>notify_observers_delegate\<close>; a service whose \<open>service_ctrl()\<close> is null has no
  controller. The warning that is logged when an operation is refused is left out.
\<close>

record ('c, 'w) AService =
  svc_ctrl :: "'c option"
  svc_world :: 'w
  svc_notified :: nat

definition aservice_op ::
  "('c \<Rightarrow> Operation \<Rightarrow> 'c \<times> bool) \<Rightarrow> ('c \<Rightarrow> Operation \<Rightarrow> bool \<Rightarrow> 'c \<times> bool)
    \<Rightarrow> (Operation \<Rightarrow> 'w \<Rightarrow> bool \<times> 'w) \<Rightarrow> ('c, 'w) AService \<Rightarrow> Operation
    \<Rightarrow> ('c, 'w) AService \<times> bool" where
  "aservice_op op_start op_end do_op s op =
     (let (s1, ret) =
        (case svc_ctrl s of
           None \<Rightarrow> (let (ret, w) = do_op op (svc_world s) in (s\<lparr>svc_world := w\<rparr>, ret))
         | Some c \<Rightarrow>
             (case op_start c op of
                (c1, True) \<Rightarrow>
                  (let (ret, w) = do_op op (svc_world s); (c2, _) = op_end c1 op ret
                   in (s\<lparr>svc_ctrl := Some c2, svc_world := w\<rparr>, ret))
              | (c1, False) \<Rightarrow> (s\<lparr>svc_ctrl := Some c1\<rparr>, False)))
      in (if ret then (s1\<lparr>svc_notified := svc_notified s1 + 1\<rparr>, True) else (s1, False)))"

fun aservice_run ::
  "('c \<Rightarrow> Operation \<Rightarrow> 'c \<times> bool) \<Rightarrow> ('c \<Rightarrow> Operation \<Rightarrow> bool \<Rightarrow> 'c \<times> bool)
    \<Rightarrow> (Operation \<Rightarrow> 'w \<Rightarrow> bool \<times> 'w) \<Rightarrow> ('c, 'w) AService \<Rightarrow> Operation list
    \<Rightarrow> ('c, 'w) AService" where
  "aservice_run op_start op_end do_op s [] = s"
| "aservice_run op_start op_end do_op s (op # ops) =
     aservice_run op_start op_end do_op (fst (aservice_op op_start op_end do_op s op)) ops"

fun lifecycle_op :: "Operation \<Rightarrow> bool" where
  "lifecycle_op Success = False"
| "lifecycle_op OpError = False"
| "lifecycle_op _ = True"

section \<open>The interface IServiceController\<close>

text \<open>
  What \<open>AService\<close> relies on: a refused operation leaves the controller as it is, and an
  accepted one that is ended leads from a settled state (one in which no operation is
  under way) to a settled state again.
\<close>

locale service_controller =
  fixes op_start :: "'c \<Rightarrow> Operation \<Rightarrow> 'c \<times> bool"
    and op_end :: "'c \<Rightarrow> Operation \<Rightarrow> bool \<Rightarrow> 'c \<times> bool"
    and settled :: "'c \<Rightarrow> bool"
  assumes refused_keeps: "op_start c op = (c', False) \<Longrightarrow> c' = c"
    and settles: "settled c \<Longrightarrow> lifecycle_op op \<Longrightarrow> op_start c op = (c', True) \<Longrightarrow>
      settled (fst (op_end c' op b))"
begin

text \<open>The body of the service runs exactly when the controller accepts the operation.\<close>

lemma aservice_op_refused:
  assumes "svc_ctrl s = Some c" and "op_start c op = (c', False)"
  shows "aservice_op op_start op_end do_op s op = (s, False)"
  using assms refused_keeps [OF assms(2)] by (simp add: aservice_op_def)

lemma aservice_op_accepted:
  assumes "svc_ctrl s = Some c" and "op_start c op = (c', True)" and "do_op op (svc_world s) = (r, w)"
  shows "aservice_op op_start op_end do_op s op =
     (s\<lparr>svc_ctrl := Some (fst (op_end c' op r)), svc_world := w,
        svc_notified := svc_notified s + (if r then 1 else 0)\<rparr>, r)"
  using assms by (cases "op_end c' op r") (simp add: aservice_op_def)

lemma aservice_op_settled:
  assumes "svc_ctrl s = Some c" and "settled c" and "lifecycle_op op"
  shows "\<exists>c'. svc_ctrl (fst (aservice_op op_start op_end do_op s op)) = Some c' \<and> settled c'"
proof (cases "op_start c op")
  case (Pair c' accepted)
  show ?thesis
  proof (cases accepted)
    case True
    obtain r w where "do_op op (svc_world s) = (r, w)" by fastforce
    with Pair True assms show ?thesis
      by (simp add: aservice_op_accepted settles)
  next
    case False
    with Pair assms show ?thesis by (simp add: aservice_op_refused)
  qed
qed

lemma aservice_run_settled:
  "svc_ctrl s = Some c \<Longrightarrow> settled c \<Longrightarrow> list_all lifecycle_op ops \<Longrightarrow>
    \<exists>c'. svc_ctrl (aservice_run op_start op_end do_op s ops) = Some c' \<and> settled c'"
proof (induction ops arbitrary: s c)
  case Nil
  then show ?case by simp
next
  case (Cons op ops)
  then obtain c' where "svc_ctrl (fst (aservice_op op_start op_end do_op s op)) = Some c'" "settled c'"
    using aservice_op_settled [of s c op do_op] by auto
  with Cons show ?case by simp
qed

end

end
