(* ===== verification/Sihd_Lifecycle.thy ===== *)
theory Sihd_Lifecycle
  imports Sihd_Service
begin

text \<open>
  The abstract life cycle a \<open>ServiceController\<close> promises, the proof that the packed
  transition table and the two calls \<open>op_start\<close>, \<open>op_end\<close> implement it, and what follows
  for a service that runs under each of the three controllers.
\<close>

section \<open>The graph of the table\<close>

text \<open>
  \<open>edge_of os oi\<close> is the graph after \<open>optional_setup\<close> (if \<open>os\<close>) and \<open>optional_init\<close>
  (if \<open>oi\<close>).
\<close>

fun edge_of :: "bool \<Rightarrow> bool \<Rightarrow> State \<Rightarrow> Operation \<Rightarrow> State option" where
  "edge_of os oi StNone Setup = Some Configuring"
| "edge_of os oi StNone Init = (if os then Some Initializing else None)"
| "edge_of os oi StNone Start = (if oi then Some Starting else None)"
| "edge_of os oi Configuring Success = Some Configured"
| "edge_of os oi Configuring OpError = Some StError"
| "edge_of os oi Configured Init = Some Initializing"
| "edge_of os oi Configured Reset = Some Resetting"
| "edge_of os oi Initializing Success = Some Stopped"
| "edge_of os oi Initializing OpError = Some StError"
| "edge_of os oi Stopped Start = Some Starting"
| "edge_of os oi Stopped Reset = Some Resetting"
| "edge_of os oi Starting Success = Some Running"
| "edge_of os oi Starting OpError = Some StError"
| "edge_of os oi Running Stop = Some Stopping"
| "edge_of os oi Stopping Success = Some Stopped"
| "edge_of os oi Stopping OpError = Some StError"
| "edge_of os oi Resetting Success = Some StNone"
| "edge_of os oi Resetting OpError = Some StError"
| "edge_of os oi _ _ = None"

lemma default_edge: "sm_next default_statemachine = edge_of False False"
proof (intro ext)
  show "sm_next default_statemachine s e = edge_of False False s e" for s e
    by (cases s; cases e)
      (simp_all add: sm_edge_def default_statemachine_def set_events_names_map_def
        set_states_names_map_def set_transitions_map_def new_StateMachine_def)
qed

definition has_table :: "bool \<Rightarrow> bool \<Rightarrow> ServiceController \<Rightarrow> bool" where
  "has_table os oi c \<longleftrightarrow> sm_next (statemachine c) = edge_of os oi"

lemma has_table_new: "has_table False False new_ServiceController"
  by (simp add: has_table_def new_ServiceController_def default_edge)

lemma has_table_optional_setup: "has_table os oi c \<Longrightarrow> has_table True oi (optional_setup c)"
proof -
  assume c: "has_table os oi c"
  have "sm_next (statemachine (optional_setup c)) s e = edge_of True oi s e" for s e
    using c by (cases s; cases e) (simp_all add: has_table_def optional_setup_def smt.edge_put)
  then show ?thesis by (auto simp: has_table_def)
qed

lemma has_table_optional_init: "has_table os oi c \<Longrightarrow> has_table os True (optional_init c)"
proof -
  assume c: "has_table os oi c"
  have "sm_next (statemachine (optional_init c)) s e = edge_of os True s e" for s e
    using c by (cases s; cases e) (simp_all add: has_table_def optional_init_def smt.edge_put)
  then show ?thesis by (auto simp: has_table_def)
qed

lemma transition_has_table:
  assumes "has_table os oi c"
  shows "transition st_code op_code (statemachine c) ev =
     (case edge_of os oi (sc_state c) ev of
        None \<Rightarrow> (statemachine c, False)
      | Some into \<Rightarrow> ((statemachine c)\<lparr>sm_state := into, sm_last_event := ev\<rparr>, True))"
  using assms by (simp add: transition_sm_edge has_table_def sc_state_def)

text \<open>The two calls, on a controller whose table is known.\<close>

lemma sc_op_start_simp:
  assumes "has_table os oi c"
  shows "sc_op_start c op =
     (case edge_of os oi (sc_state c) op of
        None \<Rightarrow> (c, False)
      | Some s \<Rightarrow>
          (\<lparr>statemachine = (statemachine c)\<lparr>sm_state := s, sm_last_event := op\<rparr>,
            seen = seen c @ [s]\<rparr>, True))"
  by (simp add: sc_op_start_def transition_has_table [OF assms] sc_notify_def sc_state_def
      split: option.split)

lemma sc_op_end_simp:
  assumes "has_table os oi c"
  shows "sc_op_end c op b =
     (let ev = (if b then Success else OpError) in
      case edge_of os oi (sc_state c) ev of
        None \<Rightarrow> (c\<lparr>seen := seen c @ [sc_state c]\<rparr>, False)
      | Some s \<Rightarrow>
          (\<lparr>statemachine = (statemachine c)\<lparr>sm_state := s, sm_last_event := ev\<rparr>,
            seen = seen c @ [s]\<rparr>, True))"
  by (simp add: sc_op_end_def transition_has_table [OF assms] sc_notify_def sc_state_def Let_def
      split: option.split)

lemma has_table_cong:
  "sm_transitions (statemachine c') = sm_transitions (statemachine c) \<Longrightarrow>
    has_table os oi c \<Longrightarrow> has_table os oi c'"
  by (simp add: has_table_def sm_edge_def fun_eq_iff)

section \<open>Settled controllers\<close>

fun rest_state :: "State \<Rightarrow> bool" where
  "rest_state StNone = True"
| "rest_state Configured = True"
| "rest_state Stopped = True"
| "rest_state Running = True"
| "rest_state StError = True"
| "rest_state _ = False"

definition sc_settled :: "bool \<Rightarrow> bool \<Rightarrow> ServiceController \<Rightarrow> bool" where
  "sc_settled os oi c \<longleftrightarrow> has_table os oi c \<and> rest_state (sc_state c)"

lemma sc_state_new [simp]: "sc_state new_ServiceController = StNone"
  by (simp add: sc_state_def new_ServiceController_def default_statemachine_def
      set_events_names_map_def set_states_names_map_def set_transitions_map_def
      new_StateMachine_def)

lemma sc_settled_new: "sc_settled False False new_ServiceController"
  by (simp add: sc_settled_def has_table_new)

lemma sc_state_optional [simp]:
  "sc_state (optional_setup c) = sc_state c" "sc_state (optional_init c) = sc_state c"
  by (simp_all add: sc_state_def optional_setup_def optional_init_def add_transition_def)

lemma sc_settled_optional_setup: "sc_settled os oi c \<Longrightarrow> sc_settled True oi (optional_setup c)"
  by (auto simp: sc_settled_def intro: has_table_optional_setup)

lemma sc_settled_optional_init: "sc_settled os oi c \<Longrightarrow> sc_settled os True (optional_init c)"
  by (auto simp: sc_settled_def intro: has_table_optional_init)

text \<open>
  The abstract life cycle: from a state at rest, an operation with its outcome leads to a
  state at rest, or is refused.
\<close>

fun lifecycle :: "bool \<Rightarrow> bool \<Rightarrow> State \<Rightarrow> Operation \<Rightarrow> bool \<Rightarrow> State option" where
  "lifecycle os oi StNone Setup ok = Some (if ok then Configured else StError)"
| "lifecycle os oi StNone Init ok =
     (if os then Some (if ok then Stopped else StError) else None)"
| "lifecycle os oi StNone Start ok =
     (if oi then Some (if ok then Running else StError) else None)"
| "lifecycle os oi Configured Init ok = Some (if ok then Stopped else StError)"
| "lifecycle os oi Configured Reset ok = Some (if ok then StNone else StError)"
| "lifecycle os oi Stopped Start ok = Some (if ok then Running else StError)"
| "lifecycle os oi Stopped Reset ok = Some (if ok then StNone else StError)"
| "lifecycle os oi Running Stop ok = Some (if ok then Stopped else StError)"
| "lifecycle os oi _ _ _ = None"

lemma lifecycle_edges:
  assumes "rest_state s" and "lifecycle_op op"
  shows "case edge_of os oi s op of
      None \<Rightarrow> lifecycle os oi s op b = None
    | Some m \<Rightarrow> \<exists>t. edge_of os oi m (if b then Success else OpError) = Some t \<and> rest_state t \<and>
        lifecycle os oi s op b = Some t"
  using assms by (cases s; cases op) (auto split: if_splits)

lemma sc_op_end_settles:
  assumes "has_table os oi c" and "edge_of os oi (sc_state c) (if b then Success else OpError) = Some t"
    and "rest_state t"
  shows "snd (sc_op_end c op b) \<and> sc_settled os oi (fst (sc_op_end c op b)) \<and>
    sc_state (fst (sc_op_end c op b)) = t"
proof -
  have e: "sc_op_end c op b = (\<lparr>statemachine = (statemachine c)\<lparr>sm_state := t,
      sm_last_event := if b then Success else OpError\<rparr>, seen = seen c @ [t]\<rparr>, True)"
    using assms(2) by (simp add: sc_op_end_simp [OF assms(1)] Let_def)
  have "sm_transitions (statemachine (fst (sc_op_end c op b))) = sm_transitions (statemachine c)"
    by (simp add: e)
  from this assms(1) have "has_table os oi (fst (sc_op_end c op b))"
    by (rule has_table_cong)
  with assms(3) show ?thesis
    by (simp add: e sc_settled_def sc_state_def)
qed

text \<open>\<open>op_start\<close> followed by \<open>op_end\<close> is one step of the abstract life cycle.\<close>

lemma sc_op_lifecycle:
  assumes "sc_settled os oi c" and "lifecycle_op op"
  shows "case sc_op_start c op of
      (c', False) \<Rightarrow> c' = c \<and> lifecycle os oi (sc_state c) op b = None
    | (c', True) \<Rightarrow> sc_settled os oi (fst (sc_op_end c' op b)) \<and> snd (sc_op_end c' op b) \<and>
        lifecycle os oi (sc_state c) op b = Some (sc_state (fst (sc_op_end c' op b)))"
proof -
  have t: "has_table os oi c" and r: "rest_state (sc_state c)"
    using assms(1) by (simp_all add: sc_settled_def)
  show ?thesis
  proof (cases "edge_of os oi (sc_state c) op")
    case None
    with lifecycle_edges [OF r assms(2), of os oi b] show ?thesis
      by (simp add: sc_op_start_simp [OF t])
  next
    case (Some m)
    let ?c = "\<lparr>statemachine = (statemachine c)\<lparr>sm_state := m, sm_last_event := op\<rparr>,
        seen = seen c @ [m]\<rparr>"
    from Some have start: "sc_op_start c op = (?c, True)"
      by (simp add: sc_op_start_simp [OF t])
    have "has_table os oi ?c"
      using t by (rule has_table_cong [rotated]) simp
    moreover obtain s where "edge_of os oi m (if b then Success else OpError) = Some s" "rest_state s"
        "lifecycle os oi (sc_state c) op b = Some s"
      using lifecycle_edges [OF r assms(2), of os oi b] Some by auto
    moreover have "sc_state ?c = m"
      by (simp add: sc_state_def)
    ultimately show ?thesis
      using sc_op_end_settles [of os oi ?c b s op] by (simp add: start)
  qed
qed

interpretation sc: service_controller sc_op_start sc_op_end "sc_settled os oi"
proof
  show "c' = c" if "sc_op_start c op = (c', False)" for c op c'
    using that by (auto simp: sc_op_start_def transition_sm_edge Let_def sc_notify_def
        split: option.splits prod.splits if_splits)
  show "sc_settled os oi (fst (sc_op_end c' op b))"
    if "sc_settled os oi c" "lifecycle_op op" "sc_op_start c op = (c', True)" for c op c' b
    using sc_op_lifecycle [OF that(1,2), of b] that(3) by simp
qed

interpretation bc: service_controller b_op_start b_op_end "\<lambda>_. True"
proof
  show "c' = c" if "b_op_start c op = (c', False)" for c op c'
    using that by (cases "(c, op)" rule: b_op_start.cases) (auto split: if_splits)
qed simp

text \<open>A threaded service is settled unless a start or a stop is under way.\<close>

definition t_settled :: "ThreadedServiceController \<Rightarrow> bool" where
  "t_settled c \<longleftrightarrow> t_current_state c \<notin> {TStarting, TStopping}"

interpretation tc: service_controller t_op_start t_op_end t_settled
proof
  show "c' = c" if "t_op_start c op = (c', False)" for c op c'
    using that by (cases "(c, op)" rule: t_op_start.cases) (auto split: if_splits)
  show "t_settled (fst (t_op_end c' op b))"
    if "t_settled c" "lifecycle_op op" "t_op_start c op = (c', True)" for c op c' b
    using that by (cases op) (auto simp: t_settled_def split: if_splits)
qed

section \<open>What a service can rely on\<close>

lemma aservice_run_append:
  "aservice_run st en d s (ops @ ops') = aservice_run st en d (aservice_run st en d s ops) ops'"
  by (induction ops arbitrary: s) auto

lemma service_op_refines_aux:
  assumes "svc_ctrl s = Some c" and "sc_settled os oi c" and "lifecycle_op op"
    and d: "do_op op (svc_world s) = (ok, w)"
  shows "case lifecycle os oi (sc_state c) op ok of
      None \<Rightarrow> aservice_op sc_op_start sc_op_end do_op s op = (s, False)
    | Some st \<Rightarrow> \<exists>c'. aservice_op sc_op_start sc_op_end do_op s op =
          (s\<lparr>svc_ctrl := Some c', svc_world := w,
             svc_notified := svc_notified s + (if ok then 1 else 0)\<rparr>, ok) \<and>
        sc_state c' = st \<and> sc_settled os oi c'"
proof (cases "sc_op_start c op")
  case (Pair c' accepted)
  note step = sc_op_lifecycle [OF assms(2,3), of ok]
  show ?thesis
  proof (cases accepted)
    case True
    with Pair have st: "sc_op_start c op = (c', True)" by simp
    from step show ?thesis
      unfolding sc.aservice_op_accepted [where do_op = do_op, OF assms(1) st d] st by auto
  next
    case False
    with Pair step sc.aservice_op_refused [OF assms(1)] show ?thesis
      by auto
  qed
qed

text \<open>
  C1. Run under a \<open>ServiceController\<close> at rest, an operation of \<open>AService\<close> does what the
  abstract life cycle says: where the life cycle refuses it, nothing changes, the service's
  own method is not called and the result is \<open>false\<close>; where it allows it, the method runs
  once, its result is returned, the controller comes to rest in the state the life cycle
  gives for that result, and the service's observers are told exactly when it succeeded.
\<close>

theorem service_op_refines_lifecycle:
  assumes "svc_ctrl s = Some c" and "sc_settled os oi c" and "lifecycle_op op"
    and "do_op op (svc_world s) = (ok, w)"
  shows "case lifecycle os oi (sc_state c) op ok of
      None \<Rightarrow> aservice_op sc_op_start sc_op_end do_op s op = (s, False)
    | Some st \<Rightarrow> \<exists>c'. aservice_op sc_op_start sc_op_end do_op s op =
          (s\<lparr>svc_ctrl := Some c', svc_world := w,
             svc_notified := svc_notified s + (if ok then 1 else 0)\<rparr>, ok) \<and>
        sc_state c' = st \<and> sc_settled os oi c'"
  by (rule service_op_refines_aux [where do_op = do_op, OF assms])

theorem service_op_refines_lifecycle_witness:
  "\<exists>c'. aservice_op sc_op_start sc_op_end (\<lambda>op n. (True, Suc n))
        \<lparr>svc_ctrl = Some new_ServiceController, svc_world = (0::nat), svc_notified = 0\<rparr> Setup =
      (\<lparr>svc_ctrl = Some c', svc_world = 1, svc_notified = 1\<rparr>, True) \<and>
    sc_state c' = Configured \<and> sc_settled False False c'"
  using service_op_refines_lifecycle [of
      "\<lparr>svc_ctrl = Some new_ServiceController, svc_world = (0::nat), svc_notified = 0\<rparr>"
      new_ServiceController False False Setup "\<lambda>op n. (True, Suc n)" True 1]
  by (simp add: sc_settled_new)

text \<open>
  What must have happened before a state at rest is reached. \<open>done_before\<close> is the order of
  operations a default controller enforces.
\<close>

fun done_before :: "State \<Rightarrow> Operation list" where
  "done_before Configured = [Setup]"
| "done_before Stopped = [Setup, Init]"
| "done_before Running = [Setup, Init, Start]"
| "done_before _ = []"

lemma subseq_snoc: "subseq xs ys \<Longrightarrow> subseq (xs @ [z]) (ys @ [z])"
  by (simp add: list_emb_append_mono)

lemma subseq_weaken: "subseq (xs @ zs) ys \<Longrightarrow> subseq xs (ys @ ws)"
  by (metis prefixI prefix_imp_subseq subseq_order.order_trans)

lemma done_before_step:
  assumes "subseq (done_before s) ops" and "lifecycle False False s op ok = Some t"
  shows "subseq (done_before t) (ops @ [op])"
proof -
  have "\<exists>xs. done_before t = [] \<or> done_before s = done_before t @ xs \<or>
      (op = last (done_before t) \<and> done_before s = butlast (done_before t))"
    using assms(2) by (cases s; cases op; cases ok) auto
  then show ?thesis
  proof (elim exE disjE conjE)
    fix xs assume "done_before s = done_before t @ xs"
    with assms(1) show ?thesis by (metis subseq_weaken)
  next
    assume "op = last (done_before t)" "done_before s = butlast (done_before t)"
    with assms(1) subseq_snoc [of "done_before s" ops op] show ?thesis
      by (cases "done_before t = []") auto
  qed simp
qed

lemma run_done_before:
  assumes "svc_ctrl s = Some new_ServiceController" and "list_all lifecycle_op ops"
  shows "\<exists>c. svc_ctrl (aservice_run sc_op_start sc_op_end do_op s ops) = Some c \<and>
    sc_settled False False c \<and> subseq (done_before (sc_state c)) ops"
  using assms(2)
proof (induction ops rule: rev_induct)
  case Nil
  with assms(1) show ?case by (simp add: sc_settled_new)
next
  case (snoc op ops)
  let ?s = "aservice_run sc_op_start sc_op_end do_op s ops"
  from snoc obtain c where c: "svc_ctrl ?s = Some c" "sc_settled False False c"
      "subseq (done_before (sc_state c)) ops" by auto
  obtain ok w where d: "do_op op (svc_world ?s) = (ok, w)" by fastforce
  from snoc.prems have "lifecycle_op op" by simp
  note step = service_op_refines_aux [where do_op = do_op, OF c(1,2) this d]
  show ?case
  proof (cases "lifecycle False False (sc_state c) op ok")
    case None
    with step c show ?thesis
      by (auto simp: aservice_run_append intro: subseq_weaken [where zs = "[]", simplified])
  next
    case (Some t)
    with step done_before_step [OF c(3) Some] show ?thesis
      by (auto simp: aservice_run_append)
  qed
qed

text \<open>
  C2. Whatever a service's own methods do, it is \<open>Running\<close> only after \<open>setup\<close>, then
  \<open>init\<close>, then \<open>start\<close> have been called on it, in this order.
\<close>

theorem running_needs_setup_init_start:
  assumes "svc_ctrl s = Some new_ServiceController" and "list_all lifecycle_op ops"
    and "svc_ctrl (aservice_run sc_op_start sc_op_end do_op s ops) = Some c" and "sc_state c = Running"
  shows "subseq [Setup, Init, Start] ops"
  using run_done_before [OF assms(1,2), of do_op] assms(3,4) by auto

theorem running_needs_setup_init_start_witness:
  "subseq [Setup, Init, Start] [Setup, Start, Init, Setup, Start]"
proof -
  let ?s = "\<lparr>svc_ctrl = Some new_ServiceController, svc_world = (0::nat), svc_notified = 0\<rparr>"
  let ?run = "aservice_run sc_op_start sc_op_end (\<lambda>op n. (True, Suc n)) ?s
      [Setup, Start, Init, Setup, Start]"
  have "sc_state (the (svc_ctrl ?run)) = Running \<and> svc_ctrl ?run \<noteq> None"
    by code_simp
  then show ?thesis
    using running_needs_setup_init_start [of ?s "[Setup, Start, Init, Setup, Start]"
        "\<lambda>op n. (True, Suc n)" "the (svc_ctrl ?run)"] by auto
qed

text \<open>
  C3. A failure is final: once the controller is in its error state, every further
  operation is refused, the service's methods are never called again and nothing changes.
\<close>

theorem error_is_final:
  assumes "svc_ctrl s = Some c" and "sc_settled os oi c" and "sc_state c = StError"
    and "list_all lifecycle_op ops"
  shows "aservice_run sc_op_start sc_op_end do_op s ops = s"
  using assms(4)
proof (induction ops)
  case (Cons op ops)
  obtain ok w where "do_op op (svc_world s) = (ok, w)" by fastforce
  with Cons assms(1-3) service_op_refines_aux [OF assms(1,2), of op do_op ok w] show ?case
    by simp
qed simp

definition failed_setup :: "(ServiceController, unit) AService" where
  "failed_setup = fst (aservice_op sc_op_start sc_op_end (\<lambda>op u. (False, u))
      \<lparr>svc_ctrl = Some new_ServiceController, svc_world = (), svc_notified = 0\<rparr> Setup)"

theorem error_is_final_witness:
  "aservice_run sc_op_start sc_op_end (\<lambda>op u. (True, u)) failed_setup [Setup, Init, Start, Reset]
    = failed_setup"
proof -
  have "\<exists>c'. svc_ctrl failed_setup = Some c' \<and> sc_state c' = StError \<and> sc_settled False False c'"
    using service_op_refines_aux [of
      "\<lparr>svc_ctrl = Some new_ServiceController, svc_world = (), svc_notified = 0\<rparr>"
      new_ServiceController False False Setup "\<lambda>op u. (False, u)" False "()"]
    by (auto simp: sc_settled_new failed_setup_def)
  then show ?thesis
    by (elim exE conjE) (rule error_is_final, simp_all)
qed

end
