(* ===== verification/Sihd_SafeQueue.thy ===== *)
theory Sihd_SafeQueue
  imports Sihd_Prelude "HOL-Library.Sublist"
begin

text \<open>
  \<open>SafeQueue\<close> (util/SafeQueue.hpp): a queue shared by threads. Every member function
  holds the queue's mutex while it reads or writes the fields, so its effect is one atomic
  step; a call that would wait on a condition variable is the result \<open>Waits\<close>, and the
  waiting thread takes its step when the condition holds. The locale \<open>job_queue\<close> is what
  the thread pool relies on.
\<close>

section \<open>The operations\<close>

record 'a SafeQueue =
  sq_queue :: "'a list"
  sq_terminated :: bool

definition new_SafeQueue :: "'a SafeQueue" where
  "new_SafeQueue = \<lparr>sq_queue = [], sq_terminated = False\<rparr>"

datatype 'a outcome = Waits | Throws | Returns 'a

definition sq_push :: "'a SafeQueue \<Rightarrow> 'a \<Rightarrow> nat \<Rightarrow> 'a SafeQueue \<times> bool" where
  "sq_push q value max_size =
     (if max_size = 0 \<or> length (sq_queue q) < max_size
      then (q\<lparr>sq_queue := sq_queue q @ [value]\<rparr>, True)
      else (q, False))"

fun sq_try_pop :: "'a SafeQueue \<Rightarrow> 'a SafeQueue \<times> 'a option" where
  "sq_try_pop q =
     (if sq_queue q = [] \<or> sq_terminated q then (q, None)
      else (q\<lparr>sq_queue := tl (sq_queue q)\<rparr>, Some (hd (sq_queue q))))"

fun sq_pop :: "'a SafeQueue \<Rightarrow> ('a SafeQueue \<times> 'a) outcome" where
  "sq_pop q =
     (if \<not> (sq_terminated q \<or> sq_queue q \<noteq> []) then Waits
      else if sq_terminated q then Throws
      else Returns (q\<lparr>sq_queue := tl (sq_queue q)\<rparr>, hd (sq_queue q)))"

definition sq_wait_for_space :: "'a SafeQueue \<Rightarrow> nat \<Rightarrow> bool outcome" where
  "sq_wait_for_space q queue_size =
     (if sq_terminated q \<or> length (sq_queue q) < queue_size
      then Returns (length (sq_queue q) < queue_size) else Waits)"

definition sq_terminate :: "'a SafeQueue \<Rightarrow> 'a SafeQueue" where
  "sq_terminate q = q\<lparr>sq_terminated := True, sq_queue := []\<rparr>"

text \<open>\<open>front\<close> and \<open>back\<close> of an empty \<open>std::queue\<close> are undefined: \<open>None\<close>.\<close>

definition sq_front :: "'a SafeQueue \<Rightarrow> 'a option" where
  "sq_front q = (case sq_queue q of [] \<Rightarrow> None | x # _ \<Rightarrow> Some x)"

definition sq_back :: "'a SafeQueue \<Rightarrow> 'a option" where
  "sq_back q = (if sq_queue q = [] then None else Some (last (sq_queue q)))"

definition sq_size :: "'a SafeQueue \<Rightarrow> nat" where
  "sq_size q = length (sq_queue q)"

definition sq_empty :: "'a SafeQueue \<Rightarrow> bool" where
  "sq_empty q \<longleftrightarrow> sq_size q = 0"

definition sq_clear :: "'a SafeQueue \<Rightarrow> 'a SafeQueue" where
  "sq_clear q = q\<lparr>sq_queue := []\<rparr>"

lemmas sq_defs = sq_push_def sq_terminate_def sq_clear_def

section \<open>Interleaved use\<close>

text \<open>
  One step of some thread, with what the thread observed. A thread that waits in \<open>pop\<close>
  makes no step.
\<close>

datatype 'a sq_event = EPush 'a nat bool | ETryPop "'a option" | EPop 'a | EPopThrows
  | ETerminate | EClear

inductive sq_step :: "'a SafeQueue \<Rightarrow> 'a sq_event \<Rightarrow> 'a SafeQueue \<Rightarrow> bool" where
  push: "sq_push q v m = (q', ok) \<Longrightarrow> sq_step q (EPush v m ok) q'"
| try_pop: "sq_try_pop q = (q', r) \<Longrightarrow> sq_step q (ETryPop r) q'"
| pop: "sq_pop q = Returns (q', v) \<Longrightarrow> sq_step q (EPop v) q'"
| pop_throws: "sq_pop q = Throws \<Longrightarrow> sq_step q EPopThrows q"
| terminate: "sq_step q ETerminate (sq_terminate q)"
| clear: "sq_step q EClear (sq_clear q)"

inductive sq_run :: "'a SafeQueue \<Rightarrow> 'a sq_event list \<Rightarrow> 'a SafeQueue \<Rightarrow> bool" where
  nil: "sq_run q [] q"
| cons: "sq_step q e q' \<Longrightarrow> sq_run q' es q'' \<Longrightarrow> sq_run q (e # es) q''"

inductive_simps sq_step_simps:
  "sq_step q (EPush v m ok) q'" "sq_step q (ETryPop r) q'" "sq_step q (EPop v) q'"
  "sq_step q EPopThrows q'" "sq_step q ETerminate q'" "sq_step q EClear q'"

inductive_simps sq_run_simps: "sq_run q [] q'" "sq_run q (e # es) q'"

fun pushed1 :: "'a sq_event \<Rightarrow> 'a list" where
  "pushed1 (EPush v m True) = [v]"
| "pushed1 _ = []"

fun popped1 :: "'a sq_event \<Rightarrow> 'a list" where
  "popped1 (ETryPop (Some v)) = [v]"
| "popped1 (EPop v) = [v]"
| "popped1 _ = []"

definition pushed :: "'a sq_event list \<Rightarrow> 'a list" where
  "pushed es = concat (map pushed1 es)"

definition popped :: "'a sq_event list \<Rightarrow> 'a list" where
  "popped es = concat (map popped1 es)"

lemma pushed_popped_simps [simp]:
  "pushed [] = []" "popped [] = []"
  "pushed (e # es) = pushed1 e @ pushed es" "popped (e # es) = popped1 e @ popped es"
  by (simp_all add: pushed_def popped_def)

text \<open>One step moves values through the queue in order; only \<open>terminate\<close> and \<open>clear\<close> drop any.\<close>

lemma sq_step_content:
  assumes "sq_step q e q'"
  shows "if e = ETerminate \<or> e = EClear then sq_queue q' = []
    else sq_queue q @ pushed1 e = popped1 e @ sq_queue q'"
  using assms
  by cases (auto simp: sq_defs split: if_splits)

lemma sq_step_subseq:
  "sq_step q e q' \<Longrightarrow> subseq (popped1 e @ sq_queue q') (sq_queue q @ pushed1 e)"
  using sq_step_content [of q e q'] by (cases e) auto

lemma sq_step_terminated:
  "sq_step q e q' \<Longrightarrow> sq_terminated q \<Longrightarrow> sq_terminated q' \<and> popped1 e = []"
  by (cases rule: sq_step.cases) (auto simp: sq_defs split: if_splits)


lemma sq_run_subseq:
  "sq_run q es q' \<Longrightarrow> subseq (popped es @ sq_queue q') (sq_queue q @ pushed es)"
proof (induction rule: sq_run.induct)
  case (cons q e q' es q'')
  have "subseq (popped (e # es) @ sq_queue q'') (popped1 e @ sq_queue q' @ pushed es)"
    using list_emb_append_mono [OF subseq_order.order_refl cons.IH, of "popped1 e"] by simp
  also have "subseq (popped1 e @ sq_queue q' @ pushed es) ((sq_queue q @ pushed1 e) @ pushed es)"
    using list_emb_append_mono [OF sq_step_subseq [OF cons.hyps(1)] subseq_order.order_refl]
    by simp
  finally show ?case by simp
qed simp

lemma sq_run_bound:
  assumes "0 < m"
  shows "sq_run q es q' \<Longrightarrow> \<forall>v k ok. EPush v k ok \<in> set es \<longrightarrow> k = m \<Longrightarrow>
    length (sq_queue q) \<le> m \<Longrightarrow> length (sq_queue q') \<le> m"
proof (induction rule: sq_run.induct)
  case (cons q e q' es q'')
  from cons.hyps(1) cons.prems assms have "length (sq_queue q') \<le> m"
    by cases (auto simp: sq_defs split: if_splits)
  with cons show ?case by auto
qed simp

lemma sq_run_terminated:
  "sq_run q es q' \<Longrightarrow> sq_terminated q \<Longrightarrow> sq_terminated q' \<and> popped es = []"
  by (induction rule: sq_run.induct) (auto dest: sq_step_terminated)

lemma sq_run_append:
  "sq_run q (es @ es') q'' \<longleftrightarrow> (\<exists>q'. sq_run q es q' \<and> sq_run q' es' q'')"
  by (induction es arbitrary: q) (auto simp: sq_run_simps)



text \<open>
  C5. In any run of a new queue, terminations and clears included, the popped values are
  pushed values in push order, each popped at most as often as it was pushed; and once the
  queue is terminated nothing is ever popped again.
\<close>

theorem queue_never_reorders:
  assumes "sq_run new_SafeQueue es q'"
  shows "subseq (popped es) (pushed es) \<and>
    (\<forall>es1 es2. es = es1 @ ETerminate # es2 \<longrightarrow> popped es2 = [])"
proof -
  have "subseq (popped es @ sq_queue q') (pushed es)"
    using sq_run_subseq [OF assms] by (simp add: new_SafeQueue_def)
  then have "subseq (popped es) (pushed es)"
    by (metis prefixI prefix_imp_subseq subseq_order.order_trans)
  moreover have "popped es2 = []" if es: "es = es1 @ ETerminate # es2" for es1 es2
  proof -
    obtain q1 q2 where "sq_step q1 ETerminate q2" "sq_run q2 es2 q'"
      using assms by (auto simp: es sq_run_append sq_run_simps)
    then show ?thesis
      using sq_run_terminated [of q2 es2 q'] by (auto simp: sq_step_simps sq_terminate_def)
  qed
  ultimately show ?thesis by blast
qed

theorem queue_never_reorders_witness:
  "subseq (popped [EPush 1 0 True, EPush 2 0 True, EPop 1, ETerminate, EPopThrows])
     (pushed [EPush 1 0 True, EPush 2 0 True, EPop (1::nat), ETerminate, EPopThrows])"
  by (rule queue_never_reorders [of _ "sq_terminate new_SafeQueue", THEN conjunct1])
    (simp add: sq_run_simps sq_step_simps new_SafeQueue_def sq_defs)

text \<open>
  If every push gives the same positive limit, the queue never holds more than the
  limit, whatever the interleaving.
\<close>

lemma queue_respects_bound:
  assumes "sq_run new_SafeQueue es q'" and "0 < m" and "\<And>v k ok. EPush v k ok \<in> set es \<Longrightarrow> k = m"
  shows "length (sq_queue q') \<le> m"
  using sq_run_bound [OF assms(2,1)] assms(3) by (auto simp: new_SafeQueue_def)

end
