(* ===== verification/Sihd_ThreadPool.thy ===== *)
theory Sihd_ThreadPool
  imports Sihd_SafeQueue "HOL-Library.Multiset"
begin

text \<open>
  \<open>ThreadPool\<close> (util/ThreadPool.hpp, ThreadPool.cpp): worker threads that take jobs from
  one \<open>SafeQueue\<close>, and \<open>stop\<close>, which terminates the queue, then flags and joins the
  threads one after the other. The pool is a step relation: one rule per action of a worker
  thread, of a thread that adds a job, and of the thread that stops the pool. Three ghost
  fields record the jobs in the order they were submitted, started and finished. The
  samples of the statistics are left out.
\<close>

section \<open>What the pool relies on in its queue\<close>

locale job_queue =
  fixes put :: "'q \<Rightarrow> 'j \<Rightarrow> 'q"
    and take1 :: "'q \<Rightarrow> ('q \<times> 'j) option"
    and drain :: "'q \<Rightarrow> 'q"
    and waiting :: "'q \<Rightarrow> 'j list"
  assumes waiting_put: "waiting (put q j) = waiting q @ [j]"
    and waiting_take: "take1 q = Some (q', j) \<Longrightarrow> waiting q = j # waiting q'"
    and waiting_drain: "waiting (drain q) = []"
begin

text \<open>
  The history of a queue is consistent when the jobs handed out, then those waiting, are
  jobs that were submitted, in the order of submission and none more often.
\<close>

definition consistent :: "'j list \<Rightarrow> 'j list \<Rightarrow> 'q \<Rightarrow> bool" where
  "consistent submitted started q \<longleftrightarrow> subseq (started @ waiting q) submitted"

lemma consistent_put:
  "consistent sub st q \<Longrightarrow> consistent (sub @ [j]) st (put q j)"
  unfolding consistent_def waiting_put
  using list_emb_append_mono [of "(=)" "st @ waiting q" sub "[j]" "[j]"] by simp

lemma consistent_take:
  "consistent sub st q \<Longrightarrow> take1 q = Some (q', j) \<Longrightarrow> consistent sub (st @ [j]) q'"
  by (simp add: consistent_def waiting_take)

lemma consistent_drain:
  "consistent sub st q \<Longrightarrow> consistent sub st (drain q)"
  unfolding consistent_def waiting_drain
  by (metis append_Nil2 prefixI prefix_imp_subseq subseq_order.order_trans)

lemma consistent_started: "consistent sub st q \<Longrightarrow> subseq st sub"
  unfolding consistent_def by (metis prefixI prefix_imp_subseq subseq_order.order_trans)

end

definition pool_push :: "'j SafeQueue \<Rightarrow> 'j \<Rightarrow> 'j SafeQueue" where
  "pool_push q j = fst (sq_push q j 0)"

definition pool_take :: "'j SafeQueue \<Rightarrow> ('j SafeQueue \<times> 'j) option" where
  "pool_take q = (case sq_pop q of Returns r \<Rightarrow> Some r | _ \<Rightarrow> None)"

lemma pool_take_iff [simp]: "pool_take q = Some r \<longleftrightarrow> sq_pop q = Returns r"
  by (auto simp: pool_take_def split: outcome.splits)

interpretation sq: job_queue pool_push pool_take sq_terminate sq_queue
  by unfold_locales (auto simp: pool_push_def sq_push_def sq_terminate_def split: if_splits)

section \<open>The pool\<close>

datatype 'j thread_pc = AtLoop | InPop | RunsJob 'j | Exited

record 'j Thread =
  th_stop :: bool
  th_pc :: "'j thread_pc"

datatype stop_pc = NotStopping | StopThread nat | JoinThread nat | StopReturned

record 'j ThreadPool =
  tp_jobs :: "'j SafeQueue"
  tp_threads :: "'j Thread list"
  tp_stopping :: stop_pc
  submitted :: "'j list"
  started :: "'j list"
  finished :: "'j list"

definition new_ThreadPool :: "nat \<Rightarrow> 'j ThreadPool" where
  "new_ThreadPool n =
     \<lparr>tp_jobs = new_SafeQueue, tp_threads = replicate n \<lparr>th_stop = False, th_pc = AtLoop\<rparr>,
      tp_stopping = NotStopping, submitted = [], started = [], finished = []\<rparr>"

definition set_pc :: "'j ThreadPool \<Rightarrow> nat \<Rightarrow> 'j thread_pc \<Rightarrow> 'j ThreadPool" where
  "set_pc p i c = p\<lparr>tp_threads := (tp_threads p)[i := (tp_threads p ! i)\<lparr>th_pc := c\<rparr>]\<rparr>"

definition set_stop :: "'j ThreadPool \<Rightarrow> nat \<Rightarrow> 'j ThreadPool" where
  "set_stop p i = p\<lparr>tp_threads := (tp_threads p)[i := (tp_threads p ! i)\<lparr>th_stop := True\<rparr>]\<rparr>"

datatype pool_actor = Submitter | Worker nat | Stopper

inductive pool_step :: "'j ThreadPool \<Rightarrow> pool_actor \<Rightarrow> 'j ThreadPool \<Rightarrow> bool" where
  add_job: "pool_step p Submitter
    (p\<lparr>tp_jobs := pool_push (tp_jobs p) j, submitted := submitted p @ [j]\<rparr>)"
| loop_enter: "i < length (tp_threads p) \<Longrightarrow> th_pc (tp_threads p ! i) = AtLoop \<Longrightarrow>
    \<not> th_stop (tp_threads p ! i) \<Longrightarrow> pool_step p (Worker i) (set_pc p i InPop)"
| loop_leave: "i < length (tp_threads p) \<Longrightarrow> th_pc (tp_threads p ! i) = AtLoop \<Longrightarrow>
    th_stop (tp_threads p ! i) \<Longrightarrow> pool_step p (Worker i) (set_pc p i Exited)"
| pop_job: "i < length (tp_threads p) \<Longrightarrow> th_pc (tp_threads p ! i) = InPop \<Longrightarrow>
    sq_pop (tp_jobs p) = Returns (q, j) \<Longrightarrow>
    pool_step p (Worker i) ((set_pc p i (RunsJob j))\<lparr>tp_jobs := q, started := started p @ [j]\<rparr>)"
| pop_throws: "i < length (tp_threads p) \<Longrightarrow> th_pc (tp_threads p ! i) = InPop \<Longrightarrow>
    sq_pop (tp_jobs p) = Throws \<Longrightarrow> pool_step p (Worker i) (set_pc p i Exited)"
| job_done: "i < length (tp_threads p) \<Longrightarrow> th_pc (tp_threads p ! i) = RunsJob j \<Longrightarrow>
    pool_step p (Worker i) ((set_pc p i AtLoop)\<lparr>finished := finished p @ [j]\<rparr>)"
| stop_terminate: "tp_stopping p = NotStopping \<Longrightarrow>
    pool_step p Stopper (p\<lparr>tp_jobs := sq_terminate (tp_jobs p), tp_stopping := StopThread 0\<rparr>)"
| stop_flag: "tp_stopping p = StopThread i \<Longrightarrow> i < length (tp_threads p) \<Longrightarrow>
    pool_step p Stopper ((set_stop p i)\<lparr>tp_stopping := JoinThread i\<rparr>)"
| stop_join: "tp_stopping p = JoinThread i \<Longrightarrow> th_pc (tp_threads p ! i) = Exited \<Longrightarrow>
    pool_step p Stopper (p\<lparr>tp_stopping := StopThread (Suc i)\<rparr>)"
| stop_return: "tp_stopping p = StopThread (length (tp_threads p)) \<Longrightarrow>
    pool_step p Stopper (p\<lparr>tp_stopping := StopReturned\<rparr>)"

inductive pool_reach :: "nat \<Rightarrow> 'j ThreadPool \<Rightarrow> bool" for n where
  init: "pool_reach n (new_ThreadPool n)"
| step: "pool_reach n p \<Longrightarrow> pool_step p a p' \<Longrightarrow> pool_reach n p'"

section \<open>Invariants\<close>

text \<open>
  \<open>flagged p\<close> is the number of threads whose \<open>stop\<close> has returned, so that they have
  left their loop; an exited thread of a pool that is not being stopped does not exist.
\<close>

fun stopped_by :: "nat \<Rightarrow> stop_pc \<Rightarrow> nat" where
  "stopped_by n NotStopping = 0"
| "stopped_by n (StopThread i) = i"
| "stopped_by n (JoinThread i) = i"
| "stopped_by n StopReturned = n"

abbreviation flagged :: "'j ThreadPool \<Rightarrow> nat" where
  "flagged p \<equiv> stopped_by (length (tp_threads p)) (tp_stopping p)"

definition stop_inv :: "'j ThreadPool \<Rightarrow> bool" where
  "stop_inv p \<longleftrightarrow>
     (tp_stopping p \<noteq> NotStopping \<longrightarrow> sq_terminated (tp_jobs p)) \<and>
     flagged p \<le> length (tp_threads p) \<and>
     (\<forall>i < flagged p. th_pc (tp_threads p ! i) = Exited) \<and>
     (\<forall>i. tp_stopping p = JoinThread i \<longrightarrow> i < length (tp_threads p) \<and> th_stop (tp_threads p ! i))"

fun running_job :: "'j Thread \<Rightarrow> 'j multiset" where
  "running_job t = (case th_pc t of RunsJob j \<Rightarrow> {#j#} | _ \<Rightarrow> {#})"

definition running :: "'j ThreadPool \<Rightarrow> 'j multiset" where
  "running p = sum_list (map running_job (tp_threads p))"

definition jobs_inv :: "'j ThreadPool \<Rightarrow> bool" where
  "jobs_inv p \<longleftrightarrow> sq.consistent (submitted p) (started p) (tp_jobs p) \<and>
     mset (started p) = mset (finished p) + running p"

lemma running_none: "(\<And>t. t \<in> set ts \<Longrightarrow> running_job t = {#}) \<Longrightarrow> sum_list (map running_job ts) = {#}"
  by (induction ts) (simp_all del: running_job.simps)

lemma running_set_pc:
  assumes "i < length (tp_threads p)"
  shows "running (set_pc p i c) + running_job (tp_threads p ! i)
    = running p + running_job ((tp_threads p ! i)\<lparr>th_pc := c\<rparr>)"
proof -
  have "sum_list (map running_job (ts[i := t])) + running_job (ts ! i)
      = sum_list (map running_job ts) + running_job t" if "i < length ts" for ts :: "'a Thread list" and t
    using that
  proof (induction ts arbitrary: i)
    case (Cons x ts)
    then show ?case
      by (cases i) (auto simp: ac_simps simp del: running_job.simps)
  qed simp
  from this [OF assms] show ?thesis by (simp add: running_def set_pc_def del: running_job.simps)
qed

lemma running_ext [simp]:
  "running (p\<lparr>tp_jobs := q\<rparr>) = running p" "running (p\<lparr>started := st\<rparr>) = running p"
  "running (p\<lparr>finished := f\<rparr>) = running p" "running (p\<lparr>submitted := sub\<rparr>) = running p"
  "running (p\<lparr>tp_stopping := s\<rparr>) = running p"
  by (simp_all add: running_def)

lemma running_set_stop [simp]:
  "running (set_stop p i) = running p"
proof -
  have "map running_job (ts[i := (ts ! i)\<lparr>th_stop := True\<rparr>]) = map running_job ts" for ts :: "'a Thread list"
    by (cases "i < length ts") (auto intro!: nth_equalityI simp: nth_list_update list_update_beyond)
  then show ?thesis by (simp add: running_def set_stop_def)
qed

lemma set_pc_fields [simp]:
  "tp_jobs (set_pc p i c) = tp_jobs p" "tp_stopping (set_pc p i c) = tp_stopping p"
  "submitted (set_pc p i c) = submitted p" "started (set_pc p i c) = started p"
  "finished (set_pc p i c) = finished p" "length (tp_threads (set_pc p i c)) = length (tp_threads p)"
  "tp_jobs (set_stop p i) = tp_jobs p" "tp_stopping (set_stop p i) = tp_stopping p"
  "submitted (set_stop p i) = submitted p" "started (set_stop p i) = started p"
  "finished (set_stop p i) = finished p" "length (tp_threads (set_stop p i)) = length (tp_threads p)"
  by (simp_all add: set_pc_def set_stop_def)

lemma pool_step_jobs_inv:
  assumes "pool_step p a p'" and "jobs_inv p"
  shows "jobs_inv p'"
  using assms
proof cases
  case (loop_enter i)
  with assms(2) running_set_pc [of i p InPop] show ?thesis by (simp add: jobs_inv_def)
next
  case (loop_leave i)
  with assms(2) running_set_pc [of i p Exited] show ?thesis by (simp add: jobs_inv_def)
next
  case (pop_job i q j)
  with assms(2) running_set_pc [of i p "RunsJob j"] show ?thesis
    by (auto simp: jobs_inv_def simp del: sq_pop.simps intro: sq.consistent_take)
next
  case (pop_throws i)
  with assms(2) running_set_pc [of i p Exited] show ?thesis by (simp add: jobs_inv_def)
next
  case (job_done i j)
  with assms(2) running_set_pc [of i p AtLoop] show ?thesis
    by (simp add: jobs_inv_def ac_simps)
qed (auto simp: jobs_inv_def sq.consistent_put sq.consistent_drain)

lemma th_pc_set [simp]:
  "th_pc (tp_threads (set_stop p i) ! k) = th_pc (tp_threads p ! k)"
  "k \<noteq> i \<Longrightarrow> tp_threads (set_pc p i c) ! k = tp_threads p ! k"
  "k < length (tp_threads p) \<Longrightarrow> th_stop (tp_threads (set_pc p i c) ! k) = th_stop (tp_threads p ! k)"
  "i < length (tp_threads p) \<Longrightarrow> th_pc (tp_threads (set_pc p i c) ! i) = c"
  by (cases "i < length (tp_threads p)";
      simp add: set_pc_def set_stop_def nth_list_update list_update_beyond)+

lemma terminated_push [simp]: "sq_terminated (pool_push q j) = sq_terminated q"
  by (simp add: pool_push_def sq_push_def)

lemma terminated_pop: "sq_pop q = Returns (q', j) \<Longrightarrow> sq_terminated q' = sq_terminated q"
  by (auto split: if_splits)

lemma stop_inv_set_pc:
  assumes "stop_inv p" and "th_pc (tp_threads p ! i) \<noteq> Exited" and "i < length (tp_threads p)"
  shows "stop_inv (set_pc p i c)"
proof -
  have "k \<noteq> i" if "k < flagged p" for k
    using assms(1,2) that by (auto simp: stop_inv_def)
  with assms(1) show ?thesis by (auto simp: stop_inv_def)
qed

lemma stop_inv_ext:
  "stop_inv p \<Longrightarrow> sq_terminated q = sq_terminated (tp_jobs p) \<Longrightarrow>
    stop_inv (p\<lparr>tp_jobs := q, submitted := a, started := b, finished := c\<rparr>)"
  by (simp add: stop_inv_def)

lemma pool_step_stop_inv:
  assumes "pool_step p a p'" and "stop_inv p"
  shows "stop_inv p'"
  using assms
proof cases
  case (add_job j)
  with assms(2) stop_inv_ext [of p "pool_push (tp_jobs p) j"] show ?thesis
    by (simp add: stop_inv_def)
next
  case (pop_job i q j)
  with assms(2) stop_inv_set_pc [of p i "RunsJob j"] show ?thesis
    using terminated_pop [of "tp_jobs p" q j] by (simp add: stop_inv_def del: sq_pop.simps)
next
  case (job_done i j)
  with assms(2) stop_inv_set_pc [of p i AtLoop] show ?thesis by (simp add: stop_inv_def)
next
  case (stop_flag i)
  with assms(2) show ?thesis
    by (auto simp: stop_inv_def) (simp add: set_stop_def)
next
  case (stop_join i)
  with assms(2) show ?thesis by (auto simp: stop_inv_def less_Suc_eq)
next
  case stop_terminate
  with assms(2) show ?thesis by (simp add: stop_inv_def sq_terminate_def)
next
  case stop_return
  with assms(2) show ?thesis by (simp add: stop_inv_def)
qed (use assms(2) in \<open>simp_all add: stop_inv_set_pc\<close>)

lemma reach_invs: "pool_reach n p \<Longrightarrow> jobs_inv p \<and> stop_inv p"
proof (induction rule: pool_reach.induct)
  case init
  have "running (new_ThreadPool n :: 'a ThreadPool) = {#}"
    unfolding running_def by (rule running_none) (simp add: new_ThreadPool_def)
  then show ?case
    by (simp add: jobs_inv_def stop_inv_def new_ThreadPool_def sq.consistent_def new_SafeQueue_def)
qed (auto intro: pool_step_jobs_inv pool_step_stop_inv)

section \<open>Stopping\<close>

fun pc_rank :: "'j thread_pc \<Rightarrow> nat" where
  "pc_rank (RunsJob j) = 3"
| "pc_rank AtLoop = 2"
| "pc_rank InPop = 1"
| "pc_rank Exited = 0"

fun stop_rank :: "nat \<Rightarrow> stop_pc \<Rightarrow> nat" where
  "stop_rank n NotStopping = 2 * n + 2"
| "stop_rank n (StopThread i) = 2 * (n - i) + 1"
| "stop_rank n (JoinThread i) = 2 * (n - i)"
| "stop_rank n StopReturned = 0"

definition pool_measure :: "'j ThreadPool \<Rightarrow> nat" where
  "pool_measure p = sum_list (map (\<lambda>t. pc_rank (th_pc t)) (tp_threads p)) +
     stop_rank (length (tp_threads p)) (tp_stopping p)"

lemma sum_list_update_nat:
  "i < length ts \<Longrightarrow> sum_list (map f (ts[i := t])) + (f (ts ! i) :: nat) = sum_list (map f ts) + f t"
proof (induction ts arbitrary: i)
  case (Cons x ts)
  then show ?case by (cases i) auto
qed simp

lemma pool_measure_set_pc:
  "i < length (tp_threads p) \<Longrightarrow> pc_rank c < pc_rank (th_pc (tp_threads p ! i)) \<Longrightarrow>
    pool_measure (set_pc p i c) < pool_measure p"
  using sum_list_update_nat [of i "tp_threads p" "\<lambda>t. pc_rank (th_pc t)" "(tp_threads p ! i)\<lparr>th_pc := c\<rparr>"]
  by (simp add: pool_measure_def set_pc_def)

lemma pool_measure_ext [simp]:
  "pool_measure (p\<lparr>tp_jobs := q\<rparr>) = pool_measure p" "pool_measure (p\<lparr>started := st\<rparr>) = pool_measure p"
  "pool_measure (p\<lparr>finished := f\<rparr>) = pool_measure p" "pool_measure (p\<lparr>submitted := sub\<rparr>) = pool_measure p"
  by (simp_all add: pool_measure_def)

lemma pool_step_measure:
  assumes "pool_step p a p'" and "stop_inv p" and "tp_stopping p \<noteq> NotStopping"
  shows "tp_stopping p' \<noteq> NotStopping \<and>
    (if a = Submitter then pool_measure p' = pool_measure p else pool_measure p' < pool_measure p)"
  using assms
proof cases
  case (stop_flag i)
  then have "map (\<lambda>t. pc_rank (th_pc t)) (tp_threads (set_stop p i)) =
      map (\<lambda>t. pc_rank (th_pc t)) (tp_threads p)"
    by (auto intro!: nth_equalityI)
  with stop_flag show ?thesis by (simp add: pool_measure_def)
next
  case (stop_join i)
  with assms(2) have "i < length (tp_threads p)" by (simp add: stop_inv_def)
  with stop_join show ?thesis by (simp add: pool_measure_def)
next
  case (pop_job i q j)
  with assms(2,3) show ?thesis by (auto simp: stop_inv_def)
next
  case stop_return
  then show ?thesis by (simp add: pool_measure_def)
qed (use assms(3) in \<open>simp_all add: pool_measure_set_pc\<close>)

lemma pool_stop_progress:
  assumes "stop_inv p" and "tp_stopping p \<noteq> NotStopping" and "tp_stopping p \<noteq> StopReturned"
  shows "\<exists>a p'. a \<noteq> Submitter \<and> pool_step p a p'"
proof (cases "tp_stopping p")
  case (StopThread i)
  with assms(1) have "i < length (tp_threads p) \<or> i = length (tp_threads p)"
    by (auto simp: stop_inv_def)
  with StopThread show ?thesis
    by (metis pool_actor.distinct(3) pool_step.stop_flag pool_step.stop_return)
next
  case (JoinThread i)
  with assms(1,2) have i: "i < length (tp_threads p)" "th_stop (tp_threads p ! i)"
    and "sq_terminated (tp_jobs p)"
    by (auto simp: stop_inv_def)
  then have "sq_pop (tp_jobs p) = Throws" by simp
  with JoinThread i show ?thesis
    by (cases "th_pc (tp_threads p ! i)")
      (blast intro: pool_step.loop_leave pool_step.pop_throws pool_step.job_done pool_step.stop_join)+
qed (use assms in auto)

inductive pool_run :: "'j ThreadPool \<Rightarrow> pool_actor list \<Rightarrow> 'j ThreadPool \<Rightarrow> bool" where
  stay: "pool_run p [] p"
| go: "pool_step p a p' \<Longrightarrow> pool_run p' as p'' \<Longrightarrow> pool_run p (a # as) p''"

lemma pool_run_reach: "pool_run p as p' \<Longrightarrow> pool_reach n p \<Longrightarrow> pool_reach n p'"
  by (induction rule: pool_run.induct) (auto intro: pool_reach.step)

lemma pool_run_measure:
  "pool_run p as p' \<Longrightarrow> stop_inv p \<Longrightarrow> tp_stopping p \<noteq> NotStopping \<Longrightarrow>
    tp_stopping p' \<noteq> NotStopping \<and> stop_inv p' \<and>
    length (filter (\<lambda>a. a \<noteq> Submitter) as) + pool_measure p' \<le> pool_measure p"
proof (induction rule: pool_run.induct)
  case (go p a p' as p'')
  then show ?case
    using pool_step_measure [OF go.hyps(1) go.prems] pool_step_stop_inv [OF go.hyps(1) go.prems(1)]
    by (auto split: if_splits)
qed simp


text \<open>A run that submits a job, takes it, and finishes it: the states of the witnesses.\<close>

definition pool1 :: "nat ThreadPool" where
  "pool1 = (set_pc ((new_ThreadPool 1)\<lparr>tp_jobs := pool_push new_SafeQueue 5, submitted := [5]\<rparr>) 0 InPop)"

lemma pool1_reach: "pool_reach 1 pool1"
proof -
  let ?p = "(new_ThreadPool 1)\<lparr>tp_jobs := pool_push new_SafeQueue (5::nat), submitted := [5]\<rparr>"
  have "pool_step (new_ThreadPool 1) Submitter ?p"
    using pool_step.add_job [of "new_ThreadPool 1" "5::nat"] by (simp add: new_ThreadPool_def)
  moreover have "pool_step ?p (Worker 0) pool1"
    unfolding pool1_def by (rule pool_step.loop_enter) (simp_all add: new_ThreadPool_def)
  ultimately show ?thesis by (metis pool_reach.init pool_reach.step)
qed

definition pool2 :: "nat ThreadPool" where
  "pool2 = (set_pc pool1 0 (RunsJob 5))\<lparr>tp_jobs := new_SafeQueue, started := [5]\<rparr>"

lemma pool2_reach: "pool_reach 1 pool2"
proof -
  have "pool_step pool1 (Worker 0) ((set_pc pool1 0 (RunsJob 5))\<lparr>tp_jobs := new_SafeQueue, started := started pool1 @ [5]\<rparr>)"
    by (rule pool_step.pop_job)
      (simp_all add: pool1_def new_ThreadPool_def set_pc_def pool_push_def sq_push_def new_SafeQueue_def)
  moreover have "started pool1 = []"
    by (simp add: pool1_def new_ThreadPool_def)
  ultimately show ?thesis
    using pool1_reach by (metis pool2_def append_Nil pool_reach.step)
qed


text \<open>
  C8. \<open>stop\<close> terminates: once it has begun, the workers and the stopping thread together
  make at most \<open>pool_measure\<close> further steps however they and the submitters are
  scheduled; as long as it has not returned one of them can make a step, so it is never
  blocked by a worker that waits for a job; and when it has returned, every worker has left
  its loop and no job is running.
\<close>

theorem pool_stop_terminates:
  assumes "pool_reach n p" and "tp_stopping p \<noteq> NotStopping" and "pool_run p as p'"
  shows "length (filter (\<lambda>a. a \<noteq> Submitter) as) \<le> pool_measure p \<and>
    (tp_stopping p' \<noteq> StopReturned \<longrightarrow> (\<exists>a p''. a \<noteq> Submitter \<and> pool_step p' a p'')) \<and>
    (tp_stopping p' = StopReturned \<longrightarrow> (\<forall>t \<in> set (tp_threads p'). th_pc t = Exited) \<and> running p' = {#})"
proof -
  have inv: "stop_inv p" using reach_invs [OF assms(1)] by simp
  note m = pool_run_measure [OF assms(3) inv assms(2)]
  have "\<forall>t \<in> set (tp_threads p'). th_pc t = Exited" if "tp_stopping p' = StopReturned"
    using m that by (auto simp: stop_inv_def in_set_conv_nth)
  moreover from this have "running p' = {#}" if "tp_stopping p' = StopReturned"
    using that by (auto simp: running_def intro!: running_none)
  moreover have "\<exists>a p''. a \<noteq> Submitter \<and> pool_step p' a p''" if "tp_stopping p' \<noteq> StopReturned"
    using pool_stop_progress m that by blast
  ultimately show ?thesis using m by auto
qed

definition pool3 :: "nat ThreadPool" where
  "pool3 = pool2\<lparr>tp_jobs := sq_terminate new_SafeQueue, tp_stopping := StopThread 0\<rparr>"

theorem pool_stop_terminates_witness:
  "tp_stopping pool3 \<noteq> StopReturned \<and> (\<exists>a p''. a \<noteq> Submitter \<and> pool_step pool3 a p'')"
proof -
  have "pool_step pool2 Stopper (pool2\<lparr>tp_jobs := sq_terminate (tp_jobs pool2), tp_stopping := StopThread 0\<rparr>)"
    by (rule pool_step.stop_terminate) (simp add: pool2_def pool1_def new_ThreadPool_def)
  then have "pool_reach 1 pool3"
    using pool2_reach by (auto simp: pool3_def pool2_def intro: pool_reach.step)
  moreover have "tp_stopping pool3 = StopThread 0" by (simp add: pool3_def)
  ultimately show ?thesis
    using pool_stop_terminates [of 1 pool3 "[]" pool3] by (simp add: pool_run.stay)
qed

end
