(* ===== verification/Sihd_Chars.thy ===== *)
theory Sihd_Chars
  imports Sihd_Prelude "HOL-Library.Char_ord" "HOL-Library.Sublist"
begin

text \<open>
  What the string code uses of the C and C++ standard libraries: the values of a signed
  \<open>char\<close>, the character classes of the C locale, searching in a \<open>string_view\<close>, the
  comparison functions that stop at a NUL byte, and \<open>to_chars\<close>/\<open>from_chars\<close>. A string
  is a list of bytes (\<open>char\<close>). Undefined behaviour is the value \<open>Undef\<close>, an uncaught
  exception of the standard library the value \<open>Raise\<close>.
\<close>

datatype cxx_error = OutOfRange | InvalidArgument | LengthError | LogicError | FormatError

datatype 'a cxx = Undef | Raise cxx_error | Val 'a

fun cxx_bind :: "'a cxx \<Rightarrow> ('a \<Rightarrow> 'b cxx) \<Rightarrow> 'b cxx" where
  "cxx_bind Undef f = Undef"
| "cxx_bind (Raise e) f = Raise e"
| "cxx_bind (Val x) f = f x"

lemma cxx_bind_Val_iff: "cxx_bind m f = Val y \<longleftrightarrow> (\<exists>x. m = Val x \<and> f x = Val y)"
  by (cases m) auto

section \<open>Characters\<close>

abbreviation NUL :: char where "NUL \<equiv> CHR 0x00"

text \<open>The value of a \<open>char\<close>, which is signed on the supported platforms.\<close>

definition c_int :: "char \<Rightarrow> int" where
  "c_int c = (if (of_char c :: int) < 128 then of_char c else of_char c - 256)"

definition c_isspace :: "char \<Rightarrow> bool" where
  "c_isspace c \<longleftrightarrow> c = CHR '' '' \<or> (9 \<le> (of_char c :: nat) \<and> (of_char c :: nat) \<le> 13)"

definition c_isprint :: "char \<Rightarrow> bool" where
  "c_isprint c \<longleftrightarrow> 32 \<le> (of_char c :: nat) \<and> (of_char c :: nat) \<le> 126"

definition c_isupper :: "char \<Rightarrow> bool" where
  "c_isupper c \<longleftrightarrow> 65 \<le> (of_char c :: nat) \<and> (of_char c :: nat) \<le> 90"

definition c_islower :: "char \<Rightarrow> bool" where
  "c_islower c \<longleftrightarrow> 97 \<le> (of_char c :: nat) \<and> (of_char c :: nat) \<le> 122"

definition c_isdigit :: "char \<Rightarrow> bool" where
  "c_isdigit c \<longleftrightarrow> 48 \<le> (of_char c :: nat) \<and> (of_char c :: nat) \<le> 57"

definition c_tolower :: "char \<Rightarrow> char" where
  "c_tolower c = (if c_isupper c then char_of ((of_char c :: nat) + 32) else c)"

definition c_toupper :: "char \<Rightarrow> char" where
  "c_toupper c = (if c_islower c then char_of ((of_char c :: nat) - 32) else c)"

lemmas c_class_defs = c_isspace_def c_isprint_def c_isupper_def c_islower_def c_isdigit_def

text \<open>Facts about bytes are arithmetic on their codes.\<close>

abbreviation cv :: "char \<Rightarrow> nat" where "cv c \<equiv> of_char c"

lemma cv_less [simp]: "cv c < 256"
  by (metis of_char_mod_256 mod_less_divisor zero_less_numeral)

lemma cv_char_of [simp]: "cv (char_of (n::nat)) = n mod 256"
  by simp

lemma char_eq_cv: "c = d \<longleftrightarrow> cv c = cv d"
  by simp

lemma cv_tolower: "cv (c_tolower c) = (if c_isupper c then cv c + 32 else cv c)"
  by (simp add: c_tolower_def c_isupper_def)

lemma cv_toupper: "cv (c_toupper c) = (if c_islower c then cv c - 32 else cv c)"
  by (auto simp: c_toupper_def c_islower_def intro!: mod_less)

lemma c_tolower_idem [simp]: "c_tolower (c_tolower c) = c_tolower c"
  unfolding char_eq_cv cv_tolower c_isupper_def by simp

lemma c_tolower_NUL [simp]: "c_tolower c = NUL \<longleftrightarrow> c = NUL"
  unfolding char_eq_cv [of _ NUL] cv_tolower c_isupper_def by simp

lemma c_int_inj: "c_int c = c_int d \<longleftrightarrow> c = d"
proof
  assume "c_int c = c_int d"
  moreover have "(of_char x :: int) < 256 \<and> 0 \<le> (of_char x :: int)" for x
    using cv_less [of x] of_nat_of_char [of x, where ?'a = int] by linarith
  ultimately have "(of_char c :: int) = of_char d"
    unfolding c_int_def by (smt (verit))
  then show "c = d" by simp
qed simp

section \<open>Searching in a string view\<close>

text \<open>\<open>find(needle, pos)\<close>: the least position from \<open>pos\<close> on where \<open>needle\<close> occurs; \<open>None\<close> is \<open>npos\<close>.\<close>

function find_str :: "string \<Rightarrow> string \<Rightarrow> nat \<Rightarrow> nat option" where
  "find_str s needle pos =
     (if length s < pos + length needle then None
      else if take (length needle) (drop pos s) = needle then Some pos
      else find_str s needle (Suc pos))"
  by pat_completeness auto
termination
  by (relation "measure (\<lambda>(s, needle, pos). Suc (length s) - pos)") auto

text \<open>\<open>find_if_from\<close> serves \<open>find(c, pos)\<close> and \<open>find_first_of(set, pos)\<close>.\<close>

function find_if_from :: "(char \<Rightarrow> bool) \<Rightarrow> string \<Rightarrow> nat \<Rightarrow> nat option" where
  "find_if_from P s pos =
     (if length s \<le> pos then None
      else if P (s ! pos) then Some pos
      else find_if_from P s (Suc pos))"
  by pat_completeness auto
termination
  by (relation "measure (\<lambda>(P, s, pos). length s - pos)") auto

declare find_str.simps [simp del] find_if_from.simps [simp del]

abbreviation find_char :: "string \<Rightarrow> char \<Rightarrow> nat \<Rightarrow> nat option" where
  "find_char s c pos \<equiv> find_if_from (\<lambda>x. x = c) s pos"

abbreviation find_first_of :: "string \<Rightarrow> string \<Rightarrow> nat \<Rightarrow> nat option" where
  "find_first_of s chars pos \<equiv> find_if_from (\<lambda>x. x \<in> set chars) s pos"

fun rfind_char :: "string \<Rightarrow> char \<Rightarrow> nat \<Rightarrow> nat option" where
  "rfind_char s c 0 = None"
| "rfind_char s c (Suc i) = (if i < length s \<and> s ! i = c then Some i else rfind_char s c i)"

lemma find_str_SomeD:
  "find_str s n p = Some i \<Longrightarrow>
    p \<le> i \<and> i + length n \<le> length s \<and> take (length n) (drop i s) = n \<and>
    (\<forall>k. p \<le> k \<longrightarrow> k < i \<longrightarrow> take (length n) (drop k s) \<noteq> n)"
proof (induction s n p rule: find_str.induct)
  case (1 s n p)
  show ?case
  proof (cases "length s < p + length n \<or> take (length n) (drop p s) = n")
    case True
    with "1.prems" show ?thesis by (auto simp: find_str.simps [of s n p] split: if_splits)
  next
    case False
    with "1.prems" have "find_str s n (Suc p) = Some i"
      by (simp add: find_str.simps [of s n p])
    with False "1.IH" show ?thesis
      by (auto simp: le_Suc_eq Suc_le_eq) (metis nat_less_le)
  qed
qed

lemma find_str_NoneD:
  "find_str s n p = None \<Longrightarrow> p \<le> k \<Longrightarrow> k + length n \<le> length s \<Longrightarrow> take (length n) (drop k s) \<noteq> n"
proof (induction s n p rule: find_str.induct)
  case (1 s n p)
  then show ?case
    by (cases "k = p") (auto simp: find_str.simps [of s n p] split: if_splits)
qed

lemma find_if_from_SomeD:
  "find_if_from P s p = Some i \<Longrightarrow>
    p \<le> i \<and> i < length s \<and> P (s ! i) \<and> (\<forall>k. p \<le> k \<longrightarrow> k < i \<longrightarrow> \<not> P (s ! k))"
proof (induction P s p rule: find_if_from.induct)
  case (1 P s p)
  show ?case
  proof (cases "length s \<le> p \<or> P (s ! p)")
    case True
    with "1.prems" show ?thesis by (auto simp: find_if_from.simps [of P s p] split: if_splits)
  next
    case False
    with "1.prems" have "find_if_from P s (Suc p) = Some i"
      by (simp add: find_if_from.simps [of P s p])
    with False "1.IH" show ?thesis
      by (auto simp: le_Suc_eq Suc_le_eq) (metis nat_less_le)
  qed
qed

lemma find_if_from_NoneD:
  "find_if_from P s p = None \<Longrightarrow> p \<le> k \<Longrightarrow> k < length s \<Longrightarrow> \<not> P (s ! k)"
proof (induction P s p rule: find_if_from.induct)
  case (1 P s p)
  then show ?case
    by (cases "k = p") (auto simp: find_if_from.simps [of P s p] split: if_splits)
qed

text \<open>Searching past the end of a prefix without a hit.\<close>

lemma find_if_from_append:
  assumes "\<forall>c \<in> set xs. \<not> P c" and "P c"
  shows "find_if_from P (xs @ c # ys) 0 = Some (length xs)"
proof (cases "find_if_from P (xs @ c # ys) 0")
  case None
  with find_if_from_NoneD [OF None, of "length xs"] assms show ?thesis by auto
next
  case (Some i)
  from find_if_from_SomeD [OF Some] have i: "P ((xs @ c # ys) ! i)"
    "\<forall>k < i. \<not> P ((xs @ c # ys) ! k)" by auto
  with assms have "\<not> i < length xs" by (auto simp: nth_append)
  moreover from i(2) assms(2) have "\<not> length xs < i" by (auto dest: spec [of _ "length xs"])
  ultimately show ?thesis using Some by simp
qed

lemma find_if_from_none:
  "\<forall>c \<in> set s. \<not> P c \<Longrightarrow> find_if_from P s p = None"
  by (cases "find_if_from P s p") (auto dest!: find_if_from_SomeD)

lemma find_str_Suc: "find_str (c # s) n (Suc p) = map_option Suc (find_str s n p)"
proof (induction s n p rule: find_str.induct)
  case (1 s n p)
  then show ?case by (auto simp: find_str.simps [of s n p] find_str.simps [of "c # s" n "Suc p"])
qed

lemma find_str_here: "prefix n s \<Longrightarrow> find_str s n 0 = Some 0"
  by (subst find_str.simps) (auto simp: prefix_def)

lemma find_str_not_here: "\<not> prefix n (c # s) \<Longrightarrow> find_str (c # s) n 0 = map_option Suc (find_str s n 0)"
proof -
  assume p: "\<not> prefix n (c # s)"
  then have "take (length n) (c # s) \<noteq> n" using take_is_prefix by metis
  moreover have "find_str s n 0 = None" if "length (c # s) < length n"
    using that by (subst find_str.simps) simp
  ultimately show ?thesis by (subst find_str.simps) (auto simp: find_str_Suc)
qed

lemma find_str_skip:
  assumes "n \<noteq> []" "hd n \<notin> set l"
  shows "find_str (l @ s) n 0 = map_option ((+) (length l)) (find_str s n 0)"
  using assms(2)
proof (induction l)
  case Nil
  then show ?case by (simp add: option.map_ident)
next
  case (Cons c l)
  then have "\<not> prefix n (c # l @ s)" using assms(1) by (cases n) auto
  with Cons show ?case by (simp add: find_str_not_here option.map_comp o_def)
qed

section \<open>Comparison up to a NUL byte\<close>

text \<open>The text a \<open>const char *\<close> into the buffer stands for.\<close>

definition c_str :: "string \<Rightarrow> string" where
  "c_str s = takeWhile (\<lambda>c. c \<noteq> NUL) s"

text \<open>
  \<open>strncmp(a, b, n) == 0\<close> on NUL-terminated buffers: \<open>a\<close> and \<open>b\<close> are the bytes before
  the terminator of each buffer or, of a view into it, what follows the view's start.
\<close>

fun strncmp_eq :: "nat \<Rightarrow> string \<Rightarrow> string \<Rightarrow> bool" where
  "strncmp_eq 0 a b = True"
| "strncmp_eq (Suc n) a b =
     (let x = (case a of [] \<Rightarrow> NUL | c # _ \<Rightarrow> c); y = (case b of [] \<Rightarrow> NUL | c # _ \<Rightarrow> c) in
      if x \<noteq> y then False else if x = NUL then True else strncmp_eq n (tl a) (tl b))"

fun strncasecmp_eq :: "nat \<Rightarrow> string \<Rightarrow> string \<Rightarrow> bool" where
  "strncasecmp_eq 0 a b = True"
| "strncasecmp_eq (Suc n) a b =
     (let x = (case a of [] \<Rightarrow> NUL | c # _ \<Rightarrow> c_tolower c);
          y = (case b of [] \<Rightarrow> NUL | c # _ \<Rightarrow> c_tolower c) in
      if x \<noteq> y then False else if x = NUL then True else strncasecmp_eq n (tl a) (tl b))"

definition no_nul :: "string \<Rightarrow> bool" where
  "no_nul s \<longleftrightarrow> NUL \<notin> set s"

lemma no_nul_simps [simp]: "no_nul []" "no_nul (c # s) \<longleftrightarrow> c \<noteq> NUL \<and> no_nul s"
  "no_nul (s @ t) \<longleftrightarrow> no_nul s \<and> no_nul t"
  by (auto simp: no_nul_def)

lemma c_str_id [simp]: "no_nul s \<Longrightarrow> c_str s = s"
  by (auto simp: c_str_def no_nul_def takeWhile_eq_all_conv)

lemma strncmp_eq_prefix:
  "no_nul b \<Longrightarrow> strncmp_eq (length b) a b \<longleftrightarrow> prefix b a"
proof (induction b arbitrary: a)
  case (Cons y b)
  then show ?case by (cases a) auto
qed simp

end
