(* ===== verification/Sihd_Str.thy ===== *)
theory Sihd_Str
  imports Sihd_Chars
begin

text \<open>
  The basic string functions of util/str.cpp: trimming, case, replacement, comparison,
  splitting a pair, and numbers and bytes to text and back. The loops over an index are
  kept as they are in the code; each is then shown equal to the list function it computes.
\<close>

section \<open>Trimming and case\<close>

definition is_all_spaces :: "string \<Rightarrow> bool" where
  "is_all_spaces s = list_all c_isspace s"

text \<open>\<open>while (j > 0 && isspace(s[--j])) ;\<close> from \<open>j = s.size()\<close>: the \<open>j\<close> it ends with.\<close>

fun rtrim_loop :: "string \<Rightarrow> nat \<Rightarrow> nat" where
  "rtrim_loop s 0 = 0"
| "rtrim_loop s (Suc j) = (if c_isspace (s ! j) then rtrim_loop s j else j)"

definition rtrim :: "string \<Rightarrow> string" where
  "rtrim s = take (rtrim_loop s (length s) + 1) s"

function ltrim_loop :: "string \<Rightarrow> nat \<Rightarrow> nat" where
  "ltrim_loop s i = (if i < length s \<and> c_isspace (s ! i) then ltrim_loop s (Suc i) else i)"
  by pat_completeness auto
termination
  by (relation "measure (\<lambda>(s, i). length s - i)") auto

declare ltrim_loop.simps [simp del]

definition ltrim :: "string \<Rightarrow> string" where
  "ltrim s = drop (ltrim_loop s 0) s"

definition trim :: "string \<Rightarrow> string" where
  "trim s = ltrim (rtrim s)"

text \<open>\<open>while (s[i])\<close>: up to the first NUL byte, the terminator at the latest.\<close>

fun map_until_nul :: "(char \<Rightarrow> char) \<Rightarrow> string \<Rightarrow> string" where
  "map_until_nul f [] = []"
| "map_until_nul f (c # cs) = (if c = NUL then c # cs else f c # map_until_nul f cs)"

definition to_upper :: "string \<Rightarrow> string" where
  "to_upper s = map_until_nul c_toupper s"

definition to_lower :: "string \<Rightarrow> string" where
  "to_lower s = map_until_nul c_tolower s"

lemma ltrim_loop_drop: "i \<le> length s \<Longrightarrow> drop (ltrim_loop s i) s = dropWhile c_isspace (drop i s)"
proof (induction s i rule: ltrim_loop.induct)
  case (1 s i)
  show ?case
  proof (cases "i < length s")
    case True
    then have "drop i s = s ! i # drop (Suc i) s" by (rule Cons_nth_drop_Suc [symmetric])
    with True 1 show ?thesis by (auto simp: ltrim_loop.simps [of s i])
  next
    case False
    then have "ltrim_loop s i = i" by (subst ltrim_loop.simps) simp
    with False show ?thesis by simp
  qed
qed

lemma ltrim_eq: "ltrim s = dropWhile c_isspace s"
  by (simp add: ltrim_def ltrim_loop_drop)

lemma rtrim_loop_append: "j \<le> length s \<Longrightarrow> rtrim_loop (s @ t) j = rtrim_loop s j"
  by (induction j) (auto simp: nth_append)

lemma rtrim_loop_less: "0 < j \<Longrightarrow> rtrim_loop s j < j"
proof (induction j)
  case (Suc j)
  then show ?case by (cases j) auto
qed simp

lemma rtrim_Nil [simp]: "rtrim [] = []"
  by (simp add: rtrim_def)

lemma rtrim_snoc_space: "c_isspace c \<Longrightarrow> s \<noteq> [] \<Longrightarrow> rtrim (s @ [c]) = rtrim s"
  using rtrim_loop_less [of "length s" s] by (simp add: rtrim_def rtrim_loop_append)

lemma rtrim_snoc_other: "\<not> c_isspace c \<Longrightarrow> rtrim (s @ [c]) = s @ [c]"
  by (simp add: rtrim_def)

text \<open>
  \<open>rtrim\<close> drops the trailing spaces, except that it never drops the first byte: a string
  of spaces only is cut to its first byte.
\<close>

lemma rtrim_eq:
  "rtrim s = (if list_all c_isspace s then take 1 s else rev (dropWhile c_isspace (rev s)))"
proof (induction s rule: rev_induct)
  case (snoc c s)
  show ?case
  proof (cases "c_isspace c \<and> s \<noteq> []")
    case True
    then have r: "rtrim (s @ [c]) = rtrim s" by (simp add: rtrim_snoc_space)
    show ?thesis unfolding r snoc using True by (cases s) auto
  next
    case False
    then show ?thesis by (auto simp: rtrim_snoc_other rtrim_def)
  qed
qed simp

lemma dropWhile_snoc:
  "dropWhile P (xs @ [x]) = (if list_all P xs then (if P x then [] else [x]) else dropWhile P xs @ [x])"
  by (induction xs) auto

text \<open>\<open>trim\<close> has no such exception: it strips both ends.\<close>

lemma trim_eq: "trim s = rev (dropWhile c_isspace (rev (dropWhile c_isspace s)))"
proof (induction s rule: rev_induct)
  case (snoc c s)
  show ?case
  proof (cases "c_isspace c")
    case True
    show ?thesis
    proof (cases "s = []")
      case False
      with True snoc show ?thesis
        by (auto simp: trim_def rtrim_snoc_space dropWhile_snoc list_all_iff dest: set_dropWhileD)
    qed (use True in \<open>simp add: trim_def rtrim_def ltrim_eq\<close>)
  qed (simp add: trim_def rtrim_snoc_other ltrim_eq dropWhile_snoc)
qed (simp add: trim_def ltrim_eq)

lemma map_until_nul_no_nul: "no_nul s \<Longrightarrow> map_until_nul f s = map f s"
  by (induction s) auto

lemma to_lower_idem [simp]: "to_lower (to_lower s) = to_lower s"
proof -
  have "map_until_nul c_tolower (map_until_nul c_tolower s) = map_until_nul c_tolower s"
    by (induction s) auto
  then show ?thesis by (simp add: to_lower_def)
qed

section \<open>Replacement\<close>

text \<open>
  The loop of \<open>replace\<close>: \<open>i\<close> is the position of the current match (\<open>None\<close> is \<open>npos\<close>),
  \<open>lst\<close> (\<open>last\<close> in the code) the position up to which the source has been copied. After a match the search
  goes on at \<open>i + 1\<close>, one byte after the end of the match.
\<close>

function replace_loop ::
  "string \<Rightarrow> string \<Rightarrow> string \<Rightarrow> string \<Rightarrow> nat \<Rightarrow> nat option \<Rightarrow> string" where
  "replace_loop s frm to ret lst None = ret @ drop lst s"
| "replace_loop s frm to ret lst (Some i) =
     (let ret = ret @ take (i - lst) (drop lst s) @ to;
          i = i + length frm
      in replace_loop s frm to ret i (find_str s frm (i + 1)))"
  by pat_completeness auto
termination
  by (relation "measure (\<lambda>(s, frm, to, ret, lst, i).
      case i of None \<Rightarrow> 0 | Some k \<Rightarrow> Suc (length s - k))")
    (auto split: option.split dest!: find_str_SomeD)

definition replace :: "string \<Rightarrow> string \<Rightarrow> string \<Rightarrow> string" where
  "replace s frm to = replace_loop s frm to [] 0 (find_str s frm 0)"

text \<open>
  What it computes: at every match the replacement, and then one byte of the source that
  is copied without being looked at.
\<close>

function replace_spec :: "string \<Rightarrow> string \<Rightarrow> string \<Rightarrow> string" where
  "replace_spec frm to s =
     (if prefix frm s then
        to @ (case drop (length frm) s of [] \<Rightarrow> [] | c # cs \<Rightarrow> c # replace_spec frm to cs)
      else case s of [] \<Rightarrow> [] | c # cs \<Rightarrow> c # replace_spec frm to cs)"
  by pat_completeness auto
termination
  by (relation "measure (\<lambda>(frm, to, s). length s)")
    (auto dest: arg_cong [of _ _ length])

declare replace_spec.simps [simp del]

lemma prefix_take_iff: "prefix n s \<longleftrightarrow> take (length n) s = n"
  by (metis append_eq_conv_conj append_take_drop_id prefixE prefixI)

lemma replace_spec_copy:
  assumes "lst \<le> i" and "i \<le> length s"
    and "\<And>k. lst \<le> k \<Longrightarrow> k < i \<Longrightarrow> \<not> prefix frm (drop k s)"
  shows "replace_spec frm to (drop lst s)
    = take (i - lst) (drop lst s) @ replace_spec frm to (drop i s)"
  using assms
proof (induction "i - lst" arbitrary: lst)
  case 0
  then show ?case by simp
next
  case (Suc n)
  then have l: "lst < i" "drop lst s = s ! lst # drop (Suc lst) s"
    by (auto simp: Cons_nth_drop_Suc)
  have "replace_spec frm to (drop lst s) = s ! lst # replace_spec frm to (drop (Suc lst) s)"
    using Suc.prems(3) [of lst] l by (subst replace_spec.simps) simp
  moreover have "take (i - lst) (drop lst s) = s ! lst # take (i - Suc lst) (drop (Suc lst) s)"
    using l by (simp add: take_Cons')
  ultimately show ?case
    using Suc.hyps(1) [of "Suc lst"] Suc.hyps(2) Suc.prems by simp
qed

lemma find_str_None_prefix:
  assumes "find_str s frm nx = None" and "nx \<le> k" and "k \<le> length s"
  shows "\<not> prefix frm (drop k s)"
proof (cases "k + length frm \<le> length s")
  case True
  with find_str_NoneD [OF assms(1,2)] show ?thesis by (simp add: prefix_take_iff)
next
  case False
  with assms(3) show ?thesis by (auto dest!: prefix_length_le)
qed

lemma take_drop_split:
  "a \<le> b \<Longrightarrow> b \<le> c \<Longrightarrow> take (b - a) (drop a s) @ take (c - b) (drop b s) = take (c - a) (drop a s)"
proof -
  assume "a \<le> b" "b \<le> c"
  then have "c - a = (b - a) + (c - b)" "(b - a) + a = b" by auto
  then show ?thesis by (metis add.commute drop_drop take_add)
qed

text \<open>\<open>nx\<close> is where the search of the loop resumes: at \<open>lst\<close> at first, one byte later after a match.\<close>

lemma replace_loop_eq:
  assumes "lst \<le> length s" and "lst \<le> nx" and "nx \<le> Suc lst" and "i = find_str s frm nx"
  shows "replace_loop s frm to ret lst i = ret @
    (if length s < nx then drop lst s
     else take (nx - lst) (drop lst s) @ replace_spec frm to (drop nx s))"
  using assms
proof (induction s frm to ret lst i arbitrary: nx rule: replace_loop.induct)
  case (1 s frm to ret lst)
  show ?case
  proof (cases "length s < nx")
    case False
    have no: "\<not> prefix frm (drop k s)" if "nx \<le> k" "k \<le> length s" for k
      using find_str_None_prefix "1.prems"(4) that by metis
    have "replace_spec frm to (drop nx s)
        = take (length s - nx) (drop nx s) @ replace_spec frm to (drop (length s) s)"
      by (rule replace_spec_copy) (use False no in auto)
    moreover have "replace_spec frm to [] = []"
      using no [of "length s"] False by (subst replace_spec.simps) simp
    ultimately have "replace_spec frm to (drop nx s) = drop nx s" by simp
    moreover have "take (nx - lst) (drop lst s) @ drop nx s = drop lst s"
      using append_take_drop_id [of "nx - lst" "drop lst s"] "1.prems"(2) by simp
    ultimately show ?thesis using False by simp
  qed simp
next
  case (2 s frm to ret lst i)
  from find_str_SomeD [OF "2.prems"(4) [symmetric]]
  have i: "nx \<le> i" "i + length frm \<le> length s" "prefix frm (drop i s)"
    "\<And>k. nx \<le> k \<Longrightarrow> k < i \<Longrightarrow> take (length frm) (drop k s) \<noteq> frm"
    by (auto simp: prefix_take_iff)
  let ?j = "i + length frm"
  have spec: "replace_spec frm to (drop nx s) = take (i - nx) (drop nx s) @ replace_spec frm to (drop i s)"
    by (rule replace_spec_copy) (use i in \<open>auto simp: prefix_take_iff\<close>)
  have hit: "replace_spec frm to (drop i s) = to @
      (case drop ?j s of [] \<Rightarrow> [] | c # cs \<Rightarrow> c # replace_spec frm to cs)"
    using i(3) by (subst replace_spec.simps) (simp add: add.commute)
  have "replace_loop s frm to ret lst (Some i) =
      (ret @ take (i - lst) (drop lst s) @ to) @
      (if length s < Suc ?j then drop ?j s
       else take 1 (drop ?j s) @ replace_spec frm to (drop (Suc ?j) s))"
    using "2.IH" [OF refl refl, of "Suc ?j"] i by (simp add: Let_def)
  also have "(if length s < Suc ?j then drop ?j s
       else take 1 (drop ?j s) @ replace_spec frm to (drop (Suc ?j) s)) =
      (case drop ?j s of [] \<Rightarrow> [] | c # cs \<Rightarrow> c # replace_spec frm to cs)"
  proof (cases "?j < length s")
    case True
    then show ?thesis by (simp add: Cons_nth_drop_Suc [symmetric])
  next
    case False
    then show ?thesis by simp
  qed
  finally have "replace_loop s frm to ret lst (Some i) = ret @ take (i - lst) (drop lst s) @
      replace_spec frm to (drop i s)"
    by (simp add: hit)
  then show ?case
    using i(1,2) "2.prems"(2) by (simp add: spec take_drop_split [symmetric, of lst nx i] del: replace_loop.simps)
qed

text \<open>The loop computes \<open>replace_spec\<close>.\<close>

lemma replace_eq: "replace s frm to = replace_spec frm to s"
  unfolding replace_def using replace_loop_eq [of 0 s 0, OF _ _ _ refl] by simp


lemma replace_spec_Nil: "frm \<noteq> [] \<Longrightarrow> replace_spec frm to [] = []"
  by (subst replace_spec.simps) simp

text \<open>C9. \<open>replace\<close> leaves a string without a match as it is. Where the first match ends and another
  byte follows, the replacement is put in place of the match, the byte after the match is copied
  unseen, and the rest is replaced in the same way; a match that starts right at the end of the
  last one is therefore not replaced.\<close>

theorem replace_behaviour:
  "case find_str s frm 0 of
     None \<Rightarrow> replace s frm to = s
   | Some i \<Rightarrow> replace s frm to = take i s @ to @
       (if i + length frm = length s then []
        else s ! (i + length frm) # replace (drop (Suc (i + length frm)) s) frm to)"
proof (cases "find_str s frm 0")
  case None
  then show ?thesis unfolding replace_def by simp
next
  case (Some i)
  from find_str_SomeD [OF Some] have i: "i + length frm \<le> length s" "prefix frm (drop i s)"
    "\<And>k. k < i \<Longrightarrow> \<not> prefix frm (drop k s)"
    by (auto simp: prefix_take_iff)
  have "replace_spec frm to s = take i s @ replace_spec frm to (drop i s)"
    using replace_spec_copy [of 0 i s frm to] i by simp
  also have "replace_spec frm to (drop i s) = to @
      (case drop (i + length frm) s of [] \<Rightarrow> [] | c # cs \<Rightarrow> c # replace_spec frm to cs)"
    using i(2) by (subst replace_spec.simps) (simp add: add.commute)
  finally show ?thesis
    using i(1) Some by (auto simp: replace_eq Cons_nth_drop_Suc [symmetric])
qed

lemma replace_skips_adjacent_match: "replace ''aa'' ''a'' ''b'' = ''ba''"
  by (simp add: replace_eq replace_spec.simps)

section \<open>Comparison and pairs\<close>

text \<open>
  The arguments are the whole contents of NUL-terminated buffers. A \<open>start\<close> that contains
  a NUL byte where \<open>s\<close> ends can make the second comparison read behind the terminator.
\<close>

definition starts_with :: "string \<Rightarrow> string \<Rightarrow> string \<Rightarrow> bool cxx" where
  "starts_with s start suf =
     (if length start > length s + length suf then Val False
      else let success = strncmp_eq (length start) s start in
        if suf = [] then Val success
        else if \<not> success then Val False
        else if length start > length s then Undef
        else Val (strncmp_eq (length suf) (drop (length start) s) suf))"

definition ends_with :: "string \<Rightarrow> string \<Rightarrow> string \<Rightarrow> bool" where
  "ends_with s ending_str pre =
     (let ending = int (length s) - int (length ending_str + length pre) in
      if ending < 0 then False
      else let success = strncmp_eq (length ending_str) (drop (nat ending + length pre) s) ending_str in
        if pre = [] then success
        else success \<and> strncmp_eq (length pre) (drop (nat ending) s) pre)"

definition iequals :: "string \<Rightarrow> string \<Rightarrow> bool" where
  "iequals s1 s2 = (if length s1 \<noteq> length s2 then False else strncasecmp_eq (length s1) s1 s2)"

definition append_sep :: "string \<Rightarrow> string \<Rightarrow> string \<Rightarrow> string" where
  "append_sep str app sep = (if str = [] then str @ app else (str @ sep) @ app)"

text \<open>\<open>find_first_of\<close> finds any one byte of the delimiter; the value starts behind a whole delimiter.\<close>

definition split_pair_view :: "string \<Rightarrow> string \<Rightarrow> (string \<times> string) cxx" where
  "split_pair_view str delimiter =
     (case find_first_of str delimiter 0 of
        None \<Rightarrow> Val ([], [])
      | Some idx \<Rightarrow>
          if idx + length delimiter > length str then Raise OutOfRange
          else Val (take idx str, drop (idx + length delimiter) str))"

definition split_pair :: "string \<Rightarrow> string \<Rightarrow> (string \<times> string) cxx" where
  "split_pair str delimiter =
     cxx_bind (split_pair_view str delimiter)
       (\<lambda>(key, v). if key \<noteq> [] then Val (key, v) else Val ([], []))"

lemma ends_with_char: "c \<noteq> NUL \<Longrightarrow> ends_with s [c] [] \<longleftrightarrow> s \<noteq> [] \<and> last s = c"
proof (cases s rule: rev_cases)
  case (snoc ys y)
  moreover assume "c \<noteq> NUL"
  ultimately show ?thesis by (auto simp: ends_with_def Let_def)
qed (simp add: ends_with_def)

lemma starts_with_prefix: "no_nul p \<Longrightarrow> starts_with s p [] = Val (prefix p s)"
  using strncmp_eq_prefix [of p s] prefix_length_le [of p s] by (auto simp: starts_with_def Let_def)

lemma strncasecmp_eq_map:
  "length a = length b \<Longrightarrow> no_nul a \<Longrightarrow> no_nul b \<Longrightarrow>
    strncasecmp_eq (length a) a b \<longleftrightarrow> map c_tolower a = map c_tolower b"
proof (induction a b rule: list_induct2)
  case (Cons x xs y ys)
  then show ?case by (simp add: Let_def)
qed simp

lemma suffix_drop_iff: "suffix t s \<longleftrightarrow> length t \<le> length s \<and> prefix t (drop (length s - length t) s)"
proof
  assume "suffix t s"
  then show "length t \<le> length s \<and> prefix t (drop (length s - length t) s)"
    by (auto simp: suffix_def)
next
  assume a: "length t \<le> length s \<and> prefix t (drop (length s - length t) s)"
  then obtain zs where zs: "drop (length s - length t) s = t @ zs" by (auto simp: prefix_def)
  have "length (drop (length s - length t) s) = length t" using a by simp
  with zs have "drop (length s - length t) s = t" by simp
  then show "suffix t s" by (metis suffix_drop)
qed

lemma prefix_append_drop: "prefix (a @ b) s \<longleftrightarrow> prefix a s \<and> prefix b (drop (length a) s)"
  by (auto simp: prefix_def)

text \<open>On texts without NUL bytes \<open>starts_with\<close> decides whether the text begins with the start
  followed by the suffix, \<open>ends_with\<close> whether it ends in the prefix followed by the end,
  and \<open>iequals\<close> equality up to the case of letters; nothing is read out of bounds.\<close>

lemma string_tests_decide:
  assumes "no_nul s" and "no_nul a" and "no_nul b"
  shows "starts_with s a b = Val (prefix (a @ b) s) \<and> ends_with s a b = suffix (b @ a) s \<and>
    (iequals s a \<longleftrightarrow> to_lower s = to_lower a)"
proof (intro conjI)
  show "starts_with s a b = Val (prefix (a @ b) s)"
    using assms
    by (auto simp: starts_with_def strncmp_eq_prefix prefix_append_drop Let_def dest: prefix_length_le)
  show "ends_with s a b = suffix (b @ a) s"
  proof (cases "length a + length b \<le> length s")
    case True
    then have n: "nat (int (length s) - int (length a + length b)) = length s - (length b + length a)" by simp
    have "length s - (length b + length a) + length b = length b + (length s - (length b + length a))"
      using True by simp
    with True n assms show ?thesis
      by (auto simp: ends_with_def Let_def strncmp_eq_prefix suffix_drop_iff prefix_append_drop add.commute)
  next
    case False
    then show ?thesis by (auto simp: ends_with_def Let_def suffix_drop_iff)
  qed
  show "iequals s a \<longleftrightarrow> to_lower s = to_lower a"
    using assms strncasecmp_eq_map [of s a] map_eq_imp_length_eq [of c_tolower s c_tolower a]
    by (auto simp: iequals_def to_lower_def map_until_nul_no_nul)
qed

lemma split_pair_entry:
  assumes "k \<noteq> []" and "d \<notin> set k"
  shows "split_pair (k @ d # v) [d] = Val (k, v)"
proof -
  have "find_first_of (k @ d # v) [d] 0 = Some (length k)"
    by (rule find_if_from_append) (use assms in auto)
  with assms(1) show ?thesis by (simp add: split_pair_def split_pair_view_def)
qed

lemma split_pair_roundtrip: "k \<noteq> [] \<Longrightarrow> d \<notin> set k \<Longrightarrow> split_pair (append_sep k v [d]) [d] = Val (k, v)"
  using split_pair_entry [of k d v] by (simp add: append_sep_def)

text \<open>\<open>trim\<close> returns the part of the text between its outermost non-space bytes.\<close>

lemma trim_strips_both_ends:
  "\<exists>l r. s = l @ trim s @ r \<and> list_all c_isspace l \<and> list_all c_isspace r \<and>
    (trim s = [] \<or> (\<not> c_isspace (hd (trim s)) \<and> \<not> c_isspace (last (trim s))))"
proof -
  let ?t = "dropWhile c_isspace s"
  let ?u = "dropWhile c_isspace (rev ?t)"
  have trim: "trim s = rev ?u" by (rule trim_eq)
  have t: "?t = rev ?u @ rev (takeWhile c_isspace (rev ?t))"
    by (metis rev_append rev_rev_ident takeWhile_dropWhile_id)
  have "s = takeWhile c_isspace s @ trim s @ rev (takeWhile c_isspace (rev ?t))"
    using t unfolding trim by (metis takeWhile_dropWhile_id)
  moreover have "trim s = [] \<or> (\<not> c_isspace (hd (trim s)) \<and> \<not> c_isspace (last (trim s)))"
  proof (cases "trim s = []")
    case False
    then have u: "?u \<noteq> []" by (simp add: trim)
    then have "\<not> c_isspace (hd ?u)" by (rule hd_dropWhile)
    then have "\<not> c_isspace (last (trim s))" by (simp add: trim last_rev)
    moreover have "hd (trim s) = hd ?t" using t u by (metis trim hd_append2 rev_is_Nil_conv)
    moreover have "?t \<noteq> []" using u by (cases ?t) simp_all
    then have "\<not> c_isspace (hd ?t)" by (rule hd_dropWhile)
    ultimately show ?thesis by simp
  qed simp
  moreover have "list_all c_isspace (takeWhile c_isspace s)"
    "list_all c_isspace (rev (takeWhile c_isspace (rev ?t)))"
    by (auto simp: list_all_iff dest: set_takeWhileD)
  ultimately show ?thesis by blast
qed

text \<open>\<open>rtrim\<close> alone does not have this property: of a string of spaces it keeps the first byte.\<close>

lemma rtrim_keeps_first_space: "rtrim ''   '' = '' ''"
  by (simp add: rtrim_eq c_isspace_def)

end
