(* ===== verification/Sihd_StrNum.thy ===== *)
theory Sihd_StrNum
  imports Sihd_Str
begin

text \<open>
  Numbers as text: \<open>num::size\<close> (util/num.cpp) and the conversions of util/str.cpp, with the
  parts of \<open>std::to_chars\<close> and \<open>std::from_chars\<close> they rest on; and the dumps of memory as
  text. A \<open>uint16_t\<close> base and a \<open>uint64_t\<close> number are natural numbers; where the code wraps
  or overflows it is written out. A base outside 2..36 is undefined in the standard functions.
\<close>

section \<open>The standard conversions\<close>

definition std_digit :: "nat \<Rightarrow> char" where
  "std_digit d = (if d < 10 then char_of (48 + d) else char_of (87 + d))"

fun std_digit_val :: "char \<Rightarrow> nat option" where
  "std_digit_val c =
     (if 48 \<le> cv c \<and> cv c \<le> 57 then Some (cv c - 48)
      else if 97 \<le> cv c \<and> cv c \<le> 122 then Some (cv c - 87)
      else if 65 \<le> cv c \<and> cv c \<le> 90 then Some (cv c - 55)
      else None)"

declare std_digit_val.simps [simp del]

function to_chars :: "nat \<Rightarrow> nat \<Rightarrow> string" where
  "to_chars num base =
     (if base < 2 \<or> num < base then [std_digit num]
      else to_chars (num div base) base @ [std_digit (num mod base)])"
  by pat_completeness auto
termination
  by (relation "measure fst") auto

declare to_chars.simps [simp del]

fun leading_digits :: "nat \<Rightarrow> string \<Rightarrow> nat list" where
  "leading_digits base [] = []"
| "leading_digits base (c # cs) =
     (case std_digit_val c of None \<Rightarrow> []
      | Some d \<Rightarrow> if d < base then d # leading_digits base cs else [])"

definition digits_value :: "nat \<Rightarrow> nat list \<Rightarrow> nat" where
  "digits_value base ds = foldl (\<lambda>a d. a * base + d) 0 ds"

text \<open>\<open>from_chars\<close> for an unsigned and for a signed 64-bit type; \<open>None\<close> is any error code.\<close>

definition from_chars_unsigned :: "string \<Rightarrow> nat \<Rightarrow> nat option" where
  "from_chars_unsigned s base =
     (let ds = leading_digits base s; v = digits_value base ds in
      if ds = [] \<or> v \<ge> 2 ^ 64 then None else Some v)"

definition from_chars_signed :: "string \<Rightarrow> nat \<Rightarrow> int option" where
  "from_chars_signed s base =
     (let neg = (s \<noteq> [] \<and> hd s = CHR ''-'');
          ds = leading_digits base (if neg then tl s else s); v = digits_value base ds in
      if ds = [] then None
      else if neg then (if v > 2 ^ 63 then None else Some (- int v))
      else (if v \<ge> 2 ^ 63 then None else Some (int v)))"

lemma std_digit_val_digit [simp]: "d < 36 \<Longrightarrow> std_digit_val (std_digit d) = Some d"
  by (auto simp: std_digit_def std_digit_val.simps)

lemma to_chars_ne [simp]: "to_chars n b \<noteq> []"
  by (subst to_chars.simps) simp

lemma leading_digits_append:
  "\<forall>c \<in> set s. \<exists>d < base. std_digit_val c = Some d \<Longrightarrow>
    leading_digits base (s @ t) = leading_digits base s @ leading_digits base t"
  by (induction s) auto

lemma to_chars_digits:
  "2 \<le> b \<Longrightarrow> b \<le> 36 \<Longrightarrow> c \<in> set (to_chars n b) \<Longrightarrow> \<exists>d < b. c = std_digit d"
proof (induction n b rule: to_chars.induct)
  case (1 n b)
  show ?case
  proof (cases "n < b")
    case False
    with 1 show ?thesis by (auto simp: to_chars.simps [of n b] intro: exI [of _ "n mod b"])
  qed (use 1 in \<open>auto simp: to_chars.simps [of n b]\<close>)
qed

lemma digits_value_to_chars:
  "2 \<le> b \<Longrightarrow> b \<le> 36 \<Longrightarrow> digits_value b (leading_digits b (to_chars n b)) = n"
proof (induction n b rule: to_chars.induct)
  case (1 n b)
  show ?case
  proof (cases "n < b")
    case True
    with 1 show ?thesis by (simp add: to_chars.simps [of n b] digits_value_def)
  next
    case False
    have "leading_digits b (to_chars (n div b) b @ [std_digit (n mod b)]) =
        leading_digits b (to_chars (n div b) b) @ [n mod b]"
    proof (subst leading_digits_append)
      show "\<forall>c\<in>set (to_chars (n div b) b). \<exists>d<b. std_digit_val c = Some d"
        using to_chars_digits [OF 1(2,3)] 1(3) by fastforce
      have "n mod b < b" using 1(2) by simp
      with 1(3) show "leading_digits b (to_chars (n div b) b) @ leading_digits b [std_digit (n mod b)] =
          leading_digits b (to_chars (n div b) b) @ [n mod b]" by simp
    qed
    with 1 False show ?thesis
      by (simp add: to_chars.simps [of n b] digits_value_def)
  qed
qed

lemma leading_digits_to_chars_ne:
  "2 \<le> b \<Longrightarrow> b \<le> 36 \<Longrightarrow> leading_digits b (to_chars n b) \<noteq> []"
proof -
  assume b: "2 \<le> b" "b \<le> 36"
  obtain c cs where c: "to_chars n b = c # cs" by (cases "to_chars n b") simp_all
  with b to_chars_digits [of b c n] show ?thesis by auto
qed

text \<open>No leading zero.\<close>

lemma hd_to_chars:
  "2 \<le> b \<Longrightarrow> b \<le> 36 \<Longrightarrow> 0 < n \<Longrightarrow> hd (to_chars n b) \<noteq> CHR ''0''"
proof (induction n b rule: to_chars.induct)
  case (1 n b)
  show ?case
  proof (cases "n < b")
    case True
    with 1 have "std_digit_val (std_digit n) = Some n" by simp
    moreover have "std_digit_val (CHR ''0'') = Some 0" by (simp add: std_digit_val.simps)
    ultimately have "std_digit n \<noteq> CHR ''0''" using 1(4) by auto
    with True show ?thesis by (simp add: to_chars.simps [of n b])
  next
    case False
    with 1 have "hd (to_chars (n div b) b) \<noteq> CHR ''0''" by (auto simp: div_greater_zero_iff)
    with False 1(2) show ?thesis by (simp add: to_chars.simps [of n b])
  qed
qed

section \<open>Numbers to text\<close>

text \<open>
  The loop of \<open>num::size\<close> does not end for base 1, and divides by zero for base 0: a loop
  without effects that does not end is undefined behaviour too.
\<close>

function size_loop :: "nat \<Rightarrow> nat \<Rightarrow> nat \<Rightarrow> nat" where
  "size_loop number base ret =
     (if number = 0 \<or> base < 2 then ret else size_loop (number div base) base (ret + 1))"
  by pat_completeness auto
termination
  by (relation "measure fst") auto

declare size_loop.simps [simp del]

definition num_size :: "nat \<Rightarrow> nat \<Rightarrow> nat cxx" where
  "num_size number base =
     (if number \<noteq> 0 \<and> base < 2 then Undef
      else let ret = size_loop number base 0 in Val (if ret = 0 then 1 else ret))"

definition num_to_char :: "nat \<Rightarrow> char" where
  "num_to_char num = (if num \<ge> 10 then char_of (97 + (num - 10)) else char_of (48 + num))"

definition num_str :: "nat \<Rightarrow> nat \<Rightarrow> string cxx" where
  "num_str num base = (if base < 2 \<or> 36 < base then Undef else Val (to_chars num base))"

definition to_hex :: "nat \<Rightarrow> string cxx" where "to_hex n = num_str n 16"
definition to_dec :: "nat \<Rightarrow> string cxx" where "to_dec n = num_str n 10"
definition to_oct :: "nat \<Rightarrow> string cxx" where "to_oct n = num_str n 8"

lemma size_loop_eq: "2 \<le> b \<Longrightarrow> 0 < n \<Longrightarrow> size_loop n b r = r + length (to_chars n b)"
proof (induction n b r rule: size_loop.induct)
  case (1 n b r)
  show ?case
  proof (cases "n < b")
    case True
    with 1 show ?thesis
      by (simp add: size_loop.simps [of n] size_loop.simps [of 0] to_chars.simps [of n b])
  next
    case False
    with 1 have "0 < n div b" by (simp add: div_greater_zero_iff)
    with 1 False show ?thesis by (simp add: size_loop.simps [of n] to_chars.simps [of n b])
  qed
qed

lemma num_size_to_chars: "2 \<le> b \<Longrightarrow> num_size n b = Val (length (to_chars n b))"
proof (cases "n = 0")
  case True
  assume "2 \<le> b"
  with True show ?thesis by (simp add: num_size_def size_loop.simps [of 0] to_chars.simps [of 0])
next
  case False
  assume b: "2 \<le> b"
  with False have "size_loop n b 0 = length (to_chars n b)" by (simp add: size_loop_eq)
  with b False show ?thesis by (simp add: num_size_def Let_def)
qed

lemma length_to_chars_bound: "2 \<le> b \<Longrightarrow> n < b ^ k \<Longrightarrow> 0 < k \<Longrightarrow> length (to_chars n b) \<le> k"
proof (induction n b arbitrary: k rule: to_chars.induct)
  case (1 n b k)
  show ?case
  proof (cases "n < b")
    case False
    then have "k \<noteq> 1" using 1(3) by auto
    with 1(4) obtain k' where k: "k = Suc k'" "0 < k'" by (cases k) auto
    with 1(3) have "n div b < b ^ k'" by (simp add: less_mult_imp_div_less mult.commute)
    with 1 False k show ?thesis by (simp add: to_chars.simps [of n b])
  qed (use 1 in \<open>simp add: to_chars.simps [of n b]\<close>)
qed

lemma length_to_chars_mono: "2 \<le> b \<Longrightarrow> m \<le> n \<Longrightarrow> length (to_chars m b) \<le> length (to_chars n b)"
proof (induction n b arbitrary: m rule: to_chars.induct)
  case (1 n b m)
  show ?case
  proof (cases "m < b")
    case True
    then have "length (to_chars m b) = 1" by (simp add: to_chars.simps [of m b])
    then show ?thesis by (simp add: Suc_le_eq)
  next
    case False
    with 1 have "length (to_chars (m div b) b) \<le> length (to_chars (n div b) b)"
      by (simp add: div_le_mono)
    with False 1 show ?thesis by (simp add: to_chars.simps [of m b] to_chars.simps [of n b])
  qed
qed

section \<open>Text to numbers\<close>

definition is_digit :: "int \<Rightarrow> nat \<Rightarrow> bool" where
  "is_digit c base =
     (if base \<le> 10 then base \<noteq> 0 \<and> c \<ge> 48 \<and> c \<le> 48 + (int base - 1)
      else let base = int base - 10 in
        (c \<ge> 48 \<and> c \<le> 57) \<or> (c \<ge> 97 \<and> c \<le> 97 + (base - 1)) \<or> (c \<ge> 65 \<and> c \<le> 65 + (base - 1)))"

definition is_number :: "string \<Rightarrow> nat \<Rightarrow> bool" where
  "is_number s base \<longleftrightarrow>
     list_all (\<lambda>c. \<not> (\<not> c_isspace c \<and> c \<noteq> CHR ''-'' \<and> c \<noteq> CHR ''+'' \<and> \<not> is_digit (c_int c) base)) s"

definition prefix_base_of :: "char \<Rightarrow> nat" where
  "prefix_base_of c =
     (if c \<in> {CHR ''x'', CHR ''X''} then 16
      else if c \<in> {CHR ''b'', CHR ''B''} then 2
      else if c \<in> {CHR ''o'', CHR ''O''} then 8
      else 0)"

text \<open>The view without the prefix, and the base.\<close>

definition resolve_base_prefix :: "string \<Rightarrow> nat \<Rightarrow> string \<times> nat" where
  "resolve_base_prefix str base =
     (let prefix_base = (if length str \<ge> 2 \<and> str ! 0 = CHR ''0'' then prefix_base_of (str ! 1) else 0) in
      if prefix_base \<noteq> 0 \<and> (base = 0 \<or> base = prefix_base) then (drop 2 str, prefix_base)
      else (str, if base = 0 then 10 else base))"

fun take_sign :: "string \<Rightarrow> bool \<times> string" where
  "take_sign [] = (False, [])"
| "take_sign (c # cs) =
     (if c = CHR ''-'' \<or> c = CHR ''+'' then (c = CHR ''-'', cs) else (False, c # cs))"

text \<open>Negating the least \<open>long long\<close> overflows, which is undefined.\<close>

definition to_signed :: "string \<Rightarrow> nat \<Rightarrow> int option cxx" where
  "to_signed str base =
     (let (negate, str) = take_sign str;
          (str, base) = resolve_base_prefix str base in
      if base < 2 \<or> 36 < base then Undef
      else case from_chars_signed str base of
        None \<Rightarrow> Val None
      | Some v \<Rightarrow>
          if \<not> negate then Val (Some v)
          else if v = - (2 ^ 63) then Undef
          else Val (Some (- v)))"

definition to_unsigned :: "string \<Rightarrow> nat \<Rightarrow> nat option cxx" where
  "to_unsigned str base =
     (let (negate, str) = take_sign str;
          (str, base) = resolve_base_prefix str base in
      if base < 2 \<or> 36 < base then Undef
      else case from_chars_unsigned str base of
        None \<Rightarrow> Val None
      | Some v \<Rightarrow> Val (Some (if negate then nat ((0 - int v) mod 2 ^ 64) else v)))"

text \<open>
  The output parameter of \<open>to_bool\<close> and \<open>to_char\<close> is \<open>None\<close> where it is left as it was.
  The second half of \<open>to_bool\<close> lowers a copy and then compares the original.
\<close>

definition to_bool :: "string \<Rightarrow> bool \<times> bool option" where
  "to_bool str =
     (if str = ''1'' then (True, Some True)
      else if str = ''0'' then (True, Some False)
      else let lower = to_lower str in
        if str = ''true'' then (True, Some True)
        else if str = ''false'' then (True, Some False)
        else (False, None))"

definition to_char :: "string \<Rightarrow> bool \<times> char option" where
  "to_char str =
     (let store = (\<lambda>c. (c \<noteq> NUL, if c_isprint c then Some c else None)) in
      if length str = 1 then store (str ! 0)
      else if length str = 3 \<and> str ! 0 = CHR 0x27 \<and> str ! 2 = CHR 0x27 then store (str ! 1)
      else (False, None))"

text \<open>
  \<open>convert_from_string<T>\<close> for \<open>bool\<close>, \<open>char\<close> and integral types of a width; the value is
  an integer. Returning the variable that \<open>to_char\<close> did not set is undefined.
\<close>

datatype conv_type = TBool | TChar | TSigned nat | TUnsigned nat

definition convert_from_string :: "conv_type \<Rightarrow> string \<Rightarrow> nat \<Rightarrow> int option cxx" where
  "convert_from_string ty str base =
     (case ty of
        TBool \<Rightarrow> (case to_bool str of (True, Some v) \<Rightarrow> Val (Some (of_bool v)) | _ \<Rightarrow> Val None)
      | TChar \<Rightarrow> (case to_char str of (False, _) \<Rightarrow> Val None
          | (True, Some c) \<Rightarrow> Val (Some (c_int c)) | (True, None) \<Rightarrow> Undef)
      | TSigned w \<Rightarrow> cxx_bind (to_signed str base) (\<lambda>r. Val (map_option (signed_take_bit (w - 1)) r))
      | TUnsigned w \<Rightarrow> cxx_bind (to_unsigned str base) (\<lambda>r. Val (map_option (\<lambda>n. take_bit w (int n)) r)))"


lemma resolve_base_prefix_to_chars:
  assumes "2 \<le> b" "b \<le> 36"
  shows "resolve_base_prefix (to_chars n b) b = (to_chars n b, b)"
proof (cases "n = 0")
  case True
  with assms show ?thesis by (simp add: to_chars.simps [of 0] resolve_base_prefix_def)
next
  case False
  with hd_to_chars [OF assms, of n] have "to_chars n b ! 0 \<noteq> CHR ''0''" by (simp add: hd_conv_nth)
  with assms show ?thesis by (simp add: resolve_base_prefix_def)
qed

lemma std_digit_not_sign: "d < 36 \<Longrightarrow> std_digit d \<noteq> CHR ''-'' \<and> std_digit d \<noteq> CHR ''+''"
proof -
  assume "d < 36"
  then have "std_digit_val (std_digit d) = Some d" by simp
  moreover have "std_digit_val (CHR ''-'') = None" "std_digit_val (CHR ''+'') = None"
    by (simp_all add: std_digit_val.simps)
  ultimately show ?thesis by auto
qed

lemma hd_to_chars_not_sign:
  "2 \<le> b \<Longrightarrow> b \<le> 36 \<Longrightarrow> hd (to_chars n b) \<noteq> CHR ''-'' \<and> hd (to_chars n b) \<noteq> CHR ''+''"
  using to_chars_digits [of b "hd (to_chars n b)" n] std_digit_not_sign by (metis hd_in_set order_less_le_trans to_chars_ne)

lemma take_sign_to_chars [simp]:
  "2 \<le> b \<Longrightarrow> b \<le> 36 \<Longrightarrow> take_sign (to_chars n b) = (False, to_chars n b)"
  using hd_to_chars_not_sign [of b n] by (cases "to_chars n b") auto

lemma from_chars_unsigned_to_chars:
  "2 \<le> b \<Longrightarrow> b \<le> 36 \<Longrightarrow> from_chars_unsigned (to_chars n b) b = (if n < 2 ^ 64 then Some n else None)"
  using leading_digits_to_chars_ne [of b n]
  by (simp add: from_chars_unsigned_def digits_value_to_chars)

lemma from_chars_signed_to_chars:
  "2 \<le> b \<Longrightarrow> b \<le> 36 \<Longrightarrow> from_chars_signed (to_chars n b) b = (if n < 2 ^ 63 then Some (int n) else None)"
  using leading_digits_to_chars_ne [of b n] hd_to_chars_not_sign [of b n]
  by (simp add: from_chars_signed_def digits_value_to_chars Let_def)

lemma char_of_48: "char_of (48 :: nat) = CHR ''0''" by (simp add: char_eq_cv del: of_char_eq_iff)
lemma char_of_102: "char_of (102 :: nat) = CHR ''f''" by (simp add: char_eq_cv del: of_char_eq_iff)

text \<open>C13. Every number of 64 bits that \<open>num_str\<close> writes in a base from 2 to 36 is read back by \<open>to_unsigned\<close>
  in that base, has as many digits as \<open>num::size\<close> says, and, where it fits, is read back by
  \<open>to_signed\<close>, with a minus sign before it as its negative.\<close>

theorem number_text_roundtrip:
  assumes "2 \<le> b" "b \<le> 36" "n < 2 ^ 64" and "num_str n b = Val s"
  shows "to_unsigned s b = Val (Some n) \<and> num_size n b = Val (length s) \<and>
    to_signed s b = Val (if n < 2 ^ 63 then Some (int n) else None) \<and>
    to_signed (CHR ''-'' # s) b = Val (if n < 2 ^ 63 then Some (- int n) else None)"
  using assms
  by (auto simp: num_str_def to_unsigned_def to_signed_def resolve_base_prefix_to_chars
      from_chars_unsigned_to_chars from_chars_signed_to_chars num_size_to_chars)

theorem number_text_roundtrip_witness:
  "to_unsigned ''ff'' 16 = Val (Some 255) \<and> num_size 255 16 = Val (length ''ff'') \<and>
    to_signed ''ff'' 16 = Val (if (255::nat) < 2 ^ 63 then Some (int 255) else None) \<and>
    to_signed (CHR ''-'' # ''ff'') 16 = Val (if (255::nat) < 2 ^ 63 then Some (- int 255) else None)"
  using number_text_roundtrip [of 16 255 "''ff''"]
  by (simp add: num_str_def to_chars.simps std_digit_def char_of_102)

text \<open>A number with a prefix is read in the base of the prefix when no base is given.\<close>

lemma to_unsigned_prefix:
  "n < 2 ^ 64 \<Longrightarrow> to_unsigned (''0x'' @ to_chars n 16) 0 = Val (Some n)"
  "n < 2 ^ 64 \<Longrightarrow> to_unsigned (''0b'' @ to_chars n 2) 0 = Val (Some n)"
  "n < 2 ^ 64 \<Longrightarrow> to_unsigned (''0o'' @ to_chars n 8) 0 = Val (Some n)"
  "n < 2 ^ 64 \<Longrightarrow> to_unsigned (to_chars n 10) 0 = Val (Some n)"
proof -
  assume n: "n < 2 ^ 64"
  show "to_unsigned (''0x'' @ to_chars n 16) 0 = Val (Some n)"
    "to_unsigned (''0b'' @ to_chars n 2) 0 = Val (Some n)"
    "to_unsigned (''0o'' @ to_chars n 8) 0 = Val (Some n)"
    using n by (simp_all add: to_unsigned_def resolve_base_prefix_def prefix_base_of_def
        from_chars_unsigned_to_chars)
  have "resolve_base_prefix (to_chars n 10) 0 = (to_chars n 10, 10)"
    using resolve_base_prefix_to_chars [of 10 n] hd_to_chars [of 10 n]
    by (cases "n = 0") (auto simp: resolve_base_prefix_def to_chars.simps [of 0] hd_conv_nth)
  then show "to_unsigned (to_chars n 10) 0 = Val (Some n)"
    using n by (simp add: to_unsigned_def from_chars_unsigned_to_chars)
qed

text \<open>
  The least \<open>long long\<close> cannot be read: its sign is taken off first and the rest is out of
  range. With two signs it is read, and then negated, which overflows.
\<close>

lemma to_signed_least:
  "to_signed (''-'' @ to_chars (2 ^ 63) 10) 10 = Val None"
  "to_signed (''--'' @ to_chars (2 ^ 63) 10) 10 = Undef"
proof -
  let ?s = "to_chars (2 ^ 63) 10"
  show "to_signed (''-'' @ ?s) 10 = Val None"
    by (simp add: to_signed_def resolve_base_prefix_to_chars from_chars_signed_to_chars)
  have "resolve_base_prefix (''-'' @ ?s) 10 = (''-'' @ ?s, 10)" by (simp add: resolve_base_prefix_def)
  moreover have "from_chars_signed (''-'' @ ?s) 10 = Some (- (2 ^ 63))"
    using leading_digits_to_chars_ne [of 10 "2 ^ 63"]
    by (simp add: from_chars_signed_def digits_value_to_chars Let_def)
  ultimately show "to_signed (''--'' @ ?s) 10 = Undef" by (simp add: to_signed_def)
qed

lemma to_bool_not_lowered: "to_bool ''TRUE'' = (False, None)"
  by (simp add: to_bool_def Let_def)

lemma convert_unprintable_char: "convert_from_string TChar [CHR 0x0A] 10 = Undef"
  by (simp add: convert_from_string_def to_char_def c_isprint_def)

text \<open>\<open>is_digit\<close> accepts in a base up to 36 exactly the digits \<open>from_chars\<close> accepts.\<close>

lemma is_digit_iff:
  assumes "1 \<le> b" "b \<le> 36"
  shows "is_digit (c_int c) b \<longleftrightarrow> (\<exists>d < b. std_digit_val c = Some d)"
proof -
  define n where "n = cv c"
  have n: "n < 256" by (simp add: n_def)
  have c: "c_int c = (if n < 128 then int n else int n - 256)"
  proof -
    have "(of_char c :: int) = int n" by (simp only: n_def of_nat_of_char)
    then show ?thesis by (simp add: c_int_def)
  qed
  have v: "std_digit_val c = (if 48 \<le> n \<and> n \<le> 57 then Some (n - 48)
      else if 97 \<le> n \<and> n \<le> 122 then Some (n - 87)
      else if 65 \<le> n \<and> n \<le> 90 then Some (n - 55) else None)"
    by (simp add: std_digit_val.simps n_def)
  have "is_digit (c_int c) b \<longleftrightarrow>
      (48 \<le> n \<and> n \<le> 57 \<and> n - 48 < b \<or> 97 \<le> n \<and> n \<le> 122 \<and> n - 87 < b \<or> 65 \<le> n \<and> n \<le> 90 \<and> n - 55 < b)"
  proof (cases "n < 128")
    case True
    have le: "int n \<le> int k + (int m - 1) \<longleftrightarrow> n < k + m" for k m by linarith
    from True have "is_digit (c_int c) b \<longleftrightarrow> is_digit (int n) b" by (simp add: c)
    also have "\<dots> \<longleftrightarrow> (if b \<le> 10 then b \<noteq> 0 \<and> 48 \<le> n \<and> n < 48 + b
        else (48 \<le> n \<and> n \<le> 57) \<or> (97 \<le> n \<and> n < 97 + (b - 10)) \<or> (65 \<le> n \<and> n < 65 + (b - 10)))"
      using le [of 48 b] le [of 97 "b - 10"] le [of 65 "b - 10"]
      by (simp add: is_digit_def Let_def of_nat_diff) linarith
    finally show ?thesis using assms by (cases "b \<le> 10") auto
  next
    case False
    with n have "c_int c < 0" by (simp add: c)
    with False show ?thesis by (auto simp: is_digit_def Let_def)
  qed
  also have "\<dots> \<longleftrightarrow> (\<exists>d < b. std_digit_val c = Some d)"
    unfolding v by (cases "48 \<le> n \<and> n \<le> 57"; cases "97 \<le> n \<and> n \<le> 122"; cases "65 \<le> n \<and> n \<le> 90") auto
  finally show ?thesis .
qed

section \<open>Dumps of memory\<close>

text \<open>
  \<open>padding\<close> is below \<open>2 ^ 63\<close>, so that the difference with the number of digits is the
  difference of integers.
\<close>

definition addr_str :: "nat \<Rightarrow> nat \<Rightarrow> string cxx" where
  "addr_str addr padding =
     cxx_bind (num_size addr 16) (\<lambda>numsize.
       let total_zero = int padding - int numsize in
       cxx_bind (num_str addr 16) (\<lambda>s.
         Val (''0x'' @ replicate (nat total_zero) (CHR ''0'') @ s)))"

text \<open>\<open>0xFF & mem[i]\<close> is the byte as a number.\<close>

fun hexdump_loop :: "string \<Rightarrow> char \<Rightarrow> string \<Rightarrow> string cxx" where
  "hexdump_loop [] delim ret = Val ret"
| "hexdump_loop (c # cs) delim ret =
     (let hex = cv c;
          ret = (if delim \<noteq> NUL \<and> ret \<noteq> [] then ret @ [delim] else ret);
          ret = (if hex < 16 then ret @ ''0'' else ret) in
      cxx_bind (num_str hex 16) (\<lambda>s. hexdump_loop cs delim (ret @ s)))"

definition hexdump :: "string \<Rightarrow> char \<Rightarrow> string cxx" where
  "hexdump mem delim = hexdump_loop mem delim []"

definition hex_byte :: "char \<Rightarrow> string" where
  "hex_byte c = [std_digit (cv c div 16), std_digit (cv c mod 16)]"

lemma hex_byte_eq: "(if cv c < 16 then ''0'' else []) @ to_chars (cv c) 16 = hex_byte c"
proof -
  have "cv c div 16 < 16" by (simp add: less_mult_imp_div_less)
  then have "cv c div 16 div 16 = 0" by simp
  then show ?thesis
    by (auto simp: hex_byte_def to_chars.simps [of "cv c"] to_chars.simps [of "cv c div 16"] std_digit_def char_of_48)
qed

lemma hexdump_loop_step:
  "hexdump_loop (c # cs) delim ret =
    hexdump_loop cs delim ((if delim \<noteq> NUL \<and> ret \<noteq> [] then ret @ [delim] else ret) @ hex_byte c)"
  by (auto simp: num_str_def Let_def simp flip: hex_byte_eq)

lemma hexdump_loop_eq:
  "ret \<noteq> [] \<Longrightarrow> hexdump_loop cs delim ret =
    Val (ret @ concat (map (\<lambda>c. (if delim \<noteq> NUL then [delim] else []) @ hex_byte c) cs))"
proof (induction cs arbitrary: ret)
  case (Cons c cs)
  then show ?case by (subst hexdump_loop_step) (simp del: hexdump_loop.simps)
qed simp

lemma hexdump_Nil [simp]: "hexdump [] delim = Val []"
  by (simp add: hexdump_def)

lemma hexdump_Cons:
  "hexdump (c # cs) delim =
    Val (hex_byte c @ concat (map (\<lambda>c. (if delim \<noteq> NUL then [delim] else []) @ hex_byte c) cs))"
proof -
  have "hex_byte c \<noteq> []" by (simp add: hex_byte_def)
  then show ?thesis unfolding hexdump_def by (subst hexdump_loop_step) (simp add: hexdump_loop_eq)
qed

lemma length_hex_byte [simp]: "length (hex_byte c) = 2"
  by (simp add: hex_byte_def)

lemma std_digit_not_x: "d < 16 \<Longrightarrow> std_digit d \<noteq> CHR ''x'' \<and> std_digit d \<noteq> CHR ''X''"
proof -
  assume d: "d < 16"
  then have "std_digit_val (std_digit d) = Some d" by simp
  moreover have "std_digit_val (CHR ''x'') = Some 33" "std_digit_val (CHR ''X'') = Some 33"
    by (simp_all add: std_digit_val.simps)
  ultimately have "std_digit d = CHR ''x'' \<Longrightarrow> d = 33" "std_digit d = CHR ''X'' \<Longrightarrow> d = 33"
    by simp_all
  with d show ?thesis by auto
qed

lemma to_unsigned_hex_byte: "to_unsigned (hex_byte c) 16 = Val (Some (cv c))"
proof -
  let ?h = "cv c div 16" and ?l = "cv c mod 16"
  have h: "?h < 16" "?l < 16" by (simp_all add: less_mult_imp_div_less)
  then have ne: "std_digit ?h \<noteq> CHR ''-''" "std_digit ?h \<noteq> CHR ''+''"
    using std_digit_not_sign by auto
  have "std_digit ?l \<noteq> CHR ''x'' \<and> std_digit ?l \<noteq> CHR ''X''"
    using h(2) by (rule std_digit_not_x)
  then have "prefix_base_of (std_digit ?l) \<noteq> 16" by (simp add: prefix_base_of_def)
  then have "resolve_base_prefix (hex_byte c) 16 = (hex_byte c, 16)"
    by (auto simp: resolve_base_prefix_def hex_byte_def)
  moreover have "leading_digits 16 (hex_byte c) = [?h, ?l]"
    using h by (simp add: hex_byte_def)
  moreover have "?h * 16 + ?l = cv c" by simp
  moreover have "cv c < 2 ^ 64" by (rule less_trans [OF cv_less]) simp
  ultimately have "from_chars_unsigned (hex_byte c) 16 = Some (cv c)"
    by (simp add: from_chars_unsigned_def digits_value_def)
  with \<open>resolve_base_prefix _ _ = _\<close> ne show ?thesis
    by (simp add: to_unsigned_def hex_byte_def)
qed


fun hexdump_text :: "char \<Rightarrow> string \<Rightarrow> string" where
  "hexdump_text delim [] = []"
| "hexdump_text delim [c] = hex_byte c"
| "hexdump_text delim (c # d # cs) = hex_byte c @ (if delim \<noteq> NUL then [delim] else []) @ hexdump_text delim (d # cs)"

lemma hexdump_eq: "hexdump mem delim = Val (hexdump_text delim mem)"
proof (cases mem)
  case (Cons c cs)
  have "hex_byte c @ concat (map (\<lambda>c. (if delim \<noteq> NUL then [delim] else []) @ hex_byte c) cs)
      = hexdump_text delim (c # cs)"
    by (induction cs arbitrary: c) auto
  with Cons show ?thesis by (simp only: hexdump_Cons)
qed simp

lemma hexdump_text_at:
  "i < length mem \<Longrightarrow>
    take 2 (drop (i * (if delim \<noteq> NUL then 3 else 2)) (hexdump_text delim mem)) = hex_byte (mem ! i)"
proof (induction delim mem arbitrary: i rule: hexdump_text.induct)
  case (3 delim c d cs)
  show ?case
  proof (cases i)
    case (Suc j)
    let ?w = "if delim \<noteq> NUL then 3 else 2 :: nat"
    have pre: "drop (n + k) (xs @ ys) = drop k ys" if "length xs = n" for n k and xs ys :: string
      using that by simp
    have "hexdump_text delim (c # d # cs) =
        (hex_byte c @ (if delim \<noteq> NUL then [delim] else [])) @ hexdump_text delim (d # cs)" by simp
    moreover have "length (hex_byte c @ (if delim \<noteq> NUL then [delim] else [])) = ?w" by simp
    ultimately have "drop (?w + j * ?w) (hexdump_text delim (c # d # cs)) = drop (j * ?w) (hexdump_text delim (d # cs))"
      by (simp only: pre)
    then have "drop (i * ?w) (hexdump_text delim (c # d # cs)) = drop (j * ?w) (hexdump_text delim (d # cs))"
      by (simp only: Suc mult_Suc)
    with 3 Suc show ?thesis by (simp del: hexdump_text.simps)
  qed simp
qed simp_all

text \<open>In the dump of a memory block the two hexadecimal digits of each byte stand at a fixed place,
  and reading them back gives the byte, with or without a delimiter.\<close>

lemma hexdump_roundtrip:
  assumes "i < length mem" and "w = (if delim \<noteq> NUL then 3 else 2)"
  shows "\<exists>s. hexdump mem delim = Val s \<and> to_unsigned (take 2 (drop (i * w) s)) 16 = Val (Some (cv (mem ! i)))"
  using assms by (auto simp: hexdump_eq hexdump_text_at to_unsigned_hex_byte)

text \<open>
  The formatted dump. \<open>fmt\<close> refuses a width that does not fit an \<open>int\<close>, which is what the
  subtraction of sizes would give if the address had more digits than were reserved.
\<close>

definition fmt_addr :: "nat \<Rightarrow> nat \<Rightarrow> string cxx" where
  "fmt_addr i max_addr_size =
     cxx_bind (addr_str i 0) (\<lambda>a. cxx_bind (num_size i 16) (\<lambda>n.
       if n > max_addr_size then Raise FormatError
       else Val (a @ '':'' @ replicate (max_addr_size - n) (CHR '' ''))))"

definition fmt_cell :: "string \<Rightarrow> nat \<Rightarrow> string cxx" where
  "fmt_cell mem i =
     (if i < length mem then
        (let hex = cv (mem ! i) in
         cxx_bind (num_str hex 16) (\<lambda>s. Val ((if hex < 16 then ''0'' else []) @ s @ '' '')))
      else Val ''   '')"

definition fmt_ascii :: "string \<Rightarrow> nat \<Rightarrow> char" where
  "fmt_ascii mem begin_i =
     (if begin_i \<ge> length mem then CHR '' ''
      else if c_isprint (mem ! begin_i) then mem ! begin_i else CHR ''.'')"

function hexdump_fmt_loop :: "string \<Rightarrow> nat \<Rightarrow> nat \<Rightarrow> nat \<Rightarrow> nat \<Rightarrow> string \<Rightarrow> string list \<Rightarrow> string list cxx" where
  "hexdump_fmt_loop mem cols tot max_addr_size i line ret =
     (if i < tot then
        cxx_bind (if i mod cols = 0 then cxx_bind (fmt_addr i max_addr_size) (\<lambda>a. Val (line @ a)) else Val line)
          (\<lambda>line. cxx_bind (fmt_cell mem i) (\<lambda>cell.
             let line = line @ cell in
             if i mod cols = cols - 1 then
               hexdump_fmt_loop mem cols tot max_addr_size (i + 1) []
                 (ret @ [line @ ''  '' @ map (fmt_ascii mem) [i - (cols - 1)..<i + 1]])
             else hexdump_fmt_loop mem cols tot max_addr_size (i + 1) line ret))
      else Val ret)"
  by pat_completeness auto
termination
  by (relation "measure (\<lambda>(mem, cols, tot, m, i, line, ret). tot - i)") auto

declare hexdump_fmt_loop.simps [simp del]

definition hexdump_fmt :: "string \<Rightarrow> nat \<Rightarrow> string list cxx" where
  "hexdump_fmt mem cols =
     (if cols = 0 then Undef
      else let size = length mem;
               suppl = (if size mod cols = 0 then 0 else cols - size mod cols) in
        cxx_bind (num_size size 16) (\<lambda>n.
          hexdump_fmt_loop mem cols (size + suppl) (n + 1) 0 [] []))"

text \<open>What the columns from \<open>i\<close> to \<open>j\<close> contribute to a line, and the line of a group of columns.\<close>

definition fmt_cells :: "string \<Rightarrow> nat \<Rightarrow> nat \<Rightarrow> string" where
  "fmt_cells mem i j =
     concat (map (\<lambda>j. (if j < length mem then hex_byte (mem ! j) else ''  '') @ '' '') [i..<j])"

definition fmt_asciis :: "string \<Rightarrow> nat \<Rightarrow> nat \<Rightarrow> string" where
  "fmt_asciis mem i j = map (fmt_ascii mem) [i..<j]"

definition hexdump_line :: "string \<Rightarrow> nat \<Rightarrow> nat \<Rightarrow> string" where
  "hexdump_line mem cols k =
     (let i = k * cols; addr = to_chars i 16 in
      ''0x'' @ addr @ '':'' @ replicate (length (to_chars (length mem) 16) + 1 - length addr) (CHR '' '') @
      fmt_cells mem i (i + cols) @ ''  '' @ fmt_asciis mem i (i + cols))"

lemma fmt_cell_eq:
  "fmt_cell mem i = Val ((if i < length mem then hex_byte (mem ! i) else ''  '') @ '' '')"
  by (simp add: fmt_cell_def num_str_def Let_def flip: hex_byte_eq)

lemma fmt_cells_step:
  "i < j \<Longrightarrow> cxx_bind (fmt_cell mem i) (\<lambda>c. Val (l @ c @ fmt_cells mem (i + 1) j)) = Val (l @ fmt_cells mem i j)"
  by (simp add: fmt_cells_def fmt_cell_eq upt_conv_Cons)

lemma fmt_cellsE:
  assumes "i < j"
  obtains c where "fmt_cell mem i = Val c" "fmt_cells mem i j = c @ fmt_cells mem (i + 1) j"
  using assms by (auto simp: fmt_cells_def fmt_cell_eq upt_conv_Cons)

lemma fmt_cells_empty [simp]: "fmt_cells mem i i = []"
  by (simp add: fmt_cells_def)

lemma fmt_addr_eq:
  "length (to_chars i 16) \<le> m \<Longrightarrow>
    fmt_addr i m = Val (''0x'' @ to_chars i 16 @ '':'' @ replicate (m - length (to_chars i 16)) (CHR '' ''))"
proof -
  have "addr_str i 0 = Val (''0x'' @ to_chars i 16)"
    by (simp add: addr_str_def num_size_to_chars num_str_def)
  then show "length (to_chars i 16) \<le> m \<Longrightarrow> ?thesis" by (simp add: fmt_addr_def num_size_to_chars)
qed

lemma hexdump_fmt_loop_step:
  assumes "i < tot" "fmt_cell mem i = Val c"
    and "(if i mod cols = 0 then cxx_bind (fmt_addr i m) (\<lambda>a. Val (line @ a)) else Val line) = Val line'"
  shows "hexdump_fmt_loop mem cols tot m i line ret =
    (if i mod cols = cols - 1
     then hexdump_fmt_loop mem cols tot m (i + 1) [] (ret @ [(line' @ c) @ ''  '' @ fmt_asciis mem (i - (cols - 1)) (i + 1)])
     else hexdump_fmt_loop mem cols tot m (i + 1) (line' @ c) ret)"
  using assms by (subst hexdump_fmt_loop.simps) (simp add: Let_def fmt_asciis_def del: upt_Suc)

text \<open>The rest of a line from its column \<open>j\<close> on, once the address is written.\<close>

lemma hexdump_fmt_rest:
  assumes "j < cols" "i = k * cols + j" "k * cols + cols \<le> tot"
    and "(if i mod cols = 0 then cxx_bind (fmt_addr i m) (\<lambda>a. Val (line @ a)) else Val line) = Val line'"
  shows "hexdump_fmt_loop mem cols tot m i line ret =
    hexdump_fmt_loop mem cols tot m (k * cols + cols) []
      (ret @ [line' @ fmt_cells mem i (k * cols + cols) @ ''  '' @ fmt_asciis mem (k * cols) (k * cols + cols)])"
  using assms
proof (induction "cols - j" arbitrary: j i line line')
  case 0
  then show ?case by simp
next
  case (Suc n)
  have i: "i < tot" "i mod cols = j" "i < k * cols + cols" using Suc.prems by simp_all
  obtain c where c: "fmt_cell mem i = Val c"
    "fmt_cells mem i (k * cols + cols) = c @ fmt_cells mem (i + 1) (k * cols + cols)"
    by (rule fmt_cellsE [OF i(3)])
  note step = hexdump_fmt_loop_step [OF i(1) c(1) Suc.prems(4), of ret]
  show ?case
  proof (cases "j = cols - 1")
    case True
    then have "i + 1 = k * cols + cols" "i - (cols - 1) = k * cols" using Suc.prems by simp_all
    then show ?thesis using step i(2) True c(2) by simp
  next
    case False
    then have j: "j + 1 < cols" using Suc.prems(1) by simp
    have "(i + 1) mod cols = j + 1" using j Suc.prems(2) by simp
    then have "hexdump_fmt_loop mem cols tot m (i + 1) (line' @ c) ret =
      hexdump_fmt_loop mem cols tot m (k * cols + cols) []
      (ret @ [(line' @ c) @ fmt_cells mem (i + 1) (k * cols + cols) @ ''  '' @ fmt_asciis mem (k * cols) (k * cols + cols)])"
      using Suc.hyps(2) Suc.prems j by (intro Suc.hyps(1) [of "j + 1"]) simp_all
    with step i(2) False c(2) show ?thesis by simp
  qed
qed

lemma hexdump_fmt_row:
  assumes "0 < cols" "k * cols < length mem" "Suc k * cols \<le> tot" "m = length (to_chars (length mem) 16) + 1"
  shows "hexdump_fmt_loop mem cols tot m (k * cols) [] ret =
    hexdump_fmt_loop mem cols tot m (Suc k * cols) [] (ret @ [hexdump_line mem cols k])"
proof -
  let ?i = "k * cols"
  have "length (to_chars ?i 16) \<le> m"
    using length_to_chars_mono [of 16 ?i "length mem"] assms(2,4) by simp
  note addr = fmt_addr_eq [OF this]
  have "hexdump_fmt_loop mem cols tot m ?i [] ret = hexdump_fmt_loop mem cols tot m (?i + cols) []
      (ret @ [(''0x'' @ to_chars ?i 16 @ '':'' @ replicate (m - length (to_chars ?i 16)) (CHR '' '')) @
        fmt_cells mem ?i (?i + cols) @ ''  '' @ fmt_asciis mem ?i (?i + cols)])"
  proof (rule hexdump_fmt_rest [of 0])
    show "(if ?i mod cols = 0 then cxx_bind (fmt_addr ?i m) (\<lambda>a. Val ([] @ a)) else Val []) =
      Val (''0x'' @ to_chars ?i 16 @ '':'' @ replicate (m - length (to_chars ?i 16)) (CHR '' ''))"
      unfolding addr by simp
    show "?i + cols \<le> tot" using assms(3) by simp
  qed (use assms(1) in simp_all)
  moreover have "Suc k * cols = ?i + cols" by simp
  ultimately show ?thesis unfolding hexdump_line_def Let_def append_assoc assms(4) by (simp only:)
qed

lemma hexdump_fmt_rows:
  assumes "0 < cols" "k \<le> n" "n = 0 \<or> (n - 1) * cols < length mem" "m = length (to_chars (length mem) 16) + 1"
  shows "hexdump_fmt_loop mem cols (n * cols) m (k * cols) [] ret =
    Val (ret @ map (hexdump_line mem cols) [k..<n])"
  using assms(2)
proof (induction "n - k" arbitrary: k ret)
  case 0
  then show ?case using assms(1) by (simp add: hexdump_fmt_loop.simps)
next
  case (Suc d)
  then have k: "k < n" by simp
  then have "k * cols \<le> (n - 1) * cols" by (intro mult_right_mono) auto
  moreover have "(n - 1) * cols < length mem" using k assms(3) by simp
  ultimately have "k * cols < length mem" by (rule le_less_trans)
  moreover have "Suc k * cols \<le> n * cols" using k by (intro mult_right_mono) auto
  ultimately have "hexdump_fmt_loop mem cols (n * cols) m (k * cols) [] ret =
    hexdump_fmt_loop mem cols (n * cols) m (Suc k * cols) [] (ret @ [hexdump_line mem cols k])"
    using assms(1,4) by (intro hexdump_fmt_row)
  also have "\<dots> = Val ((ret @ [hexdump_line mem cols k]) @ map (hexdump_line mem cols) [Suc k..<n])"
    using Suc.hyps k by (intro Suc.hyps(1)) auto
  finally show ?case using k by (simp add: upt_conv_Cons)
qed

lemma ceil_div:
  fixes s c :: nat
  assumes "0 < c"
  shows "s + (if s mod c = 0 then 0 else c - s mod c) = (s + c - 1) div c * c"
    and "(s + c - 1) div c = 0 \<or> ((s + c - 1) div c - 1) * c < s"
proof -
  define q r where "q = s div c" and "r = s mod c"
  then have s: "s = q * c + r" and r: "r < c" using assms by simp_all
  have d: "(s + c - 1) div c = (if r = 0 then q else q + 1)"
  proof (cases "r = 0")
    case True
    have "((c - 1) + q * c) div c = q" using assms by (subst div_mult_self1) simp_all
    moreover have "s + c - 1 = (c - 1) + q * c" using True s assms by simp
    ultimately show ?thesis using True by simp
  next
    case False
    then have "s + c - 1 = (q + 1) * c + (r - 1)" using s r by (simp add: algebra_simps)
    moreover have "((q + 1) * c + (r - 1)) div c = q + 1"
      using r assms by (subst add.commute, subst div_mult_self1) simp_all
    ultimately show ?thesis using False by simp
  qed
  show "s + (if s mod c = 0 then 0 else c - s mod c) = (s + c - 1) div c * c"
    unfolding d r_def [symmetric] using s r by (auto simp: algebra_simps)
  show "(s + c - 1) div c = 0 \<or> ((s + c - 1) div c - 1) * c < s"
    unfolding d using s r assms by (cases q) (auto simp: algebra_simps)
qed

lemma hexdump_fmt_eq:
  assumes "0 < cols"
  shows "hexdump_fmt mem cols = Val (map (hexdump_line mem cols) [0..<(length mem + cols - 1) div cols])"
  using assms hexdump_fmt_rows [OF assms, of 0 "(length mem + cols - 1) div cols" mem _ "[]"]
    ceil_div [OF assms, of "length mem"]
  by (simp add: hexdump_fmt_def num_size_to_chars Let_def)


lemma length_fmt_cells_add: "length (fmt_cells mem i (i + d)) = 3 * d"
proof (induction d arbitrary: i)
  case (Suc d)
  from Suc [of "Suc i"] show ?case
    by (simp add: fmt_cells_def upt_conv_Cons del: upt_Suc)
qed simp

lemma length_fmt_cells [simp]: "length (fmt_cells mem i j) = 3 * (j - i)"
  using length_fmt_cells_add [of mem i "j - i"] by (cases "i \<le> j") (simp_all add: fmt_cells_def)

lemma fmt_cells_nth:
  assumes "i + j < k" "i + j < length mem"
  shows "take 2 (drop (3 * j) (fmt_cells mem i k @ t)) = hex_byte (mem ! (i + j))"
proof -
  have "[i..<k] = [i..<i + j] @ (i + j) # [i + j + 1..<k]"
    using assms(1) upt_add_eq_append [of i "i + j" "k - (i + j)"] by (simp add: upt_conv_Cons)
  then have "fmt_cells mem i k = fmt_cells mem i (i + j) @ hex_byte (mem ! (i + j)) @ '' '' @ fmt_cells mem (i + j + 1) k"
    using assms(2) by (simp add: fmt_cells_def)
  moreover have "length (fmt_cells mem i (i + j)) = 3 * j" by simp
  ultimately show ?thesis by simp
qed

text \<open>The part of a line before its cells.\<close>

definition line_head :: "string \<Rightarrow> nat \<Rightarrow> nat \<Rightarrow> string" where
  "line_head mem cols k = ''0x'' @ to_chars (k * cols) 16 @ '':'' @
     replicate (length (to_chars (length mem) 16) + 1 - length (to_chars (k * cols) 16)) (CHR '' '')"

definition head_width :: "string \<Rightarrow> nat" where
  "head_width mem = length (to_chars (length mem) 16) + 4"

lemma hexdump_line_parts:
  "hexdump_line mem cols k = line_head mem cols k @ fmt_cells mem (k * cols) (k * cols + cols) @ ''  '' @
     fmt_asciis mem (k * cols) (k * cols + cols)"
  by (simp add: hexdump_line_def line_head_def Let_def)

lemma length_line_head:
  assumes "0 < cols" "k < (length mem + cols - 1) div cols"
  shows "length (line_head mem cols k) = head_width mem"
proof -
  let ?n = "(length mem + cols - 1) div cols"
  have "k * cols \<le> (?n - 1) * cols" using assms(2) by (intro mult_right_mono) auto
  moreover have "(?n - 1) * cols \<le> length mem"
    using ceil_div(2) [OF assms(1), of "length mem"] assms(2) by (auto simp del: One_nat_def)
  ultimately have "k * cols \<le> length mem" by (rule le_trans)
  then have "length (to_chars (k * cols) 16) \<le> length (to_chars (length mem) 16)"
    by (intro length_to_chars_mono) simp_all
  then show ?thesis by (simp add: line_head_def head_width_def)
qed

lemma length_hexdump_line:
  assumes "0 < cols" "k < (length mem + cols - 1) div cols"
  shows "length (hexdump_line mem cols k) = head_width mem + 3 * cols + 2 + cols"
proof -
  have "length (line_head mem cols k @ t) = head_width mem + length t" for t
    using length_line_head [OF assms] by simp
  then show ?thesis by (simp only: hexdump_line_parts) (simp add: fmt_asciis_def)
qed

lemma hexdump_line_byte:
  assumes "0 < cols" "i < length mem"
  shows "i div cols < (length mem + cols - 1) div cols"
    "take 2 (drop (head_width mem + 3 * (i mod cols)) (hexdump_line mem cols (i div cols))) = hex_byte (mem ! i)"
    "hexdump_line mem cols (i div cols) ! (head_width mem + 3 * cols + 2 + i mod cols) = fmt_ascii mem i"
proof -
  let ?n = "(length mem + cols - 1) div cols" and ?w = "head_width mem"
  let ?k = "i div cols" and ?j = "i mod cols"
  have "i < ?n * cols" using ceil_div(1) [OF assms(1), of "length mem"] assms(2) by simp
  then show k: "?k < ?n" using assms(1) by (simp add: less_mult_imp_div_less)
  note head = length_line_head [OF assms(1) k]
  have j: "?j < cols" "?k * cols + ?j = i" using assms(1) by simp_all
  have drop_head: "drop (?w + m) (line_head mem cols ?k @ t) = drop m t" for m t
    using head by simp
  have "take 2 (drop (3 * ?j) (fmt_cells mem (?k * cols) (?k * cols + cols) @ t)) = hex_byte (mem ! i)" for t
    using fmt_cells_nth [of "?k * cols" ?j "?k * cols + cols" mem t] j assms(2) by simp
  then show "take 2 (drop (?w + 3 * ?j) (hexdump_line mem cols ?k)) = hex_byte (mem ! i)"
    unfolding hexdump_line_parts drop_head by simp
  have nth: "(xs @ ys) ! (length xs + m) = ys ! m" for xs ys :: string and m by simp
  have "(line_head mem cols ?k @ t) ! (?w + m) = t ! m" for t m using head by (metis nth)
  then have "hexdump_line mem cols ?k ! (?w + (3 * cols + (2 + ?j))) =
      (fmt_cells mem (?k * cols) (?k * cols + cols) @ ''  '' @ fmt_asciis mem (?k * cols) (?k * cols + cols)) ! (3 * cols + (2 + ?j))"
    unfolding hexdump_line_parts by blast
  also have "\<dots> = fmt_asciis mem (?k * cols) (?k * cols + cols) ! ?j" by (simp add: nth_append)
  finally show "hexdump_line mem cols ?k ! (?w + 3 * cols + 2 + ?j) = fmt_ascii mem i"
    using j by (simp add: fmt_asciis_def add.assoc)
qed

text \<open>With at least one column the formatted dump has one line for every started group of columns; all
  lines have the same length, the width reserved for addresses always suffices, and the line
  of a byte shows its two digits in its column and the byte, or a dot, at the end.\<close>

lemma hexdump_fmt_layout:
  assumes "0 < cols"
  shows "\<exists>ls. hexdump_fmt mem cols = Val ls \<and> length ls = (length mem + cols - 1) div cols \<and>
    (\<forall>l \<in> set ls. length l = head_width mem + 3 * cols + 2 + cols) \<and>
    (\<forall>i < length mem. i div cols < length ls \<and>
      take 2 (drop (head_width mem + 3 * (i mod cols)) (ls ! (i div cols))) = hex_byte (mem ! i) \<and>
      ls ! (i div cols) ! (head_width mem + 3 * cols + 2 + i mod cols) = (if c_isprint (mem ! i) then mem ! i else CHR ''.''))"
  using hexdump_fmt_eq [OF assms, of mem] length_hexdump_line [OF assms, of _ mem] hexdump_line_byte [OF assms]
  by (intro exI [of _ "map (hexdump_line mem cols) [0..<(length mem + cols - 1) div cols]"]) (auto simp: fmt_ascii_def)

end
