(* ===== verification/Sihd_Escapes.thy ===== *)
theory Sihd_Escapes
  imports Sihd_Chars
begin

text \<open>
  Escapes and enclosing sequences of util/str.cpp. An \<open>int\<close> that is compared with bytes is an
  \<open>int\<close>; indexes are natural numbers, for texts shorter than \<open>2 ^ 31\<close> bytes. A
  \<open>const char *\<close> list of start characters is a string without NUL, or \<open>None\<close> for null.
\<close>

section \<open>Single characters\<close>

definition encloses_start :: string where
  "encloses_start = [CHR 0x22, CHR 0x27, CHR ''['', CHR ''('', CHR ''{'', CHR ''<'']"

definition encloses_stop :: string where
  "encloses_stop = [CHR 0x22, CHR 0x27, CHR '']'', CHR '')'', CHR ''}'', CHR ''>'']"

definition escape_char :: int where "escape_char = 92"

text \<open>\<open>strchr\<close> converts to \<open>char\<close> and also finds the terminator.\<close>

fun strchr :: "string \<Rightarrow> int \<Rightarrow> nat option" where
  "strchr [] c = (if c mod 256 = 0 then Some 0 else None)"
| "strchr (x # xs) c = (if int (cv x) = c mod 256 then Some 0 else map_option Suc (strchr xs c))"

definition is_char_enclose_start :: "int \<Rightarrow> string \<Rightarrow> bool" where
  "is_char_enclose_start c authorized_start_enclose \<longleftrightarrow> c > 0 \<and> strchr authorized_start_enclose c \<noteq> None"

definition is_char_enclose_stop :: "int \<Rightarrow> string \<Rightarrow> bool" where
  "is_char_enclose_stop c authorized_stop_enclose \<longleftrightarrow> c > 0 \<and> strchr authorized_stop_enclose c \<noteq> None"

text \<open>At its length a string literal has its terminator.\<close>

definition stopping_enclose_of :: "int \<Rightarrow> int" where
  "stopping_enclose_of c =
     (case strchr encloses_start c of
        Some idx \<Rightarrow> if idx < length encloses_stop then c_int (encloses_stop ! idx) else 0
      | None \<Rightarrow> -1)"

definition is_escaped_char :: "string \<Rightarrow> nat \<Rightarrow> int \<Rightarrow> bool" where
  "is_escaped_char str index escape =
     (let is_escaped = index > 0 \<and> c_int (str ! (index - 1)) = escape;
          is_escape_escaped = index > 1 \<and> c_int (str ! (index - 2)) = escape in
      is_escaped \<and> \<not> is_escape_escaped)"

function find_char_not_escaped_loop :: "string \<Rightarrow> char \<Rightarrow> int \<Rightarrow> nat \<Rightarrow> int" where
  "find_char_not_escaped_loop view c escape idx =
     (case find_char view c idx of
        None \<Rightarrow> -1
      | Some i \<Rightarrow> if \<not> is_escaped_char view i escape then int i
                  else find_char_not_escaped_loop view c escape (i + 1))"
  by pat_completeness auto
termination
  by (relation "measure (\<lambda>(view, c, escape, idx). length view - idx)")
    (auto dest!: find_if_from_SomeD)

declare find_char_not_escaped_loop.simps [simp del]

definition find_char_not_escaped :: "string \<Rightarrow> char \<Rightarrow> int \<Rightarrow> int" where
  "find_char_not_escaped view c escape = find_char_not_escaped_loop view c escape 0"

section \<open>Enclosed sequences\<close>

text \<open>The result of \<open>stopping_enclose_index\<close>: -1, -2, or the index after the enclosed sequence.\<close>

datatype enclose = NotEnclose | NeverEnds | ClosedAt nat

text \<open>The stop character at \<open>i\<close> does not count when it is doubled and itself the escape.\<close>

definition doubled_escape :: "string \<Rightarrow> nat \<Rightarrow> int \<Rightarrow> int \<Rightarrow> bool" where
  "doubled_escape view i escape stopping_enclose \<longleftrightarrow>
     escape = stopping_enclose \<and> i + 1 < length view \<and> c_int (view ! (i + 1)) = stopping_enclose"

function stopping_loop :: "string \<Rightarrow> int \<Rightarrow> int \<Rightarrow> nat \<Rightarrow> enclose" where
  "stopping_loop view escape stopping_enclose i =
     (if i < length view then
        if c_int (view ! i) = stopping_enclose \<and> \<not> doubled_escape view i escape stopping_enclose
           \<and> \<not> is_escaped_char view i escape
        then ClosedAt (i + 1)
        else stopping_loop view escape stopping_enclose (i + 1)
      else NeverEnds)"
  by pat_completeness auto
termination
  by (relation "measure (\<lambda>(view, escape, st, i). length view - i)") auto

declare stopping_loop.simps [simp del]

definition stopping_enclose_index :: "string \<Rightarrow> nat \<Rightarrow> string option \<Rightarrow> int \<Rightarrow> enclose" where
  "stopping_enclose_index view index authorized_start_enclose escape =
     (if index \<ge> length view then NotEnclose
      else let open_esc = c_int (view ! index) in
        if (case authorized_start_enclose of None \<Rightarrow> False | Some a \<Rightarrow> strchr a open_esc = None) then NotEnclose
        else let stopping_enclose = stopping_enclose_of open_esc in
          if stopping_enclose < 0 \<or> doubled_escape view index escape stopping_enclose
             \<or> is_escaped_char view index escape
          then NotEnclose
          else stopping_loop view escape stopping_enclose (index + 1))"

lemma stopping_loop_ClosedAtD:
  "stopping_loop view escape st i = ClosedAt k \<Longrightarrow>
    i < k \<and> k \<le> length view \<and> c_int (view ! (k - 1)) = st \<and> \<not> doubled_escape view (k - 1) escape st \<and>
    \<not> is_escaped_char view (k - 1) escape \<and>
    (\<forall>j. i \<le> j \<longrightarrow> j < k - 1 \<longrightarrow> c_int (view ! j) = st \<longrightarrow> doubled_escape view j escape st \<or> is_escaped_char view j escape)"
proof (induction view escape st i rule: stopping_loop.induct)
  case (1 view escape st i)
  show ?case
  proof (cases "i < length view \<and> \<not> (c_int (view ! i) = st \<and> \<not> doubled_escape view i escape st \<and> \<not> is_escaped_char view i escape)")
    case True
    with "1.prems" have r: "stopping_loop view escape st (i + 1) = ClosedAt k"
      by (auto simp: stopping_loop.simps [of view escape st i])
    from "1.IH" [OF _ _ r] True show ?thesis
      by (auto simp: Suc_le_eq) (metis le_neq_implies_less)+
  next
    case False
    with "1.prems" show ?thesis by (auto simp: stopping_loop.simps [of view escape st i] split: if_splits)
  qed
qed

lemma stopping_loop_NeverEndsD:
  "stopping_loop view escape st i = NeverEnds \<Longrightarrow> i \<le> j \<Longrightarrow> j < length view \<Longrightarrow>
    c_int (view ! j) = st \<Longrightarrow> doubled_escape view j escape st \<or> is_escaped_char view j escape"
proof (induction view escape st i rule: stopping_loop.induct)
  case (1 view escape st i)
  then show ?case
    by (cases "j = i") (auto simp: stopping_loop.simps [of view escape st i] split: if_splits)
qed

lemma stopping_loop_not_NotEnclose: "stopping_loop view escape st i \<noteq> NotEnclose"
  by (induction view escape st i rule: stopping_loop.induct) (subst stopping_loop.simps, simp)

lemma stopping_enclose_index_ClosedAtD:
  "stopping_enclose_index view i auth escape = ClosedAt k \<Longrightarrow> i + 1 < k \<and> k \<le> length view"
  by (auto simp: stopping_enclose_index_def Let_def split: if_splits option.splits dest!: stopping_loop_ClosedAtD)

text \<open>The text seen by \<open>stopping_enclose_index\<close> is remade from the pointer, and ends at a NUL byte.\<close>

function find_str_not_enclosed_loop :: "string \<Rightarrow> string \<Rightarrow> string option \<Rightarrow> int \<Rightarrow> nat \<Rightarrow> int" where
  "find_str_not_enclosed_loop origin to_find auth escape i =
     (if i < length origin then
        case stopping_enclose_index (c_str origin) i auth escape of
          ClosedAt closed_at \<Rightarrow> find_str_not_enclosed_loop origin to_find auth escape closed_at
        | NeverEnds \<Rightarrow> -1
        | NotEnclose \<Rightarrow>
            if take (length to_find) (drop i origin) = to_find then int i
            else find_str_not_enclosed_loop origin to_find auth escape (i + 1)
      else -1)"
  by pat_completeness auto
termination
  by (relation "measure (\<lambda>(origin, to_find, auth, escape, i). length origin - i)")
    (auto dest!: stopping_enclose_index_ClosedAtD)

declare find_str_not_enclosed_loop.simps [simp del]

definition find_str_not_enclosed :: "string \<Rightarrow> string \<Rightarrow> string option \<Rightarrow> int \<Rightarrow> int" where
  "find_str_not_enclosed origin to_find auth escape = find_str_not_enclosed_loop origin to_find auth escape 0"

text \<open>Where a closing character counts.\<close>

definition closes_at :: "string \<Rightarrow> int \<Rightarrow> int \<Rightarrow> nat \<Rightarrow> bool" where
  "closes_at view escape st j \<longleftrightarrow> c_int (view ! j) = st \<and> \<not> doubled_escape view j escape st \<and> \<not> is_escaped_char view j escape"

definition opens_at :: "string \<Rightarrow> string option \<Rightarrow> int \<Rightarrow> nat \<Rightarrow> bool" where
  "opens_at view auth escape i \<longleftrightarrow> i < length view \<and>
     (case auth of None \<Rightarrow> True | Some a \<Rightarrow> strchr a (c_int (view ! i)) \<noteq> None) \<and>
     0 \<le> stopping_enclose_of (c_int (view ! i)) \<and>
     \<not> doubled_escape view i escape (stopping_enclose_of (c_int (view ! i))) \<and> \<not> is_escaped_char view i escape"

text \<open>\<open>stopping_enclose_index\<close> recognises an enclosed sequence exactly where an authorised, unescaped opening
  character stands; it then returns the index after the first closing character that counts,
  and the code for an unclosed sequence only if there is none.\<close>

lemma stopping_enclose_index_finds_first:
  "case stopping_enclose_index view i auth escape of
     NotEnclose \<Rightarrow> \<not> opens_at view auth escape i
   | NeverEnds \<Rightarrow> opens_at view auth escape i \<and>
       (\<forall>j. i < j \<and> j < length view \<longrightarrow> \<not> closes_at view escape (stopping_enclose_of (c_int (view ! i))) j)
   | ClosedAt k \<Rightarrow> opens_at view auth escape i \<and> i + 1 < k \<and> k \<le> length view \<and>
       closes_at view escape (stopping_enclose_of (c_int (view ! i))) (k - 1) \<and>
       (\<forall>j. i < j \<and> j < k - 1 \<longrightarrow> \<not> closes_at view escape (stopping_enclose_of (c_int (view ! i))) j)"
proof -
  let ?st = "stopping_enclose_of (c_int (view ! i))"
  have r: "stopping_enclose_index view i auth escape =
      (if opens_at view auth escape i then stopping_loop view escape ?st (i + 1) else NotEnclose)"
    by (auto simp: stopping_enclose_index_def opens_at_def Let_def split: option.splits)
  show ?thesis
  proof (cases "opens_at view auth escape i")
    case True
    show ?thesis
    proof (cases "stopping_loop view escape ?st (i + 1)")
      case NotEnclose
      then show ?thesis by (simp add: stopping_loop_not_NotEnclose)
    next
      case NeverEnds
      then show ?thesis using True r stopping_loop_NeverEndsD [OF NeverEnds]
        by (auto simp: closes_at_def)
    next
      case (ClosedAt k)
      then show ?thesis using True r stopping_loop_ClosedAtD [OF ClosedAt]
        by (auto simp: closes_at_def Suc_le_eq)
    qed
  qed (simp add: r)
qed

text \<open>
  The comment of \<open>is_escaped_char\<close> speaks of an odd number of escapes; only two are looked
  at, so a character after three escapes is not escaped.
\<close>

lemma is_escaped_after_three: "\<not> is_escaped_char ''|||x'' 3 124"
  by (simp add: is_escaped_char_def)

section \<open>Removing escapes\<close>

function count_escapes :: "string \<Rightarrow> int \<Rightarrow> nat \<Rightarrow> nat \<Rightarrow> nat" where
  "count_escapes str escape i n =
     (if i < length str then
        if c_int (str ! i) = escape then count_escapes str escape (i + 2) (n + 1)
        else count_escapes str escape (i + 1) n
      else n)"
  by pat_completeness auto
termination
  by (relation "measure (\<lambda>(str, escape, i, n). length str - i)") auto

text \<open>\<open>ret[j] = c\<close> in a buffer of fixed size.\<close>

definition store :: "string \<Rightarrow> nat \<Rightarrow> char \<Rightarrow> string cxx" where
  "store ret j c = (if j < length ret then Val (ret [j := c]) else Undef)"

function copy_unescaped :: "string \<Rightarrow> int \<Rightarrow> nat \<Rightarrow> nat \<Rightarrow> string \<Rightarrow> string cxx" where
  "copy_unescaped str escape i j ret =
     (if i < length str then
        let i = (if c_int (str ! i) = escape then i + 1 else i) in
        if i < length str then
          cxx_bind (store ret j (str ! i)) (\<lambda>ret. copy_unescaped str escape (i + 1) (j + 1) ret)
        else Val ret
      else Val ret)"
  by pat_completeness auto
termination
  by (relation "measure (\<lambda>(str, escape, i, j, ret). length str - i)") auto

declare count_escapes.simps [simp del] copy_unescaped.simps [simp del]

definition remove_escape_char :: "string \<Rightarrow> int \<Rightarrow> string cxx" where
  "remove_escape_char str escape =
     copy_unescaped str escape 0 0 (replicate (length str - count_escapes str escape 0 0) NUL)"

fun unescape :: "int \<Rightarrow> string \<Rightarrow> string" where
  "unescape e [] = []"
| "unescape e [c] = (if c_int c = e then [] else [c])"
| "unescape e (c # d # cs) = (if c_int c = e then d # unescape e cs else c # unescape e (d # cs))"

lemma drop_unescape:
  "i < length str \<Longrightarrow> unescape e (drop i str) =
    (if c_int (str ! i) = e then (if i + 1 < length str then str ! (i + 1) # unescape e (drop (i + 2) str) else [])
     else str ! i # unescape e (drop (i + 1) str))"
proof -
  assume i: "i < length str"
  then have d: "drop i str = str ! i # drop (i + 1) str" by (simp add: Cons_nth_drop_Suc)
  show ?thesis
  proof (cases "i + 1 < length str")
    case True
    then have "drop (i + 1) str = str ! (i + 1) # drop (i + 2) str" by (simp add: Cons_nth_drop_Suc)
    with d True show ?thesis by simp
  next
    case False
    then have "drop (i + 1) str = []" by simp
    with d False show ?thesis by simp
  qed
qed

lemma count_escapes_eq:
  "i \<le> length str \<or> i = Suc (length str) \<Longrightarrow>
    count_escapes str e i n + length (unescape e (drop i str)) = n + (length str - i)"
proof (induction str e i n rule: count_escapes.induct)
  case (1 str e i n)
  show ?case
  proof (cases "i < length str")
    case True
    then show ?thesis
      using "1.IH" by (subst count_escapes.simps) (auto simp: drop_unescape)
  qed (simp add: count_escapes.simps)
qed


lemma copy_unescaped_eq:
  "length ret = j + length (unescape e (drop i str)) \<Longrightarrow>
    copy_unescaped str e i j ret = Val (take j ret @ unescape e (drop i str))"
proof (induction str e i j ret rule: copy_unescaped.induct)
  case (1 str e i j ret)
  show ?case
  proof (cases "i < length str")
    case False
    with "1.prems" show ?thesis by (simp add: copy_unescaped.simps)
  next
    case True
    let ?k = "if c_int (str ! i) = e then i + 1 else i"
    show ?thesis
    proof (cases "?k < length str")
      case False
      with True have "c_int (str ! i) = e" "i + 1 = length str" by (auto split: if_splits)
      with True "1.prems" show ?thesis by (subst copy_unescaped.simps) (simp add: drop_unescape)
    next
      case k: True
      then have u: "unescape e (drop i str) = str ! ?k # unescape e (drop (?k + 1) str)"
        using True by (auto simp: drop_unescape split: if_splits)
      with "1.prems" have j: "j < length ret" by simp
      have "copy_unescaped str e i j ret = copy_unescaped str e (?k + 1) (j + 1) (ret [j := str ! ?k])"
        using True k j by (subst copy_unescaped.simps) (simp add: store_def Let_def)
      also have "\<dots> = Val (take (j + 1) (ret [j := str ! ?k]) @ unescape e (drop (?k + 1) str))"
        using "1.IH" [OF True refl k, of "ret [j := str ! ?k]"] "1.prems" u by simp
      also have "\<dots> = Val (take j ret @ unescape e (drop i str))"
        using j by (simp add: u take_Suc_conv_app_nth)
      finally show ?thesis .
    qed
  qed
qed

lemma remove_escape_char_eq: "remove_escape_char str e = Val (unescape e str)"
proof -
  have "length str - count_escapes str e 0 0 = length (unescape e str)"
    using count_escapes_eq [of 0 str e 0] by simp
  then show ?thesis unfolding remove_escape_char_def by (subst copy_unescaped_eq) simp_all
qed

definition escape_text :: "char \<Rightarrow> (char \<Rightarrow> bool) \<Rightarrow> string \<Rightarrow> string" where
  "escape_text e P s = concat (map (\<lambda>c. if c = e \<or> P c then [e, c] else [c]) s)"

text \<open>C17. Removing the escapes never writes outside the buffer that was sized by counting
  them, and undoes any escaping that puts an escape before every escape character and before
  whatever other characters one likes.\<close>

theorem remove_escape_char_roundtrip:
  "(\<exists>t. remove_escape_char str escape = Val t) \<and>
   remove_escape_char (escape_text e P s) (c_int e) = Val s"
proof -
  have "unescape (c_int e) (escape_text e P s) = s"
  proof (induction s)
    case (Cons c s)
    show ?case
    proof (cases "c = e \<or> P c")
      case False
      have "unescape (c_int e) (c # t) = c # unescape (c_int e) t" if "c \<noteq> e" for t
        using that by (cases t) (simp_all add: c_int_inj)
      with Cons False show ?thesis by (simp add: escape_text_def)
    qed (use Cons in \<open>simp add: escape_text_def\<close>)
  qed (simp add: escape_text_def)
  then show ?thesis by (simp add: remove_escape_char_eq)
qed

section \<open>Removing encloses\<close>

text \<open>
  Both loops of \<open>remove_enclosing\<close> walk over the text in the same way: the state is the
  closing character that is waited for, or \<open>None\<close> outside of a sequence (the code does
  not read \<open>current_seq\<close> there).
\<close>

definition enclose_step :: "string \<Rightarrow> string \<Rightarrow> int \<Rightarrow> nat \<Rightarrow> int option \<Rightarrow> int option \<times> bool" where
  "enclose_step str auth escape i seq =
     (if seq = None \<and> is_char_enclose_start (c_int (str ! i)) auth \<and> \<not> is_escaped_char str i escape
      then (Some (stopping_enclose_of (c_int (str ! i))), True)
      else if seq = Some (c_int (str ! i)) then (None, True)
      else (seq, False))"

function count_sequences :: "string \<Rightarrow> string \<Rightarrow> int \<Rightarrow> nat \<Rightarrow> int option \<Rightarrow> nat \<Rightarrow> nat" where
  "count_sequences str auth escape i seq n =
     (if i < length str then
        let (seq, skip) = enclose_step str auth escape i seq in
        count_sequences str auth escape (i + 1) seq (if skip then n + 1 else n)
      else n)"
  by pat_completeness auto
termination
  by (relation "measure (\<lambda>(str, auth, escape, i, seq, n). length str - i)") auto

function copy_sequences :: "string \<Rightarrow> string \<Rightarrow> int \<Rightarrow> nat \<Rightarrow> nat \<Rightarrow> int option \<Rightarrow> string \<Rightarrow> string cxx" where
  "copy_sequences str auth escape i j seq ret =
     (if i < length str then
        let (seq, skip) = enclose_step str auth escape i seq in
        if skip then copy_sequences str auth escape (i + 1) j seq ret
        else cxx_bind (store ret j (str ! i)) (\<lambda>ret. copy_sequences str auth escape (i + 1) (j + 1) seq ret)
      else Val ret)"
  by pat_completeness auto
termination
  by (relation "measure (\<lambda>(str, auth, escape, i, j, seq, ret). length str - i)") auto

declare count_sequences.simps [simp del] copy_sequences.simps [simp del]

definition remove_enclosing :: "string \<Rightarrow> string \<Rightarrow> int \<Rightarrow> string cxx" where
  "remove_enclosing str auth escape =
     copy_sequences str auth escape 0 0 None
       (replicate (length str - count_sequences str auth escape 0 None 0) NUL)"

text \<open>The bytes that are kept.\<close>

function kept_chars :: "string \<Rightarrow> string \<Rightarrow> int \<Rightarrow> nat \<Rightarrow> int option \<Rightarrow> string" where
  "kept_chars str auth escape i seq =
     (if i < length str then
        (case enclose_step str auth escape i seq of (seq, skip) \<Rightarrow>
          (if skip then [] else [str ! i]) @ kept_chars str auth escape (i + 1) seq)
      else [])"
  by pat_completeness auto
termination
  by (relation "measure (\<lambda>(str, auth, escape, i, seq). length str - i)") auto

declare kept_chars.simps [simp del]

lemma count_sequences_eq:
  "i \<le> length str \<Longrightarrow> count_sequences str auth e i seq n + length (kept_chars str auth e i seq) = n + (length str - i)"
proof (induction str auth e i seq n rule: count_sequences.induct)
  case (1 str auth e i seq n)
  show ?case
  proof (cases "i < length str")
    case True
    obtain seq' skip where s: "enclose_step str auth e i seq = (seq', skip)" by fastforce
    from "1.IH" [OF True s [symmetric] refl] True show ?thesis
      by (auto simp: count_sequences.simps [of str auth e i] kept_chars.simps [of str auth e i] s)
  qed (use 1 in \<open>simp add: count_sequences.simps kept_chars.simps\<close>)
qed

lemma copy_sequences_eq:
  "length ret = j + length (kept_chars str auth e i seq) \<Longrightarrow>
    copy_sequences str auth e i j seq ret = Val (take j ret @ kept_chars str auth e i seq)"
proof (induction str auth e i j seq ret rule: copy_sequences.induct)
  case (1 str auth e i j seq ret)
  show ?case
  proof (cases "i < length str")
    case True
    obtain seq' skip where s: "enclose_step str auth e i seq = (seq', skip)" by fastforce
    show ?thesis
    proof (cases skip)
      case True
      with \<open>i < length str\<close> s 1 show ?thesis
        by (simp add: copy_sequences.simps [of str auth e i] kept_chars.simps [of str auth e i])
    next
      case False
      with s \<open>i < length str\<close> have k: "kept_chars str auth e i seq = str ! i # kept_chars str auth e (i + 1) seq'"
        by (simp add: kept_chars.simps [of str auth e i])
      with "1.prems" have j: "j < length ret" by simp
      have "copy_sequences str auth e i j seq ret = copy_sequences str auth e (i + 1) (j + 1) seq' (ret [j := str ! i])"
        using j s False \<open>i < length str\<close> by (simp add: copy_sequences.simps [of str auth e i] store_def)
      also have "\<dots> = Val (take (j + 1) (ret [j := str ! i]) @ kept_chars str auth e (i + 1) seq')"
        using "1.IH"(2) [OF \<open>i < length str\<close> s [symmetric] refl False, of "ret [j := str ! i]"] "1.prems" k by simp
      finally show ?thesis using j k by (simp add: take_Suc_conv_app_nth)
    qed
  next
    case False
    with "1.prems" show ?thesis by (simp add: copy_sequences.simps kept_chars.simps)
  qed
qed

lemma remove_enclosing_eq: "remove_enclosing str auth e = Val (kept_chars str auth e 0 None)"
proof -
  have "length str - count_sequences str auth e 0 None 0 = length (kept_chars str auth e 0 None)"
    using count_sequences_eq [of 0 str auth e None 0] by simp
  then show ?thesis unfolding remove_enclosing_def by (subst copy_sequences_eq) simp_all
qed


lemma kept_chars_segment:
  assumes "i \<le> k" "k \<le> length str"
    and "\<And>j. i \<le> j \<Longrightarrow> j < k \<Longrightarrow> enclose_step str auth e j seq = (seq, False)"
  shows "kept_chars str auth e i seq = take (k - i) (drop i str) @ kept_chars str auth e k seq"
  using assms
proof (induction "k - i" arbitrary: i)
  case (Suc n)
  then have i: "i < length str" "i < k" by simp_all
  then have "drop i str = str ! i # drop (i + 1) str" by (simp add: Cons_nth_drop_Suc)
  moreover have "kept_chars str auth e i seq = str ! i # kept_chars str auth e (i + 1) seq"
    using i Suc.prems(3) [of i] by (subst kept_chars.simps) simp
  moreover have "kept_chars str auth e (i + 1) seq = take (k - (i + 1)) (drop (i + 1) str) @ kept_chars str auth e k seq"
    using Suc by (intro Suc.hyps(1)) auto
  moreover have "k - i = Suc (k - (i + 1))" using i by simp
  ultimately show ?case by simp
qed simp

text \<open>\<open>remove_enclosing\<close> never writes outside its buffer, and of a text with one enclosed
  sequence it removes exactly the opening and the closing character: the text before and
  after holds no opening character, the sequence not the closing one.\<close>

lemma remove_enclosing_strips:
  assumes "str = a @ [b] @ m @ [c] @ d"
    and "is_char_enclose_start (c_int b) auth" and "c_int c = stopping_enclose_of (c_int b)"
    and "\<forall>x \<in> set (a @ d). \<not> is_char_enclose_start (c_int x) auth"
    and "c \<notin> set m" and "a = [] \<or> c_int (last a) \<noteq> escape"
  shows "remove_enclosing str auth escape = Val (a @ m @ d)"
proof -
  let ?n = "length a" and ?l = "length a + 1 + length m" and ?st = "stopping_enclose_of (c_int b)"
  have b: "str ! ?n = b" and c: "str ! ?l = c"
    and m: "\<And>j. ?n + 1 \<le> j \<Longrightarrow> j < ?l \<Longrightarrow> str ! j \<in> set m"
    and out: "\<And>j. j < ?n \<or> ?l < j \<and> j < length str \<Longrightarrow> str ! j \<in> set (a @ d)"
    by (auto simp: assms(1) nth_append nth_Cons' )
  have "\<not> is_escaped_char str ?n escape"
    using assms(6) by (auto simp: is_escaped_char_def assms(1) nth_append last_conv_nth)
  with assms(2) b have step_b: "enclose_step str auth escape ?n None = (Some ?st, True)"
    by (simp add: enclose_step_def)
  have step_c: "enclose_step str auth escape ?l (Some ?st) = (None, True)"
    using c assms(3) by (simp add: enclose_step_def)
  have step_out: "enclose_step str auth escape j None = (None, False)"
    if "j < ?n \<or> ?l < j \<and> j < length str" for j
    using out [OF that] assms(4) by (auto simp: enclose_step_def)
  have step_m: "enclose_step str auth escape j (Some ?st) = (Some ?st, False)"
    if "?n + 1 \<le> j" "j < ?l" for j
    using m [OF that] assms(3,5) by (auto simp: enclose_step_def c_int_inj simp flip: assms(3))
  have "kept_chars str auth escape 0 None = take ?n str @ kept_chars str auth escape ?n None"
    using kept_chars_segment [of 0 ?n str auth escape None] step_out by (simp add: assms(1))
  also have "kept_chars str auth escape ?n None = kept_chars str auth escape (?n + 1) (Some ?st)"
    using step_b by (subst kept_chars.simps) (simp add: assms(1))
  also have "\<dots> = take (length m) (drop (?n + 1) str) @ kept_chars str auth escape ?l (Some ?st)"
    using kept_chars_segment [of "?n + 1" ?l str auth escape "Some ?st"] step_m by (simp add: assms(1))
  also have "kept_chars str auth escape ?l (Some ?st) = kept_chars str auth escape (?l + 1) None"
    using step_c by (subst kept_chars.simps) (simp add: assms(1))
  also have "\<dots> = drop (?l + 1) str"
    using kept_chars_segment [of "?l + 1" "length str" str auth escape None] step_out
    by (simp add: assms(1) kept_chars.simps)
  finally show ?thesis by (simp add: remove_enclosing_eq assms(1))
qed

end
