(* ===== verification/Sihd_Splitter.thy ===== *)
theory Sihd_Splitter
  imports Sihd_Escapes Sihd_Str
begin

text \<open>
  util/Splitter.cpp and the two classes that are built on it: util/StrConfiguration.cpp and
  util/CmdInterpreter.cpp. A view is given by its buffer (up to the terminator) and
  its size, since the code reads the buffer through the pointer of the view. Texts are shorter than
  \<open>2 ^ 31\<close> bytes, so that an \<open>int\<close> index is a natural number.
\<close>

section \<open>The splitter\<close>

record SplitterOptions =
  opt_escape_char :: int
  opt_delimiter_char :: int
  opt_delimiter_str :: string
  opt_delimiter_method :: "(int \<Rightarrow> int) option"
  opt_open_escape_sequences :: string
  opt_empty_delimitations :: bool

definition options_none :: SplitterOptions where
  "options_none = \<lparr> opt_escape_char = escape_char, opt_delimiter_char = 0, opt_delimiter_str = [],
     opt_delimiter_method = None, opt_open_escape_sequences = [], opt_empty_delimitations = False \<rparr>"

record Splitter =
  sp_escape_char :: int
  sp_empty_delimitations :: bool
  sp_delimiter :: string
  sp_open_sequences :: string
  sp_compare_method :: "(int \<Rightarrow> int) option"

definition set_delimiter_char :: "Splitter \<Rightarrow> int \<Rightarrow> Splitter" where
  "set_delimiter_char sp delimiter = sp\<lparr> sp_delimiter := [char_of (delimiter mod 256)] \<rparr>"

definition set_delimiter :: "Splitter \<Rightarrow> string \<Rightarrow> Splitter" where
  "set_delimiter sp str = sp\<lparr> sp_delimiter := str \<rparr>"

definition set_delimiter_method :: "Splitter \<Rightarrow> (int \<Rightarrow> int) \<Rightarrow> Splitter" where
  "set_delimiter_method sp m = sp\<lparr> sp_compare_method := Some m \<rparr>"

text \<open>The address of \<open>isspace\<close>; the byte is promoted to \<open>int\<close>.\<close>

definition delimiter_spaces :: "int \<Rightarrow> int" where
  "delimiter_spaces c = (if c = 32 \<or> 9 \<le> c \<and> c \<le> 13 then 1 else 0)"

definition set_delimiter_spaces :: "Splitter \<Rightarrow> Splitter" where
  "set_delimiter_spaces sp = set_delimiter_method sp delimiter_spaces"

definition set_escape_char :: "Splitter \<Rightarrow> int \<Rightarrow> Splitter" where
  "set_escape_char sp c = sp\<lparr> sp_escape_char := c \<rparr>"

definition set_empty_delimitations :: "Splitter \<Rightarrow> bool \<Rightarrow> Splitter" where
  "set_empty_delimitations sp active = sp\<lparr> sp_empty_delimitations := active \<rparr>"

definition set_open_escape_sequences :: "Splitter \<Rightarrow> string \<Rightarrow> Splitter" where
  "set_open_escape_sequences sp str = sp\<lparr> sp_open_sequences := str \<rparr>"

definition set_escape_sequences_all :: "Splitter \<Rightarrow> Splitter" where
  "set_escape_sequences_all sp = sp\<lparr> sp_open_sequences := encloses_start \<rparr>"

fun maximum_one_true :: "bool list \<Rightarrow> bool" where
  "maximum_one_true bs \<longleftrightarrow> length (filter id bs) \<le> 1"

definition new_Splitter :: "SplitterOptions \<Rightarrow> Splitter cxx" where
  "new_Splitter opts =
     (if \<not> maximum_one_true [opt_delimiter_char opts \<noteq> 0, opt_delimiter_str opts \<noteq> [], opt_delimiter_method opts \<noteq> None]
      then Raise LogicError
      else let sp = \<lparr> sp_escape_char = 0, sp_empty_delimitations = False, sp_delimiter = [],
                      sp_open_sequences = [], sp_compare_method = None \<rparr>;
               sp = set_escape_char sp (opt_escape_char opts);
               sp = (if opt_delimiter_char opts \<noteq> 0 then set_delimiter_char sp (opt_delimiter_char opts)
                     else if opt_delimiter_str opts \<noteq> [] then set_delimiter sp (opt_delimiter_str opts)
                     else case opt_delimiter_method opts of Some m \<Rightarrow> set_delimiter_method sp m | None \<Rightarrow> sp);
               sp = set_empty_delimitations sp (opt_empty_delimitations opts) in
        Val (set_open_escape_sequences sp (opt_open_escape_sequences opts)))"

text \<open>\<open>s\<close> is what follows in the buffer; at its end stands the terminator.\<close>

definition get_delimiter_offset :: "Splitter \<Rightarrow> string \<Rightarrow> int" where
  "get_delimiter_offset sp s =
     (if (case sp_compare_method sp of None \<Rightarrow> False
          | Some m \<Rightarrow> m (case s of [] \<Rightarrow> 0 | c # _ \<Rightarrow> c_int c) \<noteq> 0) then 1
      else if strncmp_eq (length (sp_delimiter sp)) s (sp_delimiter sp) then int (length (sp_delimiter sp))
      else -1)"

text \<open>The scan over a token from \<open>i\<close>: its end, or \<open>None\<close> if an enclosed sequence never ends.\<close>

function scan_token :: "Splitter \<Rightarrow> string \<Rightarrow> nat \<Rightarrow> nat \<Rightarrow> nat option" where
  "scan_token sp s len i =
     (if i < len then
        case stopping_enclose_index (c_str s) i (Some (sp_open_sequences sp)) (sp_escape_char sp) of
          ClosedAt closed_at \<Rightarrow> scan_token sp s len closed_at
        | NeverEnds \<Rightarrow> None
        | NotEnclose \<Rightarrow>
            if get_delimiter_offset sp (drop i s) > 0 then Some i
            else scan_token sp s len (i + 1)
      else Some i)"
  by pat_completeness auto
termination
  by (relation "measure (\<lambda>(sp, s, len, i). len - i)")
    (auto dest!: stopping_enclose_index_ClosedAtD)

text \<open>Passing the delimiters in \<open>count_tokens\<close>: the index, the count and the number of delimiters.\<close>

function pass_delimiters :: "Splitter \<Rightarrow> string \<Rightarrow> nat \<Rightarrow> nat \<Rightarrow> nat \<Rightarrow> nat \<Rightarrow> nat \<times> nat \<times> nat" where
  "pass_delimiters sp s len i count delimiter_count =
     (let delimiter_offset = get_delimiter_offset sp (drop i s) in
      if i < len \<and> delimiter_offset > 0 then
        pass_delimiters sp s len (i + nat delimiter_offset)
          (if sp_empty_delimitations sp \<and> delimiter_count > 0 then count + 1 else count)
          (delimiter_count + 1)
      else (i, count, delimiter_count))"
  by pat_completeness auto
termination
  by (relation "measure (\<lambda>(sp, s, len, i, c, d). len - i)") auto

declare scan_token.simps [simp del] pass_delimiters.simps [simp del]

lemma scan_token_ge: "scan_token sp s len i = Some j \<Longrightarrow> i \<le> j"
proof (induction sp s len i rule: scan_token.induct)
  case (1 sp s len i)
  show ?case
  proof (cases "stopping_enclose_index (c_str s) i (Some (sp_open_sequences sp)) (sp_escape_char sp)")
    case NotEnclose
    with 1 show ?thesis by (fastforce simp: scan_token.simps [of sp s len i] split: if_splits)
  next
    case NeverEnds
    with 1 show ?thesis by (auto simp: scan_token.simps [of sp s len i] split: if_splits)
  next
    case (ClosedAt k)
    with 1(2) [OF _ ClosedAt] 1(3) stopping_enclose_index_ClosedAtD [OF ClosedAt] show ?thesis
      by (fastforce simp: scan_token.simps [of sp s len i] split: if_splits)
  qed
qed

lemma pass_delimiters_ge: "pass_delimiters sp s len i c d = (j, c', d') \<Longrightarrow> i \<le> j"
proof (induction sp s len i c d rule: pass_delimiters.induct)
  case (1 sp s len i c d)
  then show ?case
    by (subst (asm) pass_delimiters.simps) (force simp: Let_def split: if_splits)
qed

text \<open>One round either passes a delimiter or scans at least one byte.\<close>

lemma round_progress:
  assumes "i < len" and "pass_delimiters sp s len i c 0 = (j, c', d')" and "scan_token sp s len j = Some k"
  shows "i < k"
proof (cases "get_delimiter_offset sp (drop i s) > 0")
  case True
  with assms(1,2) have "pass_delimiters sp s len (i + nat (get_delimiter_offset sp (drop i s))) c 1 = (j, c', d')"
    by (simp add: pass_delimiters.simps [of sp s len i])
  from pass_delimiters_ge [OF this] True scan_token_ge [OF assms(3)] show ?thesis by linarith
next
  case False
  with assms(2) have j: "j = i" by (simp add: pass_delimiters.simps [of sp s len i])
  show ?thesis
  proof (cases "stopping_enclose_index (c_str s) i (Some (sp_open_sequences sp)) (sp_escape_char sp)")
    case NotEnclose
    with assms j False have "scan_token sp s len (i + 1) = Some k"
      by (simp add: scan_token.simps [of sp s len i])
    from scan_token_ge [OF this] show ?thesis by simp
  next
    case NeverEnds
    with assms j show ?thesis by (simp add: scan_token.simps [of sp s len i])
  next
    case (ClosedAt m)
    with assms j have "scan_token sp s len m = Some k"
      by (simp add: scan_token.simps [of sp s len i])
    from scan_token_ge [OF this] stopping_enclose_index_ClosedAtD [OF ClosedAt] show ?thesis by simp
  qed
qed

lemma round_progress_rev:
  "(j, c', d') = pass_delimiters sp s len i c 0 \<Longrightarrow> i < len \<Longrightarrow> scan_token sp s len j = Some k \<Longrightarrow>
    len - k < len - i"
  using round_progress [of i len sp s c j c' d' k] by simp

function count_tokens_loop :: "Splitter \<Rightarrow> string \<Rightarrow> nat \<Rightarrow> nat \<Rightarrow> nat \<Rightarrow> nat" where
  "count_tokens_loop sp s len i count =
     (if i < len then
        case pass_delimiters sp s len i count 0 of (j, count, delimiter_count) \<Rightarrow>
          let count = (if j < len \<or> (sp_empty_delimitations sp \<and> delimiter_count > 0) then count + 1 else count) in
          case scan_token sp s len j of
            None \<Rightarrow> count
          | Some k \<Rightarrow> count_tokens_loop sp s len k count
      else count)"
  by pat_completeness auto
termination
  by (relation "measure (\<lambda>(sp, s, len, i, count). len - i)") (auto intro: round_progress_rev)

declare count_tokens_loop.simps [simp del]

definition count_tokens :: "Splitter \<Rightarrow> string \<Rightarrow> nat \<Rightarrow> nat" where
  "count_tokens sp s len = count_tokens_loop sp s len 0 0"

text \<open>
  Passing the delimiters in \<open>next_token\<close> from \<open>idx\<close>: \<open>Inl\<close> is the index of an empty
  token, \<open>Inr\<close> the start of the token.
\<close>

function skip_delimiters :: "Splitter \<Rightarrow> string \<Rightarrow> nat \<Rightarrow> nat \<Rightarrow> nat \<Rightarrow> nat + nat" where
  "skip_delimiters sp s len idx x =
     (let delimiter_offset = get_delimiter_offset sp (drop x s) in
      if x < len \<and> delimiter_offset > 0 then
        if sp_empty_delimitations sp \<and> x \<noteq> idx then Inl x
        else skip_delimiters sp s len idx (x + nat delimiter_offset)
      else Inr x)"
  by pat_completeness auto
termination
  by (relation "measure (\<lambda>(sp, s, len, idx, x). len - x)") auto

declare skip_delimiters.simps [simp del]

text \<open>The token and the new index.\<close>

definition next_token :: "Splitter \<Rightarrow> string \<Rightarrow> nat \<Rightarrow> nat \<Rightarrow> string \<times> nat" where
  "next_token sp s len idx =
     (case skip_delimiters sp s len idx idx of
        Inl x \<Rightarrow> ([], x)
      | Inr x \<Rightarrow>
          let y = (case scan_token sp s len x of None \<Rightarrow> len | Some y \<Rightarrow> y) in
          (take (y - x) (drop x s), y))"

fun next_tokens :: "Splitter \<Rightarrow> string \<Rightarrow> nat \<Rightarrow> nat \<Rightarrow> nat \<Rightarrow> string list \<times> nat" where
  "next_tokens sp s len 0 j = ([], j)"
| "next_tokens sp s len (Suc tokens) j =
     (case next_token sp s len j of (t, j) \<Rightarrow>
       case next_tokens sp s len tokens j of (ts, j) \<Rightarrow> (t # ts, j))"

definition split :: "Splitter \<Rightarrow> string \<Rightarrow> nat \<Rightarrow> string list" where
  "split sp s len =
     (if sp_delimiter sp = [] \<and> sp_compare_method sp = None then [take len s]
      else fst (next_tokens sp s len (count_tokens sp s len) 0))"


section \<open>Counting and taking agree\<close>

text \<open>Nothing is left at an index: no byte, or only delimiters where they make no empty tokens.\<close>

definition exhausted :: "Splitter \<Rightarrow> string \<Rightarrow> nat \<Rightarrow> nat \<Rightarrow> bool" where
  "exhausted sp s len i \<longleftrightarrow>
     len \<le> (if sp_empty_delimitations sp then i else fst (pass_delimiters sp s len i 0 0))"

lemma pass_stop:
  "\<not> (i < len \<and> get_delimiter_offset sp (drop i s) > 0) \<Longrightarrow> pass_delimiters sp s len i c d = (i, c, d)"
  by (subst pass_delimiters.simps) (auto simp: Let_def)

lemma pass_go:
  "i < len \<Longrightarrow> get_delimiter_offset sp (drop i s) > 0 \<Longrightarrow> pass_delimiters sp s len i c d =
    pass_delimiters sp s len (i + nat (get_delimiter_offset sp (drop i s)))
      (if sp_empty_delimitations sp \<and> d > 0 then c + 1 else c) (d + 1)"
  by (subst pass_delimiters.simps) (simp add: Let_def)

text \<open>How the result of \<open>pass_delimiters\<close> depends on the counters it starts with.\<close>

lemma pass_delimiters_counters:
  "pass_delimiters sp s len i c d = (j, c', d') \<Longrightarrow>
    (\<exists>n. c' = c + n \<and> (sp_empty_delimitations sp \<or> n = 0) \<and>
      (\<forall>e. pass_delimiters sp s len i e d = (j, e + n, d')) \<and>
      (0 < d \<longrightarrow> 0 < d' \<and> (\<forall>e f. 0 < f \<longrightarrow> pass_delimiters sp s len i e f = (j, e + n, d' + f - d))))"
proof (induction sp s len i c d rule: pass_delimiters.induct)
  case (1 sp s len i c d)
  let ?o = "get_delimiter_offset sp (drop i s)"
  show ?case
  proof (cases "i < len \<and> ?o > 0")
    case True
    let ?c = "if sp_empty_delimitations sp \<and> d > 0 then c + 1 else c"
    from "1.prems" True have "pass_delimiters sp s len (i + nat ?o) ?c (d + 1) = (j, c', d')"
      by (simp add: pass_go)
    from "1.IH" [OF refl True this] obtain n where n: "c' = ?c + n" "sp_empty_delimitations sp \<or> n = 0" "0 < d'"
      "\<forall>e f. 0 < f \<longrightarrow> pass_delimiters sp s len (i + nat ?o) e f = (j, e + n, d' + f - (d + 1))"
      by auto
    let ?n = "if sp_empty_delimitations sp \<and> d > 0 then n + 1 else n"
    have "pass_delimiters sp s len i e d = (j, e + ?n, d')" for e
      using True n(4) [rule_format, of "d + 1"] by (simp add: pass_go)
    moreover have "pass_delimiters sp s len i e f = (j, e + ?n, d' + f - d)" if "0 < d" "0 < f" for e f
      using True n(4) [rule_format, of "f + 1"] that by (simp add: pass_go)
    ultimately show ?thesis using n by (intro exI [of _ ?n]) auto
  next
    case False
    with "1.prems" show ?thesis by (auto simp: pass_stop)
  qed
qed

lemma pass_delimiters_shift:
  "pass_delimiters sp s len i c d = (j, c', d') \<Longrightarrow> pass_delimiters sp s len i (c + e) d = (j, c' + e, d')"
  using pass_delimiters_counters [of sp s len i c d j c' d'] by auto

lemma pass_delimiters_index:
  assumes "pass_delimiters sp s len i c d = (j, c', d')"
  shows "fst (pass_delimiters sp s len i e f) = j"
proof (cases "i < len \<and> get_delimiter_offset sp (drop i s) > 0")
  case True
  let ?i = "i + nat (get_delimiter_offset sp (drop i s))"
  from assms True obtain c'' where "pass_delimiters sp s len ?i c'' (d + 1) = (j, c', d')" by (auto simp: pass_go)
  from pass_delimiters_counters [OF this] obtain n where
    "\<forall>e f. 0 < f \<longrightarrow> pass_delimiters sp s len ?i e f = (j, e + n, d' + f - (d + 1))" by auto
  then show ?thesis using True by (simp add: pass_go)
qed (use assms in \<open>simp add: pass_stop\<close>)

text \<open>One round of the count.\<close>

lemma count_tokens_loop_round:
  assumes "i < len" and "pass_delimiters sp s len i c 0 = (j, c', d')"
  shows "count_tokens_loop sp s len i c =
    (let c'' = (if j < len \<or> (sp_empty_delimitations sp \<and> d' > 0) then c' + 1 else c') in
     case scan_token sp s len j of None \<Rightarrow> c'' | Some k \<Rightarrow> count_tokens_loop sp s len k c'')"
  using assms by (subst count_tokens_loop.simps) simp

lemma count_tokens_loop_end: "len \<le> i \<Longrightarrow> count_tokens_loop sp s len i c = c"
  by (subst count_tokens_loop.simps) simp

lemma count_tokens_loop_shift:
  "count_tokens_loop sp s len i (c + e) = count_tokens_loop sp s len i c + e"
proof (induction sp s len i c rule: count_tokens_loop.induct)
  case (1 sp s len i c)
  obtain j c' d' where p: "pass_delimiters sp s len i c 0 = (j, c', d')" by (metis prod_cases3)
  note p' = pass_delimiters_shift [OF p, of e]
  let ?c = "if j < len \<or> (sp_empty_delimitations sp \<and> d' > 0) then c' + 1 else c'"
  have c: "(if j < len \<or> (sp_empty_delimitations sp \<and> d' > 0) then (c' + e) + 1 else c' + e) = ?c + e" by simp
  show ?case
  proof (cases "i < len")
    case True
    show ?thesis
    proof (cases "scan_token sp s len j")
      case None
      then show ?thesis
        unfolding count_tokens_loop_round [OF True p] count_tokens_loop_round [OF True p'] c Let_def by simp
    next
      case (Some k)
      from "1.IH" [OF True p [symmetric] refl refl Some] Some show ?thesis
        unfolding count_tokens_loop_round [OF True p] count_tokens_loop_round [OF True p'] c Let_def by simp
    qed
  qed (simp add: count_tokens_loop_end)
qed

lemma count_tokens_loop_exhausted:
  assumes "exhausted sp s len i" shows "count_tokens_loop sp s len i c = c"
proof (cases "i < len")
  case True
  obtain j c' d' where p: "pass_delimiters sp s len i c 0 = (j, c', d')" by (metis prod_cases3)
  from assms True have e: "\<not> sp_empty_delimitations sp" by (auto simp: exhausted_def)
  with assms pass_delimiters_index [OF p, of 0 0] have j: "len \<le> j" by (simp add: exhausted_def)
  from pass_delimiters_counters [OF p] e have "c' = c" by auto
  moreover from j have "scan_token sp s len j = Some j" by (simp add: scan_token.simps)
  ultimately show ?thesis
    unfolding count_tokens_loop_round [OF True p] using e j by (simp add: count_tokens_loop_end)
qed (simp add: count_tokens_loop_end)

text \<open>Without empty tokens \<open>next_token\<close> skips what \<open>count_tokens\<close> passes.\<close>

lemma skip_delimiters_pass:
  "\<not> sp_empty_delimitations sp \<Longrightarrow> skip_delimiters sp s len idx x = Inr (fst (pass_delimiters sp s len x 0 0))"
proof (induction sp s len idx x rule: skip_delimiters.induct)
  case (1 sp s len idx x)
  let ?o = "get_delimiter_offset sp (drop x s)"
  show ?case
  proof (cases "x < len \<and> ?o > 0")
    case True
    have "fst (pass_delimiters sp s len x 0 0) = fst (pass_delimiters sp s len (x + nat ?o) 0 1)"
      using True by (simp add: pass_go)
    also have "\<dots> = fst (pass_delimiters sp s len (x + nat ?o) 0 0)"
      by (metis pass_delimiters_index prod_cases3)
    finally show ?thesis using True 1 by (subst skip_delimiters.simps) simp
  next
    case False
    then show ?thesis by (subst skip_delimiters.simps) (auto simp: pass_stop Let_def)
  qed
qed

text \<open>With them it stops at the second delimiter.\<close>

lemma skip_delimiters_empty:
  assumes "sp_empty_delimitations sp" and "idx < len"
  shows "skip_delimiters sp s len idx idx =
    (let off = get_delimiter_offset sp (drop idx s); x = idx + nat off in
     if off > 0 then if x < len \<and> get_delimiter_offset sp (drop x s) > 0 then Inl x else Inr x
     else Inr idx)"
  using assms
  by (subst skip_delimiters.simps)
    (auto simp: Let_def skip_delimiters.simps [of sp s len idx "idx + nat (get_delimiter_offset sp (drop idx s))"])


lemma not_exhausted_less: "\<not> exhausted sp s len i \<Longrightarrow> i < len"
  by (rule ccontr) (simp add: exhausted_def pass_stop split: if_splits)

text \<open>A token taken from its start \<open>j\<close>.\<close>

lemma next_token_Inr:
  assumes "i < len" "pass_delimiters sp s len i c 0 = (j, c', d')" "skip_delimiters sp s len i i = Inr j"
    and "j < len \<or> (sp_empty_delimitations sp \<and> d' > 0)" "c' = c"
  shows "i < snd (next_token sp s len i) \<and>
    count_tokens_loop sp s len i c = count_tokens_loop sp s len (snd (next_token sp s len i)) (c + 1)"
proof (cases "scan_token sp s len j")
  case None
  then show ?thesis unfolding count_tokens_loop_round [OF assms(1,2)]
    using assms by (simp add: next_token_def Let_def count_tokens_loop_end)
next
  case (Some k)
  then show ?thesis unfolding count_tokens_loop_round [OF assms(1,2)]
    using assms round_progress [OF assms(1,2) Some] by (simp add: next_token_def Let_def)
qed

lemma next_token_step:
  assumes "\<not> exhausted sp s len i"
  shows "i < snd (next_token sp s len i) \<and>
    count_tokens_loop sp s len i c = count_tokens_loop sp s len (snd (next_token sp s len i)) (c + 1)"
proof -
  from assms have i: "i < len" by (rule not_exhausted_less)
  let ?off = "\<lambda>i. get_delimiter_offset sp (drop i s)"
  obtain j c' d' where p: "pass_delimiters sp s len i c 0 = (j, c', d')" by (metis prod_cases3)
  show ?thesis
  proof (cases "sp_empty_delimitations sp")
    case False
    then have "skip_delimiters sp s len i i = Inr j"
      using pass_delimiters_index [OF p] by (simp add: skip_delimiters_pass)
    moreover have "j < len" using assms False pass_delimiters_index [OF p, of 0 0] by (simp add: exhausted_def)
    moreover have "c' = c" using pass_delimiters_counters [OF p] False by auto
    ultimately show ?thesis by (intro next_token_Inr [OF i p]) simp_all
  next
    case e: True
    note skip = skip_delimiters_empty [OF e i, unfolded Let_def]
    let ?x = "i + nat (?off i)"
    consider "\<not> ?off i > 0" | "?off i > 0" "\<not> (?x < len \<and> ?off ?x > 0)" | "?off i > 0" "?x < len" "?off ?x > 0"
      by blast
    then show ?thesis
    proof cases
      case 1
      with p have "j = i" "c' = c" by (simp_all add: pass_stop)
      with 1 i p skip show ?thesis by (intro next_token_Inr [OF _ p]) simp_all
    next
      case 2
      with i p have "j = ?x" "c' = c" "d' = 1" by (auto simp: pass_go pass_stop)
      with 2 i p skip e show ?thesis by (intro next_token_Inr [OF _ p]) auto
    next
      case 3
      then have n: "snd (next_token sp s len i) = ?x" using skip by (simp add: next_token_def)
      from p i 3(1) e have px: "pass_delimiters sp s len ?x c 1 = (j, c', d')" by (simp add: pass_go)
      then have y: "pass_delimiters sp s len (?x + nat (?off ?x)) (c + 1) 2 = (j, c', d')"
        using 3 e by (simp add: pass_go numeral_2_eq_2)
      from pass_delimiters_counters [OF y] have d: "0 < d'" 
        and "pass_delimiters sp s len (?x + nat (?off ?x)) (c + 1) 1 = (j, c', d' - 1)"
        by auto
      then have px0: "pass_delimiters sp s len ?x (c + 1) 0 = (j, c', d' - 1)"
        using 3 e by (simp add: pass_go)
      have "0 < d' - 1" using pass_delimiters_counters [of sp s len "?x + nat (?off ?x)" "c + 1" 1] px0 3 e
        by (auto simp: pass_go)
      then show ?thesis
        unfolding n count_tokens_loop_round [OF i p] count_tokens_loop_round [OF 3(2) px0] using e d 3(1) by simp
    qed
  qed
qed

text \<open>C19. For every splitter and every text \<open>count_tokens\<close> is the number of calls of \<open>next_token\<close> after which
  nothing is left: before that many calls something is, so \<open>split\<close> neither loses a token nor
  returns one too many.\<close>

theorem count_tokens_agrees_with_next_token:
  assumes "n \<le> count_tokens sp s len"
  shows "exhausted sp s len (snd (next_tokens sp s len n 0)) \<longleftrightarrow> n = count_tokens sp s len"
proof -
  have "n \<le> count_tokens_loop sp s len i 0 \<Longrightarrow>
      exhausted sp s len (snd (next_tokens sp s len n i)) \<longleftrightarrow> n = count_tokens_loop sp s len i 0" for i n
  proof (induction n arbitrary: i)
    case 0
    show ?case
    proof (cases "exhausted sp s len i")
      case False
      from next_token_step [OF this, of 0] count_tokens_loop_shift [of sp s len _ 0 1] False show ?thesis by simp
    qed (simp add: count_tokens_loop_exhausted)
  next
    case (Suc n)
    then have "\<not> exhausted sp s len i" using count_tokens_loop_exhausted by fastforce
    from next_token_step [OF this, of 0] have
      c: "count_tokens_loop sp s len i 0 = Suc (count_tokens_loop sp s len (snd (next_token sp s len i)) 0)"
      using count_tokens_loop_shift [of sp s len _ 0 1] by simp
    have "snd (next_tokens sp s len (Suc n) i) = snd (next_tokens sp s len n (snd (next_token sp s len i)))"
      by (simp split: prod.split)
    with c Suc show ?case by simp
  qed
  from this [of n 0] assms show ?thesis by (simp add: count_tokens_def)
qed

theorem count_tokens_agrees_with_next_token_witness:
  "let sp = \<lparr> sp_escape_char = 92, sp_empty_delimitations = True, sp_delimiter = '','',
              sp_open_sequences = [], sp_compare_method = None \<rparr> in
   exhausted sp ''a,,b'' 4 (snd (next_tokens sp ''a,,b'' 4 3 0)) \<longleftrightarrow> 3 = count_tokens sp ''a,,b'' 4"
proof -
  let ?sp = "\<lparr> sp_escape_char = 92, sp_empty_delimitations = True, sp_delimiter = '','',
              sp_open_sequences = [], sp_compare_method = None \<rparr>"
  have "3 \<le> count_tokens ?sp ''a,,b'' 4" by code_simp
  from count_tokens_agrees_with_next_token [OF this] show ?thesis by simp
qed


section \<open>Joining and splitting\<close>

fun join :: "string list \<Rightarrow> string \<Rightarrow> string" where
  "join [] join_str = []"
| "join [t] join_str = t"
| "join (t # u # ts) join_str = t @ join_str @ join (u # ts) join_str"

text \<open>
  A splitter at a delimiter, and the texts in which no byte opens an enclosed sequence; \<open>strchr\<close>
  also finds a NUL byte, so these texts have none. The view that is split may be the start of a
  longer buffer.
\<close>

definition plain_splitter :: "Splitter \<Rightarrow> string \<Rightarrow> bool" where
  "plain_splitter sp d \<longleftrightarrow> sp_delimiter sp = d \<and> sp_compare_method sp = None \<and> d \<noteq> [] \<and> no_nul d"

definition plain_text :: "Splitter \<Rightarrow> string \<Rightarrow> bool" where
  "plain_text sp s \<longleftrightarrow> list_all (\<lambda>c. strchr (sp_open_sequences sp) (c_int c) = None) s"

lemma plain_offset:
  assumes "plain_splitter sp d"
  shows "get_delimiter_offset sp s = (if prefix d s then int (length d) else -1)"
  using assms strncmp_eq_prefix [of d s] by (simp add: plain_splitter_def get_delimiter_offset_def)

lemma plain_offset_pos:
  "plain_splitter sp d \<Longrightarrow> 0 < get_delimiter_offset sp s \<longleftrightarrow> prefix d s"
  unfolding plain_offset by (auto simp: plain_splitter_def)

lemma no_prefix_hd: "d \<noteq> [] \<Longrightarrow> hd d \<notin> set t \<Longrightarrow> t \<noteq> [] \<Longrightarrow> \<not> prefix d (t @ s)"
  by (cases d; cases t) auto

lemma c_int_mod: "c_int c mod 256 = int (cv c)"
proof -
  have "int (cv c) < 256" using cv_less [of c] by linarith
  moreover have "(of_char c :: int) = int (cv c)" by (simp only: of_nat_of_char)
  ultimately show ?thesis by (simp add: c_int_def mod_diff_left_eq [of _ 256, symmetric])
qed

lemma strchr_NUL: "strchr s 0 \<noteq> None"
  by (induction s) auto

lemma plain_text_no_nul: "plain_text sp s \<Longrightarrow> no_nul s"
  using strchr_NUL [of "sp_open_sequences sp"]
  by (auto simp: plain_text_def no_nul_def list_all_iff c_int_def dest!: bspec [of _ _ NUL])

lemma plain_text_no_sequences [simp]: "sp_open_sequences sp = [] \<Longrightarrow> plain_text sp s \<longleftrightarrow> no_nul s"
proof -
  assume o: "sp_open_sequences sp = []"
  have "c_int c mod 256 \<noteq> 0 \<longleftrightarrow> c \<noteq> NUL" for c
    unfolding c_int_mod using of_char_eq_iff [of c NUL, where ?'a = nat] by simp
  with o show ?thesis by (auto simp: plain_text_def no_nul_def list_all_iff)
qed

lemma c_str_append: "no_nul s \<Longrightarrow> c_str (s @ z) = s @ c_str z"
  by (induction s) (auto simp: c_str_def)

lemma plain_not_enclose:
  assumes "plain_text sp s" "i < length s"
  shows "stopping_enclose_index (c_str (s @ z)) i (Some (sp_open_sequences sp)) e = NotEnclose"
proof -
  have "strchr (sp_open_sequences sp) (c_int (s ! i)) = None"
    using assms by (simp add: plain_text_def list_all_length)
  then show ?thesis
    using assms plain_text_no_nul [OF assms(1)]
    by (simp add: stopping_enclose_index_def c_str_append nth_append Let_def)
qed

lemma scan_token_plain:
  assumes "plain_splitter sp d" "plain_text sp s" "s = q @ t @ r" "hd d \<notin> set t" "r = [] \<or> prefix d r"
  shows "scan_token sp (s @ z) (length s) (length q) = Some (length (q @ t))"
  using assms(3,4)
proof (induction t arbitrary: q)
  case Nil
  show ?case
  proof (cases "r = []")
    case True
    with Nil show ?thesis by (simp add: scan_token.simps)
  next
    case False
    then have "length q < length s" using Nil by simp
    with plain_not_enclose [OF assms(2)] Nil(1) False assms(5) plain_offset_pos [OF assms(1)] show ?thesis
      by (subst scan_token.simps) (auto simp: prefix_def)
  qed
next
  case (Cons c t)
  have "length q < length s" using Cons by simp
  with plain_not_enclose [OF assms(2)] have "stopping_enclose_index (c_str (s @ z)) (length q) (Some (sp_open_sequences sp)) (sp_escape_char sp) = NotEnclose"
    by simp
  moreover have "\<not> 0 < get_delimiter_offset sp (drop (length q) (s @ z))"
    using no_prefix_hd [of d "c # t" "r @ z"] assms(1) Cons.prems
    by (auto simp: plain_offset_pos [OF assms(1)] plain_splitter_def)
  moreover have "scan_token sp (s @ z) (length s) (length (q @ [c])) = Some (length ((q @ [c]) @ t))"
    using Cons by (intro Cons.IH) simp_all
  ultimately show ?case using \<open>length q < length s\<close> by (subst scan_token.simps) simp
qed

text \<open>The token after a delimiter, or at the start of the text.\<close>

text \<open>
  \<open>t\<close> is scanned as a token wherever it stands in \<open>s\<close> between delimiters, and does not start with one.
\<close>

definition scans_as_token :: "Splitter \<Rightarrow> string \<Rightarrow> string \<Rightarrow> string \<Rightarrow> string \<Rightarrow> bool" where
  "scans_as_token sp d s z t \<longleftrightarrow> (\<forall>q r. s = q @ t @ r \<longrightarrow> (q = [] \<or> suffix d q) \<longrightarrow> (r = [] \<or> prefix d r) \<longrightarrow>
     scan_token sp (s @ z) (length s) (length q) = Some (length (q @ t)) \<and> (t \<noteq> [] \<longrightarrow> \<not> prefix d (t @ r @ z)))"

lemma plain_scans_as_token:
  "plain_splitter sp d \<Longrightarrow> plain_text sp s \<Longrightarrow> hd d \<notin> set t \<Longrightarrow> scans_as_token sp d s z t"
  unfolding scans_as_token_def using scan_token_plain no_prefix_hd by (metis plain_splitter_def)

lemma scans_as_tokenD:
  assumes "scans_as_token sp d s z t" "s = q @ t @ r" "q = [] \<or> suffix d q" "r = [] \<or> prefix d r"
  shows "scan_token sp (s @ z) (length s) (length q) = Some (length (q @ t))" "t \<noteq> [] \<Longrightarrow> \<not> prefix d (t @ r @ z)"
  using assms unfolding scans_as_token_def by metis+

lemma next_token_scanned:
  assumes "plain_splitter sp d" "scans_as_token sp d s z t" "s = p @ sep @ t @ r" "p @ sep = [] \<or> suffix d (p @ sep)" "r = [] \<or> prefix d r"
    and "sep = d \<and> (sp_empty_delimitations sp \<or> t \<noteq> []) \<or> sep = [] \<and> t \<noteq> []"
  shows "next_token sp (s @ z) (length s) (length p) = (t, length (p @ sep @ t)) \<and> \<not> exhausted sp (s @ z) (length s) (length p)"
proof -
  note off = plain_offset [OF assms(1)]
  have d: "d \<noteq> []" using assms(1) by (simp add: plain_splitter_def)
  let ?x = "length (p @ sep)"
  have idx: "length p < length s" using assms(3,6) d by auto
  have scan: "scan_token sp (s @ z) (length s) ?x = Some (length (p @ sep @ t))"
    using scans_as_tokenD(1) [OF assms(2) _ assms(4,5)] assms(3) by simp
  have tok: "take (length (p @ sep @ t) - ?x) (drop ?x (s @ z)) = t" using assms(3) by simp
  have at_p: "get_delimiter_offset sp (drop (length p) (s @ z)) = int (length d)" if "sep = d"
    using assms(3) that by (simp add: off)
  have at_t: "\<not> (?x < length s \<and> 0 < get_delimiter_offset sp (drop ?x (s @ z)))" if "t \<noteq> [] \<or> r = []"
    using scans_as_tokenD(2) [OF assms(2) _ assms(4,5)] assms(3) that by (auto simp: off)
  have at_r: "0 < get_delimiter_offset sp (drop ?x (s @ z))" "?x < length s" if "t = []" "r \<noteq> []"
    using assms(3,5) that d by (auto simp: off prefix_def)
  have pass: "fst (pass_delimiters sp (s @ z) (length s) (length p) 0 0) = ?x" if "t \<noteq> []"
    using assms(6)
  proof
    assume "sep = d \<and> (sp_empty_delimitations sp \<or> t \<noteq> [])"
    with idx at_p at_t that d show ?thesis by (simp add: pass_go pass_stop)
  next
    assume "sep = [] \<and> t \<noteq> []"
    with at_t that show ?thesis by (simp add: pass_stop)
  qed
  show ?thesis
  proof (cases "t = [] \<and> r \<noteq> []")
    case True
    then have e: "sp_empty_delimitations sp" "sep = d" using assms(6) by auto
    have "skip_delimiters sp (s @ z) (length s) (length p) (length p) = Inl ?x"
      using idx e True at_p [OF e(2)] at_r d by (simp add: skip_delimiters_empty)
    then show ?thesis using True e idx by (simp add: next_token_def exhausted_def)
  next
    case False
    have "skip_delimiters sp (s @ z) (length s) (length p) (length p) = Inr ?x"
    proof (cases "sp_empty_delimitations sp")
      case True
      moreover have "\<not> (?x < length s \<and> 0 < get_delimiter_offset sp (drop ?x (s @ z)))"
        using at_t False by auto
      ultimately show ?thesis using idx assms(6) at_p d by (auto simp: skip_delimiters_empty Let_def)
    next
      case no: False
      then have "t \<noteq> []" using assms(6) by auto
      from pass [OF this] show ?thesis by (simp add: skip_delimiters_pass [OF no])
    qed
    then have "next_token sp (s @ z) (length s) (length p) = (t, length (p @ sep @ t))"
      unfolding next_token_def using scan tok by (simp add: Let_def)
    moreover have "\<not> exhausted sp (s @ z) (length s) (length p)"
      using idx pass assms(3,6) by (cases "t = []") (auto simp: exhausted_def)
    ultimately show ?thesis by blast
  qed
qed

lemma tokens_scanned:
  assumes "plain_splitter sp d" "ts \<noteq> []" "s = p @ sep @ join ts d"
    and "\<forall>t \<in> set ts. scans_as_token sp d s z t \<and> (sp_empty_delimitations sp \<or> t \<noteq> [])"
    and "sep = d \<or> sep = [] \<and> p = [] \<and> hd ts \<noteq> []"
  shows "fst (next_tokens sp (s @ z) (length s) (length ts) (length p)) = ts \<and>
    count_tokens_loop sp (s @ z) (length s) (length p) c = c + length ts"
  using assms(2-5)
proof (induction ts arbitrary: p sep c)
  case (Cons t ts)
  have suf: "p @ sep = [] \<or> suffix d (p @ sep)"
    using Cons.prems(4) by (auto simp: suffix_def)
  show ?case
  proof (cases ts)
    case Nil
    then have s: "s = p @ sep @ t @ []" using Cons.prems by simp
    have n: "next_token sp (s @ z) (length s) (length p) = (t, length (p @ sep @ t))"
      "\<not> exhausted sp (s @ z) (length s) (length p)"
      using next_token_scanned [OF assms(1) _ s suf] Cons.prems(3,4) by auto
    from next_token_step [OF n(2), of c] n(1) s have "count_tokens_loop sp (s @ z) (length s) (length p) c = c + 1"
      by (simp add: count_tokens_loop_end)
    with n(1) Nil show ?thesis by simp
  next
    case (Cons u us)
    then have s: "s = p @ sep @ t @ (d @ join ts d)" using Cons.prems by simp
    have n: "next_token sp (s @ z) (length s) (length p) = (t, length (p @ sep @ t))"
      "\<not> exhausted sp (s @ z) (length s) (length p)"
      using next_token_scanned [OF assms(1) _ s suf] Cons.prems(3,4) by auto
    have "fst (next_tokens sp (s @ z) (length s) (length ts) (length (p @ sep @ t))) = ts \<and>
        count_tokens_loop sp (s @ z) (length s) (length (p @ sep @ t)) (c + 1) = (c + 1) + length ts"
      using Cons Cons.prems s by (intro Cons.IH [of _ d]) auto
    with next_token_step [OF n(2), of c] n(1) show ?thesis
      by (auto simp: case_prod_unfold)
  qed
qed simp

text \<open>A view of joined tokens is split into these tokens.\<close>

lemma tokens_plain:
  assumes "plain_splitter sp d" "plain_text sp s" "ts \<noteq> []" "s = p @ sep @ join ts d"
    and "\<forall>t \<in> set ts. hd d \<notin> set t \<and> (sp_empty_delimitations sp \<or> t \<noteq> [])"
    and "sep = d \<or> sep = [] \<and> p = [] \<and> hd ts \<noteq> []"
  shows "fst (next_tokens sp s (length s) (length ts) (length p)) = ts \<and>
    count_tokens_loop sp s (length s) (length p) c = c + length ts"
  using tokens_scanned [OF assms(1,3,4) _ assms(6), of "[]" c] plain_scans_as_token [OF assms(1,2)] assms(5) by auto

lemma split_scanned:
  assumes "plain_splitter sp d" "ts \<noteq> []" "hd ts \<noteq> []"
    and "\<forall>t \<in> set ts. scans_as_token sp d (join ts d) z t \<and> (sp_empty_delimitations sp \<or> t \<noteq> [])"
  shows "split sp (join ts d @ z) (length (join ts d)) = ts"
  using tokens_scanned [OF assms(1,2), of _ "[]" "[]" z 0] assms
  by (simp add: split_def plain_splitter_def count_tokens_def)

lemma split_plain:
  assumes "plain_splitter sp d" "plain_text sp (join ts d)" "ts \<noteq> []" "hd ts \<noteq> []"
    and "\<forall>t \<in> set ts. hd d \<notin> set t \<and> (sp_empty_delimitations sp \<or> t \<noteq> [])"
  shows "split sp (join ts d @ z) (length (join ts d)) = ts"
  using split_scanned [OF assms(1,3,4)] plain_scans_as_token [OF assms(1,2)] assms(5) by auto

lemma split_Nil: "sp_delimiter sp \<noteq> [] \<Longrightarrow> split sp z 0 = []"
  by (simp add: split_def count_tokens_def count_tokens_loop_end)

lemma no_nul_join: "no_nul sep \<Longrightarrow> \<forall>t \<in> set ts. no_nul t \<Longrightarrow> no_nul (join ts sep)"
  by (induction ts sep rule: join.induct) auto

lemma set_joinD: "c \<in> set (join ts d) \<Longrightarrow> c \<in> set d \<or> (\<exists>t \<in> set ts. c \<in> set t)"
  by (induction ts d rule: join.induct) auto

text \<open>A default-constructed splitter with \<open>set_delimiter\<close>.\<close>

definition str_split :: "string \<Rightarrow> nat \<Rightarrow> string \<Rightarrow> string list" where
  "str_split str len delimiter =
     split (set_delimiter \<lparr> sp_escape_char = escape_char, sp_empty_delimitations = False, sp_delimiter = [],
       sp_open_sequences = [], sp_compare_method = None \<rparr> delimiter) str len"

lemma str_split_join:
  assumes "ts \<noteq> []" "d \<noteq> []" "no_nul d" "\<forall>t \<in> set ts. t \<noteq> [] \<and> no_nul t \<and> hd d \<notin> set t"
  shows "str_split (join ts d @ z) (length (join ts d)) d = ts"
proof -
  have "no_nul (join ts d)" using assms by (intro no_nul_join) auto
  with assms show ?thesis unfolding str_split_def
    by (intro split_plain) (auto simp: plain_splitter_def set_delimiter_def)
qed

lemma str_split_Nil: "d \<noteq> [] \<Longrightarrow> str_split z 0 d = []"
  by (simp add: str_split_def split_Nil set_delimiter_def)

text \<open>A list of tokens that is joined by a delimiter is split back into exactly these tokens, when the first
  byte of the delimiter is in none of them and no byte opens an enclosed sequence. Without empty
  delimitations no token may be empty; with them only the first may not.\<close>

lemma split_join_roundtrip:
  assumes "plain_splitter sp d" and "plain_text sp (join ts d)" and "ts \<noteq> []" and "hd ts \<noteq> []"
    and "\<forall>t \<in> set ts. hd d \<notin> set t \<and> (sp_empty_delimitations sp \<or> t \<noteq> [])"
  shows "split sp (join ts d) (length (join ts d)) = ts"
  using split_plain [OF assms, of "[]"] by simp

lemma split_join_roundtrip_example:
  "let sp = \<lparr> sp_escape_char = 92, sp_empty_delimitations = True, sp_delimiter = '', '',
              sp_open_sequences = [], sp_compare_method = None \<rparr>; ts = [''a'', [], ''b c''] in
   split sp (join ts '', '') (length (join ts '', '')) = ts"
  unfolding Let_def
  by (rule split_join_roundtrip) (simp_all add: plain_splitter_def no_nul_def)

text \<open>A leading empty token is lost even with empty delimitations.\<close>

lemma split_drops_leading_empty_token:
  "split \<lparr> sp_escape_char = 92, sp_empty_delimitations = True, sp_delimiter = '','',
           sp_open_sequences = [], sp_compare_method = None \<rparr> '',a'' 2 = [''a'']"
  by code_simp


section \<open>Splitting at one byte\<close>

text \<open>The nonempty pieces between the bytes \<open>c\<close>: what a path, for one, is made of.\<close>

fun comps :: "char \<Rightarrow> string \<Rightarrow> string list" where
  "comps c [] = []"
| "comps c (x # s) =
     (if x = c then comps c s
      else if s = [] \<or> hd s = c then [x] # comps c s
      else (x # hd (comps c s)) # tl (comps c s))"

lemma comps_nonempty: "s \<noteq> [] \<Longrightarrow> hd s \<noteq> c \<Longrightarrow> comps c s \<noteq> []"
  by (cases s) auto

lemma comps_append_sep: "comps c (s @ c # r) = comps c s @ comps c r"
proof (induction s)
  case (Cons x s)
  show ?case
  proof (cases "s = []")
    case False
    then have "hd (s @ c # r) = hd s" by simp
    then show ?thesis using Cons False comps_nonempty [of s c] by simp
  qed simp
qed simp

lemma comps_token: "c \<notin> set t \<Longrightarrow> t \<noteq> [] \<Longrightarrow> r = [] \<or> hd r = c \<Longrightarrow> comps c (t @ r) = t # comps c r"
proof (induction t)
  case (Cons x t)
  then show ?case by (cases t) auto
qed simp

lemma comps_join: "\<forall>t \<in> set ts. t \<noteq> [] \<and> c \<notin> set t \<Longrightarrow> comps c (join ts [c]) = ts"
proof (induction ts "[c]" rule: join.induct)
  case (2 t)
  then show ?case using comps_token [of c t "[]"] by simp
next
  case (3 t u ts)
  then show ?case using comps_token [of c t "[c] @ join (u # ts) [c]"] by simp
qed simp

lemma comps_pieces: "t \<in> set (comps c s) \<Longrightarrow> t \<noteq> [] \<and> c \<notin> set t \<and> set t \<subseteq> set s"
proof (induction s arbitrary: t)
  case (Cons x s)
  show ?case
  proof (cases "x = c \<or> s = [] \<or> hd s = c")
    case True
    with Cons show ?thesis by (fastforce split: if_splits)
  next
    case False
    then have "t = x # hd (comps c s) \<or> t \<in> set (tl (comps c s))" using Cons.prems by auto
    moreover have "hd (comps c s) \<in> set (comps c s)" "set (tl (comps c s)) \<subseteq> set (comps c s)"
      using False comps_nonempty [of s c] by (auto intro: list.set_sel)
    ultimately show ?thesis using Cons.IH False by fastforce
  qed
qed simp

lemma comps_all_sep: "(\<forall>x \<in> set s. x = c) \<Longrightarrow> comps c s = []"
  by (induction s) auto

text \<open>A splitter at one byte that makes no empty tokens takes exactly these pieces.\<close>

lemma pass_char:
  assumes "plain_splitter sp [c]" "s = p @ w @ r" "\<forall>x \<in> set w. x = c" "r = [] \<or> hd r \<noteq> c"
  shows "fst (pass_delimiters sp s (length s) (length p) n m) = length (p @ w)"
  using assms(2,3)
proof (induction w arbitrary: p n m)
  case Nil
  have "\<not> (length p < length s \<and> 0 < get_delimiter_offset sp (drop (length p) s))"
    using Nil(1) assms(4) by (cases r) (auto simp: plain_offset [OF assms(1)])
  then show ?case by (simp add: pass_stop)
next
  case (Cons x w)
  then have "length p < length s" "get_delimiter_offset sp (drop (length p) s) = 1"
    by (simp_all add: plain_offset [OF assms(1)])
  moreover have "fst (pass_delimiters sp s (length s) (length (p @ [c])) n' m') = length (p @ x # w)" for n' m'
    using Cons.IH [of "p @ [c]" n' m'] Cons.prems by simp
  ultimately show ?case by (simp add: pass_go)
qed

lemma tokens_char:
  assumes "plain_splitter sp [c]" "\<not> sp_empty_delimitations sp" "plain_text sp s" "s = p @ u"
  shows "fst (next_tokens sp s (length s) (length (comps c u)) (length p)) = comps c u \<and>
    count_tokens_loop sp s (length s) (length p) n = n + length (comps c u)"
  using assms(4)
proof (induction "length u" arbitrary: u p n rule: less_induct)
  case less
  define w v where "w = takeWhile (\<lambda>x. x = c) u" and "v = dropWhile (\<lambda>x. x = c) u"
  define t r where "t = takeWhile (\<lambda>x. x \<noteq> c) v" and "r = dropWhile (\<lambda>x. x \<noteq> c) v"
  have u: "u = w @ t @ r" "v = t @ r" by (simp_all add: w_def v_def t_def r_def)
  have w: "\<forall>x \<in> set w. x = c" by (auto simp: w_def dest: set_takeWhileD)
  have r: "r = [] \<or> hd r = c" using hd_dropWhile [of "\<lambda>x. x \<noteq> c" v] by (auto simp: r_def)
  have v: "v = [] \<or> hd v \<noteq> c" using hd_dropWhile [of "\<lambda>x. x = c" u] by (auto simp: v_def)
  have cu: "comps c u = comps c v" unfolding u(1) u(2) [symmetric] using w by (induction w) auto
  have pass: "fst (pass_delimiters sp s (length s) (length p) 0 0) = length (p @ w)"
    using pass_char [OF assms(1), of s p w v] less.prems u w v by simp
  show ?case
  proof (cases "v = []")
    case True
    obtain j c' d' where pd: "pass_delimiters sp s (length s) (length p) n 0 = (j, c', d')" by (metis prod_cases3)
    have len: "length (p @ w) = length s" using less.prems u True by simp
    then have "exhausted sp s (length s) (length p)" using pass assms(2) by (simp add: exhausted_def)
    then show ?thesis using count_tokens_loop_exhausted True cu by simp
  next
    case False
    then have t: "t \<noteq> []" "c \<notin> set t" using v by (cases v; auto simp: t_def dest: set_takeWhileD)+
    have "skip_delimiters sp s (length s) (length p) (length p) = Inr (length (p @ w))"
      using skip_delimiters_pass [OF assms(2)] pass by simp
    moreover have "scan_token sp (s @ []) (length s) (length (p @ w)) = Some (length ((p @ w) @ t))"
      using less.prems u t r by (intro scan_token_plain [OF assms(1,3), where r = r]) (cases r; auto)+
    ultimately have nt: "next_token sp s (length s) (length p) = (t, length (p @ w @ t))"
      using less.prems u by (simp add: next_token_def)
    have "\<not> exhausted sp s (length s) (length p)"
      using pass assms(2) less.prems u t by (simp add: exhausted_def)
    from next_token_step [OF this, of n] nt
    have step: "count_tokens_loop sp s (length s) (length p) n = count_tokens_loop sp s (length s) (length (p @ w @ t)) (n + 1)"
      by simp
    have c: "comps c u = t # comps c r" using cu comps_token [of c t r] t r u(2) by simp
    have "fst (next_tokens sp s (length s) (length (comps c r)) (length (p @ w @ t))) = comps c r \<and>
        count_tokens_loop sp s (length s) (length (p @ w @ t)) (n + 1) = n + 1 + length (comps c r)"
      using less.prems u t by (intro less.hyps) auto
    then show ?thesis using nt step c by (auto simp: case_prod_unfold)
  qed
qed

lemma split_char:
  assumes "plain_splitter sp [c]" "\<not> sp_empty_delimitations sp" "plain_text sp s"
  shows "split sp s (length s) = comps c s"
  using tokens_char [OF assms, of "[]" s 0] assms(1)
  by (simp add: split_def plain_splitter_def count_tokens_def)

lemma str_split_char: "c \<noteq> NUL \<Longrightarrow> no_nul s \<Longrightarrow> str_split s (length s) [c] = comps c s"
  unfolding str_split_def by (intro split_char) (auto simp: plain_splitter_def set_delimiter_def)


section \<open>Configurations\<close>

text \<open>
  The \<open>unordered_map\<close> of StrConfiguration is a map; \<open>emplace\<close> keeps the value that is
  there. \<open>Splitter(";")\<close> has the default options.
\<close>

type_synonym StrConfiguration = "string \<rightharpoonup> string"

definition semicolon_splitter :: Splitter where
  "semicolon_splitter = \<lparr> sp_escape_char = escape_char, sp_empty_delimitations = False,
     sp_delimiter = '';'', sp_open_sequences = [], sp_compare_method = None \<rparr>"

definition emplace :: "('k \<rightharpoonup> 'v) \<Rightarrow> 'k \<Rightarrow> 'v \<Rightarrow> ('k \<rightharpoonup> 'v)" where
  "emplace m k v = (if m k = None then m(k \<mapsto> v) else m)"

fun parse_pairs :: "string list \<Rightarrow> StrConfiguration \<Rightarrow> StrConfiguration cxx" where
  "parse_pairs [] conf = Val conf"
| "parse_pairs (c # cs) conf =
     cxx_bind (split_pair c ''='') (\<lambda>(key, v).
       parse_pairs cs (if key \<noteq> [] then emplace conf key v else conf))"

definition parse_configuration :: "string \<Rightarrow> StrConfiguration cxx" where
  "parse_configuration conf =
     (if conf = [] then Val Map.empty
      else parse_pairs (split semicolon_splitter conf (length conf)) Map.empty)"

definition conf_find :: "StrConfiguration \<Rightarrow> string \<Rightarrow> string option" where
  "conf_find conf key = conf key"

definition conf_has :: "StrConfiguration \<Rightarrow> string \<Rightarrow> bool" where
  "conf_has conf key \<longleftrightarrow> conf key \<noteq> None"

definition conf_at :: "StrConfiguration \<Rightarrow> string \<Rightarrow> string" where
  "conf_at conf key = (case conf_find conf key of None \<Rightarrow> [] | Some v \<Rightarrow> v)"

definition conf_get :: "StrConfiguration \<Rightarrow> string \<Rightarrow> string cxx" where
  "conf_get conf key = (case conf key of None \<Rightarrow> Raise OutOfRange | Some v \<Rightarrow> Val v)"

definition conf_find_all :: "StrConfiguration \<Rightarrow> string list \<Rightarrow> string option list" where
  "conf_find_all conf args = map (conf_find conf) args"

text \<open>The order in which \<open>unordered_map\<close> is iterated is not specified: the entries are an argument.\<close>

fun conf_str_loop :: "(string \<times> string) list \<Rightarrow> bool \<Rightarrow> string \<Rightarrow> string" where
  "conf_str_loop [] first ret = ret"
| "conf_str_loop ((key, v) # kvs) first ret =
     conf_str_loop kvs False (ret @ (if first then [] else '';'') @ key @ ''='' @ v)"

definition conf_str :: "(string \<times> string) list \<Rightarrow> string" where
  "conf_str entries = conf_str_loop entries True []"

lemma conf_str_loop_join:
  "conf_str_loop kvs first ret = ret @ (if first \<or> kvs = [] then [] else '';'') @ join (map (\<lambda>(k, v). k @ ''='' @ v) kvs) '';''"
proof (induction kvs first ret rule: conf_str_loop.induct)
  case (2 key v kvs first ret)
  then show ?case by (cases kvs) auto
qed simp

lemma conf_str_eq: "conf_str kvs = join (map (\<lambda>(k, v). k @ ''='' @ v) kvs) '';''"
  by (simp add: conf_str_def conf_str_loop_join)

definition plain_entry :: "string \<times> string \<Rightarrow> bool" where
  "plain_entry e \<longleftrightarrow> fst e \<noteq> [] \<and> CHR ''='' \<notin> set (fst e) \<and>
     no_nul (fst e @ snd e) \<and> CHR '';'' \<notin> set (fst e @ snd e)"

lemma parse_pairs_entries:
  "\<forall>e \<in> set kvs. plain_entry e \<Longrightarrow> distinct (map fst kvs) \<Longrightarrow> dom m \<inter> fst ` set kvs = {} \<Longrightarrow>
    parse_pairs (map (\<lambda>(k, v). k @ ''='' @ v) kvs) m = Val (m ++ map_of kvs)"
proof (induction kvs arbitrary: m)
  case (Cons e kvs)
  obtain k v where e: "e = (k, v)" by (cases e)
  with Cons.prems(1) have "split_pair (k @ ''='' @ v) ''='' = Val (k, v)" and k: "k \<noteq> []"
    by (auto simp: plain_entry_def split_pair_entry)
  moreover have "m k = None" using Cons.prems(3) e by auto
  moreover have "parse_pairs (map (\<lambda>(k, v). k @ ''='' @ v) kvs) (m(k \<mapsto> v)) = Val (m(k \<mapsto> v) ++ map_of kvs)"
  proof (rule Cons.IH)
    have "k \<notin> fst ` set kvs" using Cons.prems(2) e by simp
    then show "dom (m(k \<mapsto> v)) \<inter> fst ` set kvs = {}" using Cons.prems(3) by auto
  qed (use Cons.prems in auto)
  moreover have "m(k \<mapsto> v) ++ map_of kvs = m ++ map_of (e # kvs)"
    using Cons.prems(2) e by (simp add: map_add_upd_left dom_map_of_conv_image_fst)
  ultimately show ?case using e k by (simp add: emplace_def del: map_of.simps)
qed simp

text \<open>C21. The text of a configuration, in whatever order its entries come, is parsed back to the same
  configuration, when no key is empty or contains an equals sign and neither keys nor values
  contain a semicolon.\<close>

theorem configuration_roundtrip:
  assumes "\<forall>e \<in> set kvs. plain_entry e" and "distinct (map fst kvs)"
  shows "parse_configuration (conf_str kvs) = Val (map_of kvs)"
proof (cases "kvs = []")
  case True
  then show ?thesis by (simp add: conf_str_eq parse_configuration_def)
next
  case False
  let ?ts = "map (\<lambda>(k, v). k @ ''='' @ v) kvs"
  have ts: "\<forall>t \<in> set ?ts. CHR '';'' \<notin> set t \<and> t \<noteq> [] \<and> no_nul t"
    using assms(1) by (auto simp: plain_entry_def)
  have "split semicolon_splitter (join ?ts '';'') (length (join ?ts '';'')) = ?ts"
  proof -
    have "plain_splitter semicolon_splitter '';''"
      by (simp add: plain_splitter_def semicolon_splitter_def)
    then show ?thesis
      using split_plain [of semicolon_splitter "'';''" ?ts "[]"] ts False
      by (simp add: no_nul_join semicolon_splitter_def hd_map)
  qed
  moreover have "join ?ts '';'' \<noteq> []" using ts False by (cases ?ts; cases "tl ?ts") auto
  ultimately show ?thesis
    using parse_pairs_entries [OF assms, of Map.empty] by (simp add: conf_str_eq parse_configuration_def)
qed

theorem configuration_roundtrip_witness:
  "parse_configuration (conf_str [(''host'', ''a=b''), (''port'', ''80'')])
    = Val (map_of [(''host'', ''a=b''), (''port'', ''80'')])"
  by (rule configuration_roundtrip) (simp_all add: plain_entry_def)


section \<open>The command interpreter\<close>

text \<open>
  Commands change a state of type \<open>'st\<close>; an empty \<open>std::function\<close> is \<open>None\<close>.
  The copy of the arguments that a command receives is the list itself.
\<close>

type_synonym 'st CmdFun = "(string list \<Rightarrow> 'st \<Rightarrow> 'st) option"

record 'st CmdInterpreter =
  cmd_map :: "string \<rightharpoonup> 'st CmdFun"
  ci_splitter :: Splitter
  ci_history :: "string list"
  max_history :: nat

definition new_CmdInterpreter :: "(string \<rightharpoonup> 'st CmdFun) \<Rightarrow> Splitter \<Rightarrow> 'st CmdInterpreter" where
  "new_CmdInterpreter m sp = \<lparr> cmd_map = m, ci_splitter = sp, ci_history = [], max_history = 0 \<rparr>"

definition set_cmd :: "'st CmdInterpreter \<Rightarrow> string \<Rightarrow> 'st CmdFun \<Rightarrow> 'st CmdInterpreter" where
  "set_cmd ci cmd f = ci\<lparr> cmd_map := emplace (cmd_map ci) cmd f \<rparr>"

text \<open>\<open>while (_history.size() > max) _history.pop_front();\<close>\<close>

fun pop_while :: "nat \<Rightarrow> 'a list \<Rightarrow> 'a list" where
  "pop_while mx [] = []"
| "pop_while mx (h # hs) = (if length (h # hs) > mx then pop_while mx hs else h # hs)"

definition set_max_history :: "'st CmdInterpreter \<Rightarrow> nat \<Rightarrow> 'st CmdInterpreter" where
  "set_max_history ci mx = ci\<lparr> max_history := mx, ci_history := pop_while mx (ci_history ci) \<rparr>"

definition set_splitter :: "'st CmdInterpreter \<Rightarrow> Splitter \<Rightarrow> 'st CmdInterpreter" where
  "set_splitter ci sp = ci\<lparr> ci_splitter := sp \<rparr>"

definition add_history :: "'st CmdInterpreter \<Rightarrow> string \<Rightarrow> 'st CmdInterpreter" where
  "add_history ci line =
     (if max_history ci = 0 then ci
      else let hs = ci_history ci;
               hs = (if length hs + 1 > max_history ci then tl hs else hs) in
        ci\<lparr> ci_history := hs @ [line] \<rparr>)"

definition dump_history :: "'st CmdInterpreter \<Rightarrow> string list" where
  "dump_history ci = ci_history ci"

fun load_history :: "'st CmdInterpreter \<Rightarrow> string list \<Rightarrow> 'st CmdInterpreter" where
  "load_history ci [] = ci"
| "load_history ci (l # ls) = load_history (add_history ci l) ls"

text \<open>\<open>handle(cmd, args)\<close>.\<close>

definition handle_cmd :: "'st CmdInterpreter \<Rightarrow> string \<Rightarrow> string list \<Rightarrow> 'st \<Rightarrow> bool \<times> 'st" where
  "handle_cmd ci cmd args st =
     (case (case cmd_map ci cmd of Some f \<Rightarrow> f | None \<Rightarrow> None) of
        Some f \<Rightarrow> (True, f args st)
      | None \<Rightarrow> (False, st))"

text \<open>\<open>handle(line)\<close>: the line without a newline at its end is split, but the buffer keeps the newline.\<close>

definition handle_line :: "'st CmdInterpreter \<Rightarrow> string \<Rightarrow> 'st \<Rightarrow> bool \<times> 'st CmdInterpreter \<times> 'st" where
  "handle_line ci line st =
     (if line = [] then (False, ci, st)
      else let len = (if last line = CHR 0x0A then length line - 1 else length line) in
        case split (ci_splitter ci) line len of
          [] \<Rightarrow> (False, ci, st)
        | cmd # args \<Rightarrow>
            (case handle_cmd ci cmd args st of
              (success, st) \<Rightarrow> (success, if success then add_history ci (take len line) else ci, st)))"

fun handle_lines :: "'st CmdInterpreter \<Rightarrow> string list \<Rightarrow> 'st \<Rightarrow> bool list \<times> 'st CmdInterpreter \<times> 'st" where
  "handle_lines ci [] st = ([], ci, st)"
| "handle_lines ci (l # ls) st =
     (case handle_line ci l st of (ok, ci, st) \<Rightarrow>
       case handle_lines ci ls st of (oks, ci, st) \<Rightarrow> (ok # oks, ci, st))"

definition strip_newline :: "string \<Rightarrow> string" where
  "strip_newline line = (if line \<noteq> [] \<and> last line = CHR 0x0A then butlast line else line)"

fun succeeded :: "string list \<Rightarrow> bool list \<Rightarrow> string list" where
  "succeeded (l # ls) (ok # oks) = (if ok then [strip_newline l] else []) @ succeeded ls oks"
| "succeeded _ _ = []"

definition last_n :: "nat \<Rightarrow> 'a list \<Rightarrow> 'a list" where
  "last_n n xs = drop (length xs - n) xs"

lemma last_n_snoc: "last_n n (last_n n xs @ [x]) = last_n n (xs @ [x])"
  by (cases "n \<le> length xs") (auto simp: last_n_def Suc_diff_le)

lemma pop_while_eq: "pop_while mx xs = last_n mx xs"
  by (induction xs) (auto simp: last_n_def Suc_diff_le)

lemma set_max_history_bound: "length (ci_history (set_max_history ci mx)) \<le> mx"
  by (simp add: set_max_history_def pop_while_eq last_n_def)

lemma add_history_eq:
  "length (ci_history ci) \<le> max_history ci \<Longrightarrow>
    add_history ci l = ci\<lparr> ci_history := last_n (max_history ci) (ci_history ci @ [l]) \<rparr>"
  by (auto simp: add_history_def last_n_def Let_def drop_Suc tl_drop Suc_diff_le drop_Cons')

lemma handle_line_history:
  "handle_line ci l st = (ok, ci', st') \<Longrightarrow> length (ci_history ci) \<le> max_history ci \<Longrightarrow>
    ci' = ci\<lparr> ci_history := last_n (max_history ci) (ci_history ci @ (if ok then [strip_newline l] else [])) \<rparr>"
proof -
  assume h: "handle_line ci l st = (ok, ci', st')" and b: "length (ci_history ci) \<le> max_history ci"
  have none: "last_n (max_history ci) (ci_history ci) = ci_history ci" using b by (simp add: last_n_def)
  show ?thesis
  proof (cases "l = []")
    case True
    with h none show ?thesis by (auto simp: handle_line_def)
  next
    case False
    let ?len = "if last l = CHR 0x0A then length l - 1 else length l"
    have strip: "take ?len l = strip_newline l" using False by (simp add: strip_newline_def butlast_conv_take)
    show ?thesis
    proof (cases "split (ci_splitter ci) l ?len")
      case Nil
      with False h none show ?thesis by (auto simp: handle_line_def Let_def)
    next
      case (Cons cmd args)
      obtain ok1 st1 where "handle_cmd ci cmd args st = (ok1, st1)" by fastforce
      with False h Cons none strip show ?thesis
        by (auto simp: handle_line_def Let_def add_history_eq [OF b])
    qed
  qed
qed

text \<open>The history of an interpreter never holds more than its maximum: after any lines it is the
  last of those lines, without their newline, that ran a command.\<close>

lemma history_is_last_successful_lines:
  assumes "length (ci_history ci) \<le> max_history ci" and "handle_lines ci ls st = (oks, ci', st')"
  shows "ci_history ci' = last_n (max_history ci)
      (ci_history ci @ succeeded ls oks) \<and>
    length (ci_history ci') \<le> max_history ci'"
  using assms
proof (induction ls arbitrary: ci st oks)
  case Nil
  then show ?case by (simp add: last_n_def)
next
  case (Cons l ls)
  obtain ok ci1 st1 where h: "handle_line ci l st = (ok, ci1, st1)" by (metis prod_cases3)
  obtain oks1 where hs: "handle_lines ci1 ls st1 = (oks1, ci', st')" and oks: "oks = ok # oks1"
    using Cons.prems(2) h by (auto split: prod.splits)
  note ci1 = handle_line_history [OF h Cons.prems(1)]
  have "length (ci_history ci1) \<le> max_history ci1" unfolding ci1 by (simp add: last_n_def)
  note IH = Cons.IH [OF this hs]
  have "ci_history ci' = last_n (max_history ci)
      (last_n (max_history ci) (ci_history ci @ (if ok then [strip_newline l] else [])) @
       succeeded ls oks1)"
    using IH unfolding ci1 by simp
  moreover have "length (ci_history ci') \<le> max_history ci'" using IH by blast
  moreover have "last_n n (last_n n xs @ ys) = last_n n (xs @ ys)" for n and xs ys :: "string list"
    by (cases "n \<le> length xs") (auto simp: last_n_def add.commute)
  ultimately show ?case by (simp add: oks)
qed

end
