(* ===== verification/Sihd_Distance.thy ===== *)
theory Sihd_Distance
  imports Sihd_Str "HOL-Library.Multiset" "HOL-Library.List_Lexorder" "HOL-Library.Product_Lexorder"
begin

text \<open>
  The weighted edit distance of util/str.cpp and the search that ranks words by it. The code
  keeps one row of the usual table and overwrites it in place; it is shown to be the least
  cost of an edit script. Sizes are far below \<open>2 ^ 60\<close>, so that no sum of costs wraps.
\<close>

section \<open>The code\<close>

definition same_char :: "bool \<Rightarrow> char \<Rightarrow> char \<Rightarrow> bool" where
  "same_char ci sc tc =
     (let sc = (if ci then c_tolower sc else sc); tc = (if ci then c_tolower tc else tc) in sc = tc)"

text \<open>\<open>lev_dist[i] = lev_dist[i - 1] + delete_cost\<close> for \<open>i\<close> from 1 to \<open>n\<close>.\<close>

definition lev_first_row :: "nat \<Rightarrow> nat \<Rightarrow> nat list" where
  "lev_first_row n delete_cost =
     foldl (\<lambda>lev i. lev [i := lev ! (i - 1) + delete_cost]) ((replicate (n + 1) 0) [0 := 0]) [1..<n + 1]"

text \<open>The inner loop over \<open>i\<close>, with \<open>previous_diagonal\<close>.\<close>

function lev_inner :: "string \<Rightarrow> char \<Rightarrow> nat \<Rightarrow> nat \<Rightarrow> nat \<Rightarrow> bool \<Rightarrow> nat \<Rightarrow> nat \<Rightarrow> nat list \<Rightarrow> nat list" where
  "lev_inner source tc ins del rep ci i previous_diagonal lev =
     (if i \<le> length source then
        let previous_diagonal_save = lev ! i;
            lev = lev [i := (if same_char ci (source ! (i - 1)) tc then previous_diagonal
                             else min (min (lev ! (i - 1) + del) (lev ! i + ins)) (previous_diagonal + rep))] in
        lev_inner source tc ins del rep ci (i + 1) previous_diagonal_save lev
      else lev)"
  by pat_completeness auto
termination
  by (relation "measure (\<lambda>(source, tc, ins, del, rep, ci, i, d, lev). Suc (length source) - i)") auto

declare lev_inner.simps [simp del]

definition lev_step :: "string \<Rightarrow> nat \<Rightarrow> nat \<Rightarrow> nat \<Rightarrow> bool \<Rightarrow> nat list \<Rightarrow> char \<Rightarrow> nat list" where
  "lev_step source ins del rep ci lev tc =
     (let previous_diagonal = lev ! 0;
          lev = lev [0 := lev ! 0 + ins] in
      lev_inner source tc ins del rep ci 1 previous_diagonal lev)"

text \<open>The outer loop takes the bytes of the target in order.\<close>

function levenshtein_distance :: "string \<Rightarrow> string \<Rightarrow> nat \<Rightarrow> nat \<Rightarrow> nat \<Rightarrow> bool \<Rightarrow> nat" where
  "levenshtein_distance source target ins del rep ci =
     (if length source > length target then levenshtein_distance target source del ins rep ci
      else foldl (lev_step source ins del rep ci) (lev_first_row (length source) del) target ! length source)"
  by pat_completeness auto
termination
  by (relation "measure (\<lambda>(s, t, _). length s - length t)") auto

declare levenshtein_distance.simps [simp del]

record SearchResult =
  distance :: nat
  word :: string

text \<open>\<open>stable_sort\<close> by distance, then by word; \<open>std::string\<close> compares unsigned bytes.\<close>

definition str_search :: "string list \<Rightarrow> string \<Rightarrow> SearchResult list" where
  "str_search words selection =
     sort_key (\<lambda>r. (distance r, word r))
       (map (\<lambda>w. \<lparr> distance = levenshtein_distance w selection 3 4 2 True, word = w \<rparr>) words)"

section \<open>Edit scripts\<close>

text \<open>\<open>edits s t c\<close>: a script of deletions, insertions, replacements and free matches that
  turns \<open>s\<close> into \<open>t\<close> costs \<open>c\<close>. Texts grow at their end.\<close>

inductive edits :: "nat \<Rightarrow> nat \<Rightarrow> nat \<Rightarrow> bool \<Rightarrow> string \<Rightarrow> string \<Rightarrow> nat \<Rightarrow> bool"
  for ins del rep :: nat and ci :: bool where
  edits_nil: "edits ins del rep ci [] [] 0"
| edits_delete: "edits ins del rep ci s t c \<Longrightarrow> edits ins del rep ci (s @ [x]) t (c + del)"
| edits_insert: "edits ins del rep ci s t c \<Longrightarrow> edits ins del rep ci s (t @ [y]) (c + ins)"
| edits_replace: "edits ins del rep ci s t c \<Longrightarrow> edits ins del rep ci (s @ [x]) (t @ [y]) (c + rep)"
| edits_match: "edits ins del rep ci s t c \<Longrightarrow> same_char ci x y \<Longrightarrow> edits ins del rep ci (s @ [x]) (t @ [y]) c"

lemma same_char_sym: "same_char ci x y \<longleftrightarrow> same_char ci y x"
  by (auto simp: same_char_def)

lemma edits_swap: "edits ins del rep ci s t c \<Longrightarrow> edits del ins rep ci t s c"
  by (induction rule: edits.induct) (auto intro: edits.intros simp: same_char_sym)

text \<open>A byte of the target can be had back for a deletion, and one of the source for an insertion.\<close>

lemma edits_drop_target:
  "edits ins del rep ci s t' c \<Longrightarrow> t' = t @ [y] \<Longrightarrow> \<exists>c' \<le> c + del. edits ins del rep ci s t c'"
proof (induction arbitrary: t y rule: edits.induct)
  case (edits_delete s t' c x)
  then obtain c' where "c' \<le> c + del" "edits ins del rep ci s t c'" by blast
  then show ?case by (intro exI [of _ "c' + del"]) (auto intro: edits.edits_delete)
next
  case (edits_insert s t' c z)
  then show ?case by (intro exI [of _ c]) auto
next
  case (edits_replace s t' c x z)
  then show ?case by (intro exI [of _ "c + del"]) (auto intro: edits.edits_delete)
next
  case (edits_match s t' c x z)
  then show ?case by (intro exI [of _ "c + del"]) (auto intro: edits.edits_delete)
qed simp

lemma edits_drop_source:
  "edits ins del rep ci (s @ [x]) t c \<Longrightarrow> \<exists>c' \<le> c + ins. edits ins del rep ci s t c'"
  using edits_drop_target [OF edits_swap refl] edits_swap by blast

lemma edits_match_optimal:
  assumes "edits ins del rep ci (s @ [x]) (t @ [y]) c"
  shows "\<exists>c' \<le> c. edits ins del rep ci s t c'"
  using assms
proof (cases rule: edits.cases)
  case (edits_delete s' c' x')
  then have "edits ins del rep ci s (t @ [y]) c'" by simp
  from edits_drop_target [OF this refl] edits_delete show ?thesis by auto
next
  case (edits_insert t' c' y')
  then have "edits ins del rep ci (s @ [x]) t c'" by simp
  from edits_drop_source [OF this] edits_insert show ?thesis by auto
qed (auto intro: le_add1)

section \<open>The table\<close>

fun lev :: "string \<Rightarrow> string \<Rightarrow> nat \<Rightarrow> nat \<Rightarrow> nat \<Rightarrow> bool \<Rightarrow> nat \<Rightarrow> nat \<Rightarrow> nat" where
  "lev s t ins del rep ci 0 0 = 0"
| "lev s t ins del rep ci (Suc i) 0 = lev s t ins del rep ci i 0 + del"
| "lev s t ins del rep ci 0 (Suc j) = lev s t ins del rep ci 0 j + ins"
| "lev s t ins del rep ci (Suc i) (Suc j) =
     (if same_char ci (s ! i) (t ! j) then lev s t ins del rep ci i j
      else min (min (lev s t ins del rep ci i (Suc j) + del) (lev s t ins del rep ci (Suc i) j + ins))
             (lev s t ins del rep ci i j + rep))"

lemma lev_edits:
  "i \<le> length s \<Longrightarrow> j \<le> length t \<Longrightarrow> edits ins del rep ci (take i s) (take j t) (lev s t ins del rep ci i j)"
proof (induction s t ins del rep ci i j rule: lev.induct)
  case (4 s t ins del rep ci i j)
  have s: "take (Suc i) s = take i s @ [s ! i]" and t: "take (Suc j) t = take j t @ [t ! j]"
    using 4 by (simp_all add: take_Suc_conv_app_nth)
  show ?case
  proof (cases "same_char ci (s ! i) (t ! j)")
    case True
    with 4 show ?thesis unfolding s t by (auto intro: edits.edits_match)
  next
    case False
    have "edits ins del rep ci (take i s @ [s ! i]) (take j t @ [t ! j]) (lev s t ins del rep ci i (Suc j) + del)"
      using 4 False unfolding t [symmetric] by (auto intro: edits.edits_delete)
    moreover have "edits ins del rep ci (take i s @ [s ! i]) (take j t @ [t ! j]) (lev s t ins del rep ci (Suc i) j + ins)"
      using 4 False unfolding s [symmetric] by (auto intro: edits.edits_insert)
    moreover have "edits ins del rep ci (take i s @ [s ! i]) (take j t @ [t ! j]) (lev s t ins del rep ci i j + rep)"
      using 4 False by (auto intro: edits.edits_replace)
    ultimately show ?thesis using False unfolding s t by (simp add: min_def)
  qed
qed (auto intro: edits.intros simp: take_Suc_conv_app_nth)

lemma lev_least:
  "i \<le> length s \<Longrightarrow> j \<le> length t \<Longrightarrow> edits ins del rep ci (take i s) (take j t) c \<Longrightarrow> lev s t ins del rep ci i j \<le> c"
proof (induction s t ins del rep ci i j arbitrary: c rule: lev.induct)
  case (2 s t ins del rep ci i)
  then have s: "take (Suc i) s = take i s @ [s ! i]" by (simp add: take_Suc_conv_app_nth)
  from 2(4) show ?case
    unfolding s by (cases rule: edits.cases) (use 2 in auto)
next
  case (3 s t ins del rep ci j)
  then have t: "take (Suc j) t = take j t @ [t ! j]" by (simp add: take_Suc_conv_app_nth)
  from 3(4) show ?case
    unfolding t by (cases rule: edits.cases) (use 3 in auto)
next
  case (4 s t ins del rep ci i j)
  have s: "take (Suc i) s = take i s @ [s ! i]" and t: "take (Suc j) t = take j t @ [t ! j]"
    using 4 by (simp_all add: take_Suc_conv_app_nth)
  note e = 4(7) [unfolded s t]
  show ?case
  proof (cases "same_char ci (s ! i) (t ! j)")
    case True
    from edits_match_optimal [OF e] obtain c' where c': "c' \<le> c" "edits ins del rep ci (take i s) (take j t) c'" by blast
    from 4(1) [OF True _ _ c'(2)] 4(5,6) c'(1) True show ?thesis by simp
  next
    case False
    from e show ?thesis
    proof (cases rule: edits.cases)
      case (edits_delete s' c' x)
      then have "edits ins del rep ci (take i s) (take (Suc j) t) c'" using t by simp
      from 4(2) [OF False _ _ this] 4(5,6) edits_delete False show ?thesis by simp
    next
      case (edits_insert t' c' y)
      then have "edits ins del rep ci (take (Suc i) s) (take j t) c'" using s by simp
      from 4(3) [OF False _ _ this] 4(5,6) edits_insert False show ?thesis by simp
    next
      case (edits_replace s' t' c' x y)
      then have "edits ins del rep ci (take i s) (take j t) c'" by simp
      from 4(4) [OF False _ _ this] 4(5,6) edits_replace False show ?thesis by simp
    next
      case (edits_match s' t' x y)
      then show ?thesis using False by simp
    qed simp
  qed
qed simp


text \<open>\<open>is_row j r\<close>: the vector holds the column \<open>j\<close> of the table.\<close>

definition is_row :: "string \<Rightarrow> string \<Rightarrow> nat \<Rightarrow> nat \<Rightarrow> nat \<Rightarrow> bool \<Rightarrow> nat \<Rightarrow> nat list \<Rightarrow> bool" where
  "is_row s t ins del rep ci j r \<longleftrightarrow>
     length r = length s + 1 \<and> (\<forall>k \<le> length s. r ! k = lev s t ins del rep ci k j)"

lemma lev_first_row_is_row: "is_row s t ins del rep ci 0 (lev_first_row (length s) del)"
proof -
  let ?f = "\<lambda>r i. r [i := r ! (i - 1) + del] :: nat list"
  have "length (foldl ?f (replicate (length s + 1) 0) [1..<n + 1]) = length s + 1 \<and>
      (\<forall>k \<le> n. foldl ?f (replicate (length s + 1) 0) [1..<n + 1] ! k = lev s t ins del rep ci k 0)"
    if "n \<le> length s" for n
    using that
  proof (induction n)
    case (Suc n)
    have "[1..<Suc n + 1] = [1..<n + 1] @ [Suc n]" by simp
    with Suc show ?case by (auto simp: nth_list_update le_Suc_eq simp del: upt_Suc)
  qed simp
  from this [of "length s"] show ?thesis
    by (simp add: is_row_def lev_first_row_def list_update_same_conv [THEN iffD2])
qed

lemma lev_inner_is_row:
  assumes "length r = length s + 1" "1 \<le> i" "i \<le> length s + 1"
    and "\<And>k. k < i \<Longrightarrow> r ! k = lev s t ins del rep ci k (Suc j)"
    and "\<And>k. i \<le> k \<Longrightarrow> k \<le> length s \<Longrightarrow> r ! k = lev s t ins del rep ci k j"
    and "d = lev s t ins del rep ci (i - 1) j"
  shows "is_row s t ins del rep ci (Suc j) (lev_inner s (t ! j) ins del rep ci i d r)"
  using assms
proof (induction s "t ! j" ins del rep ci i d r rule: lev_inner.induct)
  case (1 s ins del rep ci i d r)
  show ?case
  proof (cases "i \<le> length s")
    case True
    obtain m where m: "i = Suc m" using "1.prems"(2) by (cases i) auto
    let ?v = "if same_char ci (s ! (i - 1)) (t ! j) then d else min (min (r ! (i - 1) + del) (r ! i + ins)) (d + rep)"
    have v: "?v = lev s t ins del rep ci i (Suc j)"
      using True m "1.prems"(4) [of m] "1.prems"(5) [of i] "1.prems"(6) by simp
    have "is_row s t ins del rep ci (Suc j) (lev_inner s (t ! j) ins del rep ci (i + 1) (r ! i) (r [i := ?v]))"
    proof (rule "1.hyps" [OF True refl refl])
      show "(r[i := ?v]) ! k = lev s t ins del rep ci k (Suc j)" if "k < i + 1" for k
        unfolding v by (cases "k = i") (use that True "1.prems"(1,4) in simp_all)
      show "(r[i := ?v]) ! k = lev s t ins del rep ci k j" if "i + 1 \<le> k" "k \<le> length s" for k
        using that "1.prems"(5) by simp
      show "r ! i = lev s t ins del rep ci (i + 1 - 1) j" using True "1.prems"(5) by simp
    qed (use True "1.prems" in auto)
    then show ?thesis using True by (subst lev_inner.simps) (simp add: Let_def)
  next
    case False
    with "1.prems" show ?thesis by (subst lev_inner.simps) (simp add: is_row_def)
  qed
qed

lemma lev_step_is_row:
  assumes "is_row s t ins del rep ci j r" "j < length t"
  shows "is_row s t ins del rep ci (Suc j) (lev_step s ins del rep ci r (t ! j))"
  unfolding lev_step_def Let_def
proof (rule lev_inner_is_row)
  show "(r[0 := r ! 0 + ins]) ! k = lev s t ins del rep ci k (Suc j)" if "k < 1" for k
    using that assms(1) by (simp add: is_row_def)
qed (use assms in \<open>auto simp: is_row_def\<close>)

lemma levenshtein_le:
  assumes "length s \<le> length t"
  shows "levenshtein_distance s t ins del rep ci = lev s t ins del rep ci (length s) (length t)"
proof -
  have "is_row s t ins del rep ci j (foldl (lev_step s ins del rep ci) (lev_first_row (length s) del) (take j t))"
    if "j \<le> length t" for j
    using that
  proof (induction j)
    case 0
    then show ?case by (simp add: lev_first_row_is_row)
  next
    case (Suc j)
    then show ?case using lev_step_is_row [of s t ins del rep ci j] by (simp add: take_Suc_conv_app_nth)
  qed
  from this [of "length t"] assms show ?thesis
    by (subst levenshtein_distance.simps) (simp add: is_row_def)
qed

text \<open>C23. \<open>levenshtein_distance\<close> is the least cost of an edit script between its two
  texts: some script has this cost and none is cheaper, whatever the costs, with the
  letters compared as asked, and also when the code swaps its arguments.\<close>

theorem levenshtein_is_least_edit_cost:
  "edits ins del rep ci s t (levenshtein_distance s t ins del rep ci) \<and>
   (\<forall>c. edits ins del rep ci s t c \<longrightarrow> levenshtein_distance s t ins del rep ci \<le> c)"
proof -
  have *: "edits ins del rep ci s t (levenshtein_distance s t ins del rep ci) \<and>
      (\<forall>c. edits ins del rep ci s t c \<longrightarrow> levenshtein_distance s t ins del rep ci \<le> c)"
    if "length s \<le> length t" for ins del s t
    using lev_edits [of "length s" s "length t" t] lev_least [of "length s" s "length t" t]
    by (simp add: levenshtein_le [OF that])
  show ?thesis
  proof (cases "length s \<le> length t")
    case False
    then have "levenshtein_distance s t ins del rep ci = levenshtein_distance t s del ins rep ci"
      by (subst levenshtein_distance.simps) simp
    with * [of t s del ins] False show ?thesis by (auto dest: edits_swap)
  qed (rule *)
qed

theorem levenshtein_is_least_edit_cost_witness:
  "levenshtein_distance ''cat'' ''Coat'' 3 4 2 True \<le> 3 \<and>
   edits 3 4 2 True ''cat'' ''Coat'' (levenshtein_distance ''cat'' ''Coat'' 3 4 2 True)"
proof -
  have "edits 3 4 2 True ([] @ ''c'') ([] @ ''C'') 0"
    by (intro edits_match edits_nil) (simp add: same_char_def c_tolower_def c_isupper_def char_eq_cv del: of_char_eq_iff)
  from edits_insert [OF this, of "CHR ''o''"] have "edits 3 4 2 True ''c'' ''Co'' 3" by simp
  from edits_match [OF this, of "CHR ''a''" "CHR ''a''"] have "edits 3 4 2 True ''ca'' ''Coa'' 3"
    by (simp add: same_char_def)
  from edits_match [OF this, of "CHR ''t''" "CHR ''t''"] have "edits 3 4 2 True ''cat'' ''Coat'' 3"
    by (simp add: same_char_def)
  with levenshtein_is_least_edit_cost [of 3 4 2 True "''cat''" "''Coat''"] show ?thesis by blast
qed

text \<open>The search keeps every word, with its distance, nearest first.\<close>

lemma search_ranks:
  "mset (map word (str_search ws sel)) = mset ws"
  "sorted (map distance (str_search ws sel))"
  "r \<in> set (str_search ws sel) \<Longrightarrow> distance r = levenshtein_distance (word r) sel 3 4 2 True"
proof -
  show "mset (map word (str_search ws sel)) = mset ws"
    by (simp add: str_search_def multiset.map_comp comp_def)
  have "sorted (map (\<lambda>r. (distance r, word r)) (str_search ws sel))" by (simp add: str_search_def)
  then show "sorted (map distance (str_search ws sel))"
    unfolding sorted_map by (rule sorted_wrt_mono_rel [rotated]) auto
  show "r \<in> set (str_search ws sel) \<Longrightarrow> distance r = levenshtein_distance (word r) sel 3 4 2 True"
    by (auto simp: str_search_def)
qed

end
