(* ===== verification/Sihd_Layout.thy ===== *)
theory Sihd_Layout
  imports Sihd_Str
begin

text \<open>
  Laying out text in lines: \<open>word_wrap\<close>, \<open>wrap\<close> and \<open>to_columns\<close> of util/str.cpp.
\<close>

abbreviation NL :: char where "NL \<equiv> CHR 0x0A"

section \<open>Wrapping words\<close>

text \<open>
  A word that is wider than a line is cut. \<open>word_wrap\<close> has returned for a width of 0 and
  switched hyphens off for a width of 1, so that every piece has at least one byte; the
  guard on the widths stands for these two early decisions.
\<close>

definition piece_size :: "nat \<Rightarrow> bool \<Rightarrow> nat \<Rightarrow> nat \<Rightarrow> nat" where
  "piece_size max_width append_hyphen word_size j =
     (if j + max_width \<ge> word_size then word_size - j
      else if append_hyphen then max_width - 1 else max_width)"

function cut_word :: "string \<Rightarrow> nat \<Rightarrow> bool \<Rightarrow> nat \<Rightarrow> string \<Rightarrow> nat \<Rightarrow> string \<times> nat" where
  "cut_word w max_width append_hyphen j ret curr_width =
     (if j < length w \<and> 0 < max_width \<and> (append_hyphen \<longrightarrow> 1 < max_width) then
        let add_size = piece_size max_width append_hyphen (length w) j;
            ret = ret @ take add_size (drop j w);
            ret = (if j + add_size < length w then ret @ (if append_hyphen then [CHR ''-'', NL] else [NL]) else ret) in
        cut_word w max_width append_hyphen (j + add_size) ret add_size
      else (ret, curr_width))"
  by pat_completeness auto
termination
  by (relation "measure (\<lambda>(w, mx, h, j, ret, c). length w - j)") (auto simp: piece_size_def)

declare cut_word.simps [simp del]

text \<open>One finished word, at \<open>word_begin\<close> and of \<open>word_size\<close> bytes: \<open>w\<close>.\<close>

definition add_word :: "nat \<Rightarrow> bool \<Rightarrow> string \<Rightarrow> string \<Rightarrow> nat \<Rightarrow> string \<times> nat" where
  "add_word max_width append_hyphen w ret curr_width =
     (let word_size = length w in
      if word_size > max_width then
        cut_word w max_width append_hyphen 0 (if curr_width > 0 then ret @ [NL] else ret) curr_width
      else if curr_width + word_size > max_width \<or> (curr_width > 0 \<and> curr_width + word_size + 1 > max_width) then
        ((ret @ [NL]) @ w, word_size)
      else
        let (ret, curr_width) = (if curr_width > 0 then (ret @ '' '', curr_width + 1) else (ret, curr_width)) in
        (ret @ w, curr_width + word_size))"

record wrap_state =
  ws_ret :: string
  curr_width :: nat
  word_begin :: nat
  word_end :: nat
  in_word :: bool

text \<open>The body of the loop for the index \<open>i\<close>.\<close>

definition wrap_step :: "string \<Rightarrow> nat \<Rightarrow> bool \<Rightarrow> nat \<Rightarrow> wrap_state \<Rightarrow> wrap_state" where
  "wrap_step s max_width append_hyphen i st =
     (let should_add = c_isspace (s ! i) \<and> in_word st;
          st = (if c_isspace (s ! i) then
                  (if in_word st then st\<lparr> word_end := i, in_word := False \<rparr> else st)
                else if \<not> in_word st then st\<lparr> word_begin := i, in_word := True \<rparr> else st);
          next_is_end = i + 1 \<ge> length s;
          st = (if should_add \<or> (in_word st \<and> next_is_end) then
                  let st = (if next_is_end then st\<lparr> word_end := i + 1 \<rparr> else st);
                      w = take (word_end st - word_begin st) (drop (word_begin st) s);
                      (ret, cw) = add_word max_width append_hyphen w (ws_ret st) (curr_width st) in
                  st\<lparr> ws_ret := ret, curr_width := cw \<rparr>
                else st) in
      if s ! i = NL \<and> \<not> next_is_end then st\<lparr> ws_ret := ws_ret st @ [NL], curr_width := 0 \<rparr> else st)"

definition word_wrap :: "string \<Rightarrow> nat \<Rightarrow> bool \<Rightarrow> string" where
  "word_wrap s max_width append_hyphen =
     (if max_width = 0 then []
      else let append_hyphen = (if max_width = 1 then False else append_hyphen) in
        ws_ret (foldl (\<lambda>st i. wrap_step s max_width append_hyphen i st)
          \<lparr> ws_ret = [], curr_width = 0, word_begin = 0, word_end = 0, in_word = False \<rparr> [0..<length s]))"

section \<open>Line widths\<close>

text \<open>The width of the open line after \<open>s\<close> when \<open>n\<close> bytes stood on it before, and whether all lines fit.\<close>

fun open_width :: "nat \<Rightarrow> string \<Rightarrow> nat" where
  "open_width n [] = n"
| "open_width n (c # cs) = (if c = NL then open_width 0 cs else open_width (n + 1) cs)"

fun lines_fit :: "nat \<Rightarrow> nat \<Rightarrow> string \<Rightarrow> bool" where
  "lines_fit m n [] \<longleftrightarrow> n \<le> m"
| "lines_fit m n (c # cs) \<longleftrightarrow> (if c = NL then n \<le> m \<and> lines_fit m 0 cs else lines_fit m (n + 1) cs)"

lemma open_width_append [simp]: "open_width n (a @ b) = open_width (open_width n a) b"
  by (induction n a rule: open_width.induct) auto






lemma lines_fit_mono: "lines_fit m n s \<Longrightarrow> k \<le> n \<Longrightarrow> lines_fit m k s"
proof (induction m n s arbitrary: k rule: lines_fit.induct)
  case (2 m n c cs)
  then show ?case by (auto split: if_splits)
qed simp







lemma isspace_simps [simp]: "c_isspace NL" "c_isspace (CHR '' '')"
  by (simp_all add: c_isspace_def)









text \<open>A space at the very end counts as part of the last word, which is then cut although it fits.\<close>

lemma word_wrap_trailing_space: "word_wrap ''ab '' 2 False = ''ab'' @ [NL] @ '' ''"
  by code_simp


section \<open>Cutting a text\<close>

text \<open>
  The room for the end is subtracted twice; where the second subtraction wraps, the view
  that is formatted is longer than any text.
\<close>

definition wrap :: "string \<Rightarrow> nat \<Rightarrow> string \<Rightarrow> string cxx" where
  "wrap s max_width end_with =
     (if max_width < length end_with then Val (take max_width end_with)
      else let max_width = max_width - length end_with in
        if length s < max_width then Val s
        else if max_width < length end_with then Undef
        else Val (take (max_width - length end_with) s @ end_with))"

lemma wrap_too_short:
  "length s = 10 \<Longrightarrow> wrap s 10 ''...'' = Val (take 4 s @ ''...'')"
  "length s = 10 \<Longrightarrow> wrap s 5 ''...'' = Undef"
  by (simp_all add: wrap_def)

section \<open>Columns\<close>

text \<open>
  \<open>std::ceil(size / (float)n)\<close> is the rounded up quotient for fewer than \<open>2 ^ 24\<close> words,
  where the division in single precision cannot reach an integer that it should not. The
  words are ASCII texts, so that \<open>fmt\<close> pads to a number of bytes.
\<close>

definition nb_columns :: "string list \<Rightarrow> nat \<Rightarrow> nat" where
  "nb_columns words n = (length words + n - 1) div n"

definition biggest_word :: "string list \<Rightarrow> nat \<Rightarrow> nat \<Rightarrow> nat" where
  "biggest_word words n column =
     foldl (\<lambda>m w. max m (length w)) 0 (take n (drop (n * column) words))"

text \<open>The loop over the columns for \<open>n\<close> lines: whether it is good, the line size and the column sizes.\<close>

function try_columns :: "string list \<Rightarrow> nat \<Rightarrow> nat \<Rightarrow> nat \<Rightarrow> nat \<Rightarrow> nat \<Rightarrow> nat list \<Rightarrow> bool \<times> nat \<times> nat list" where
  "try_columns words max_width join_size n column current column_size =
     (if column < nb_columns words n then
        let biggest = biggest_word words n column;
            current = current + biggest;
            current = (if column > 0 then current + join_size else current) in
        if current > max_width then (False, current, column_size)
        else try_columns words max_width join_size n (column + 1) current (column_size [column := biggest])
      else (True, current, column_size))"
  by pat_completeness auto
termination
  by (relation "measure (\<lambda>(words, mx, js, n, c, cur, cs). nb_columns words n - c)") auto

function find_lines :: "string list \<Rightarrow> nat \<Rightarrow> nat \<Rightarrow> nat \<Rightarrow> nat list \<Rightarrow> (nat \<times> nat list) option" where
  "find_lines words max_width join_size n column_size =
     (if n \<le> length words then
        case try_columns words max_width join_size n 0 0 column_size of
          (good, _, column_size) \<Rightarrow>
            if good then Some (n, column_size)
            else find_lines words max_width join_size (n + 1) column_size
      else None)"
  by pat_completeness auto
termination
  by (relation "measure (\<lambda>(words, mx, js, n, cs). Suc (length words) - n)") auto

declare try_columns.simps [simp del] find_lines.simps [simp del]

















end
