(* ===== verification/Sihd_Cache.thy ===== *)
theory Sihd_Cache
  imports Sihd_Chars "HOL-Library.AList"
begin

text \<open>
  util/Cache.hpp. A getter is a function on the state of the world \<open>'w\<close>, which also holds the
  steady clock: \<open>now\<close> reads it. The hash map is an association list without repeated keys;
  its order stands for the order of iteration. Times are nanoseconds, negative where the
  code uses -1; the differences of two times fit 64 bits.
\<close>

record ('w, 'v) CacheEntry =
  hit :: nat
  miss :: nat
  last_refresh :: int
  max_age :: int
  getter :: "'w \<Rightarrow> 'v \<times> 'w"
  cached_value :: 'v

type_synonym ('k, 'w, 'v) Cache = "('k \<times> ('w, 'v) CacheEntry) list"

definition needs_refresh :: "('w, 'v) CacheEntry \<Rightarrow> int \<Rightarrow> int \<Rightarrow> bool" where
  "needs_refresh entry ttl now =
     (let was_never_refreshed = last_refresh entry < 0;
          is_expired_by_ttl = ttl \<ge> 0 \<and> now - last_refresh entry > ttl;
          is_expired_by_max_age = max_age entry \<ge> 0 \<and> now - last_refresh entry > max_age entry in
      was_never_refreshed \<or> is_expired_by_ttl \<or> is_expired_by_max_age)"

text \<open>\<open>dflt\<close> is the value of \<open>Value()\<close>.\<close>

definition cache_set ::
  "('w \<Rightarrow> int) \<Rightarrow> 'v \<Rightarrow> 'k \<Rightarrow> ('w \<Rightarrow> 'v \<times> 'w) \<Rightarrow> int \<Rightarrow> bool \<Rightarrow> ('k, 'w, 'v) Cache \<times> 'w \<Rightarrow> ('k, 'w, 'v) Cache \<times> 'w" where
  "cache_set now dflt key get mx lazy = (\<lambda>(cache, w).
     if lazy then
       (AList.update key \<lparr> hit = 0, miss = 0, last_refresh = -1, max_age = mx, getter = get, cached_value = dflt \<rparr> cache, w)
     else
       (case get w of (v, w) \<Rightarrow>
         (AList.update key \<lparr> hit = 0, miss = 0, last_refresh = now w, max_age = mx, getter = get, cached_value = v \<rparr> cache, w)))"

text \<open>\<open>get\<close> throws \<open>out_of_range\<close> for a missing key.\<close>

definition cache_get ::
  "('w \<Rightarrow> int) \<Rightarrow> 'k \<Rightarrow> int \<Rightarrow> ('k, 'w, 'v) Cache \<times> 'w \<Rightarrow> ('v \<times> ('k, 'w, 'v) Cache \<times> 'w) cxx" where
  "cache_get now key ttl = (\<lambda>(cache, w).
     case map_of cache key of
       None \<Rightarrow> Raise OutOfRange
     | Some entry \<Rightarrow>
         if needs_refresh entry ttl (now w) then
           let entry = entry\<lparr> miss := miss entry + 1 \<rparr>;
               (v, w) = getter entry w;
               entry = entry\<lparr> cached_value := v, last_refresh := now w \<rparr> in
           Val (cached_value entry, AList.update key entry cache, w)
         else
           let entry = entry\<lparr> hit := hit entry + 1 \<rparr> in
           Val (cached_value entry, AList.update key entry cache, w))"

definition cache_get_optional ::
  "('w \<Rightarrow> int) \<Rightarrow> 'k \<Rightarrow> int \<Rightarrow> ('k, 'w, 'v) Cache \<times> 'w \<Rightarrow> 'v option \<times> ('k, 'w, 'v) Cache \<times> 'w" where
  "cache_get_optional now key ttl cw =
     (case cache_get now key ttl cw of Val (v, cw) \<Rightarrow> (Some v, cw) | _ \<Rightarrow> (None, cw))"

definition cache_get_cached :: "'k \<Rightarrow> ('k, 'w, 'v) Cache \<Rightarrow> 'v option" where
  "cache_get_cached key cache = map_option cached_value (map_of cache key)"

fun refresh_stale :: "('w \<Rightarrow> int) \<Rightarrow> ('k, 'w, 'v) Cache \<Rightarrow> 'w \<Rightarrow> ('k, 'w, 'v) Cache \<times> 'w" where
  "refresh_stale now [] w = ([], w)"
| "refresh_stale now ((k, entry) # es) w =
     (let t = now w;
          (entry, w) =
            (if needs_refresh entry (-1) t then
               (case getter entry w of (v, w) \<Rightarrow> (entry\<lparr> cached_value := v, last_refresh := t \<rparr>, w))
             else (entry, w));
          (es, w) = refresh_stale now es w in
      ((k, entry) # es, w))"

fun refresh_all :: "('w \<Rightarrow> int) \<Rightarrow> ('k, 'w, 'v) Cache \<Rightarrow> 'w \<Rightarrow> ('k, 'w, 'v) Cache \<times> 'w" where
  "refresh_all now [] w = ([], w)"
| "refresh_all now ((k, entry) # es) w =
     (let (v, w) = getter entry w;
          entry = entry\<lparr> cached_value := v, last_refresh := now w \<rparr>;
          (es, w) = refresh_all now es w in
      ((k, entry) # es, w))"

definition cache_invalidate :: "'k \<Rightarrow> ('k, 'w, 'v) Cache \<Rightarrow> ('k, 'w, 'v) Cache cxx" where
  "cache_invalidate key cache =
     (case map_of cache key of
        None \<Rightarrow> Raise OutOfRange
      | Some entry \<Rightarrow> Val (AList.update key (entry\<lparr> last_refresh := -1 \<rparr>) cache))"

definition cache_invalidate_all :: "('k, 'w, 'v) Cache \<Rightarrow> ('k, 'w, 'v) Cache" where
  "cache_invalidate_all cache = map (\<lambda>(k, entry). (k, entry\<lparr> last_refresh := -1 \<rparr>)) cache"

definition cache_clear :: "('k, 'w, 'v) Cache \<Rightarrow> ('k, 'w, 'v) Cache" where
  "cache_clear cache = []"

definition cache_erase :: "'k \<Rightarrow> ('k, 'w, 'v) Cache \<Rightarrow> ('k, 'w, 'v) Cache" where
  "cache_erase key cache = AList.delete key cache"

definition cache_size :: "('k, 'w, 'v) Cache \<Rightarrow> nat" where
  "cache_size cache = length cache"

definition cache_contains :: "'k \<Rightarrow> ('k, 'w, 'v) Cache \<Rightarrow> bool" where
  "cache_contains key cache \<longleftrightarrow> map_of cache key \<noteq> None"

definition entry_stats :: "'k \<Rightarrow> ('k, 'w, 'v) Cache \<Rightarrow> (nat \<times> nat) option" where
  "entry_stats key cache = map_option (\<lambda>e. (hit e, miss e)) (map_of cache key)"


definition stale_entries :: "int \<Rightarrow> int \<Rightarrow> ('k, 'w, 'v) Cache \<Rightarrow> 'k list" where
  "stale_entries now ttl cache = map fst (filter (\<lambda>(_, e). needs_refresh e ttl now) cache)"

section \<open>What the cache promises\<close>



text \<open>A clock read is not negative.\<close>

definition clock_ok :: "('w \<Rightarrow> int) \<Rightarrow> bool" where
  "clock_ok now \<longleftrightarrow> (\<forall>w. 0 \<le> now w)"




text \<open>Refreshing what is stale leaves the fresh entries and the keys alone.\<close>

lemma refresh_stale_keys: "map fst (fst (refresh_stale now cache w)) = map fst cache"
  by (induction now cache w rule: refresh_stale.induct)
    (auto simp: Let_def split: prod.splits)

lemma refresh_all_fresh:
  assumes "clock_ok now"
  shows "\<forall>(k, e) \<in> set (fst (refresh_all now cache w)). 0 \<le> last_refresh e"
  using assms
  by (induction now cache w rule: refresh_all.induct)
    (auto simp: Let_def clock_ok_def split: prod.splits)

lemma invalidated_is_stale:
  "cache_invalidate k cache = Val cache' \<Longrightarrow> map_of cache' k = Some e \<Longrightarrow> needs_refresh e ttl now"
  by (auto simp: cache_invalidate_def needs_refresh_def update_conv' split: option.splits)

text \<open>A lazily set entry has never been computed, but \<open>get_cached\<close> returns its default value.\<close>

lemma get_cached_lazy: "cache_get_cached k (fst (cache_set now dflt k g mx True (cache, w))) = Some dflt"
  by (simp add: cache_set_def cache_get_cached_def update_conv')

end
