(* ===== verification/Sihd_Scheduler.thy ===== *)
theory Sihd_Scheduler
  imports Sihd_Chars "HOL-Library.Multiset"
begin

text \<open>
  util/Scheduler.cpp and util/Task.cpp. Tasks are objects with an address (a number) in a
  store; what a task does is not looked at. Each block of the code that holds a lock is one
  operation on the state; the worker thread and the other threads are a step relation over
  them. Every step comes with the time the clock shows. Times are nanoseconds as integers.
\<close>

section \<open>State\<close>

record Task =
  run_at :: int
  run_in :: int
  reschedule_time :: int

definition new_Task :: "int \<Rightarrow> int \<Rightarrow> int \<Rightarrow> Task cxx" where
  "new_Task at_time in_time resched =
     (if at_time > 0 \<and> in_time > 0 then Raise LogicError
      else Val \<lparr> run_at = at_time, run_in = in_time, reschedule_time = resched \<rparr>)"

text \<open>Where the worker is: the calls of \<open>on_work_start\<close>.\<close>

datatype worker_pc =
    Idle
  | AtLoop
  | WaitsTask
  | Sleeps int
  | Woken
  | Picks int
  | Runs nat int
  | Ran nat int
  | Cleans
  | Finished
  | Crashed

record Scheduler =
  tasks :: "nat \<Rightarrow> Task"
  tasks_to_add :: "nat list"
  task_map :: "(int \<times> nat) list"
  trash :: "nat list"
  freed :: "nat list"
  removed :: "nat list"
  next_run :: int
  begin_run :: int
  paused_time_at :: int
  is_paused :: bool
  tasks_prepared :: bool
  no_delay :: bool
  stop_requested :: bool
  overruns :: nat
  overrun_at :: int
  preplay :: int
  pc :: worker_pc

definition new_Scheduler :: Scheduler where
  "new_Scheduler = \<lparr> tasks = (\<lambda>_. \<lparr> run_at = 0, run_in = 0, reschedule_time = 0 \<rparr>), tasks_to_add = [],
     task_map = [], trash = [], freed = [], removed = [], next_run = 0, begin_run = 0, paused_time_at = 0,
     is_paused = False, tasks_prepared = False, no_delay = False, stop_requested = False,
     overruns = 0, overrun_at = 300000, preplay = 100, pc = Idle \<rparr>"

text \<open>\<open>emplace\<close> in a multimap: after the entries with the same key.\<close>

fun mm_emplace :: "int \<Rightarrow> nat \<Rightarrow> (int \<times> nat) list \<Rightarrow> (int \<times> nat) list" where
  "mm_emplace k v [] = [(k, v)]"
| "mm_emplace k v ((k', v') # m) = (if k < k' then (k, v) # (k', v') # m else (k', v') # mm_emplace k v m)"

definition set_task :: "nat \<Rightarrow> Task \<Rightarrow> Scheduler \<Rightarrow> Scheduler" where
  "set_task tid t st = st\<lparr> tasks := (tasks st) (tid := t) \<rparr>"

section \<open>Operations\<close>

definition add_task_to_map :: "nat \<Rightarrow> Scheduler \<Rightarrow> Scheduler" where
  "add_task_to_map tid st =
     (let m = mm_emplace (run_at (tasks st tid)) tid (task_map st) in
      st\<lparr> task_map := m, next_run := fst (hd m) \<rparr>)"

definition sched_add_task :: "int \<Rightarrow> nat \<Rightarrow> Scheduler \<Rightarrow> Scheduler" where
  "sched_add_task now tid st =
     (if tasks_prepared st then
        let t = tasks st tid;
            st = (if run_in t > 0 then set_task tid (t\<lparr> run_at := now + run_in t \<rparr>) st else st) in
        add_task_to_map tid st
      else st\<lparr> tasks_to_add := tasks_to_add st @ [tid] \<rparr>)"

definition sched_remove_task :: "nat \<Rightarrow> Scheduler \<Rightarrow> bool \<times> Scheduler" where
  "sched_remove_task tid st =
     (let found = tid \<in> set (tasks_to_add st);
          st = st\<lparr> tasks_to_add := remove1 tid (tasks_to_add st) \<rparr>;
          found_map = tid \<in> snd ` set (task_map st);
          st = (if found_map then
                  let m = (case List.extract (\<lambda>p. snd p = tid) (task_map st) of
                             Some (xs, _, ys) \<Rightarrow> xs @ ys | None \<Rightarrow> task_map st) in
                  st\<lparr> task_map := m, next_run := (if m \<noteq> [] then fst (hd m) else next_run st) \<rparr>
                else st) in
      (found \<or> found_map, if found \<or> found_map then st\<lparr> removed := tid # removed st \<rparr> else st))"

definition delete_trashed_tasks :: "Scheduler \<Rightarrow> Scheduler" where
  "delete_trashed_tasks st = st\<lparr> freed := trash st @ freed st, trash := [] \<rparr>"

definition sched_clear_tasks :: "Scheduler \<Rightarrow> Scheduler" where
  "sched_clear_tasks st =
     (let st = delete_trashed_tasks st in
      st\<lparr> freed := map snd (task_map st) @ tasks_to_add st @ freed st, tasks_to_add := [], task_map := [] \<rparr>)"

text \<open>One round of the loop of \<open>_prepare_tasks\<close>.\<close>

definition prepare_one :: "nat \<Rightarrow> Scheduler \<Rightarrow> Scheduler" where
  "prepare_one tid st =
     (let t = tasks st tid;
          st = (if run_in t > 0 then set_task tid (t\<lparr> run_at := begin_run st + run_in t \<rparr>) st else st) in
      st\<lparr> task_map := mm_emplace (run_at (tasks st tid)) tid (task_map st) \<rparr>)"

fun prepare_loop :: "nat list \<Rightarrow> Scheduler \<Rightarrow> Scheduler" where
  "prepare_loop [] st = st"
| "prepare_loop (tid # ids) st = prepare_loop ids (prepare_one tid st)"

definition prepare_tasks :: "Scheduler \<Rightarrow> Scheduler" where
  "prepare_tasks st =
     (let st = prepare_loop (tasks_to_add st) st;
          st = (if task_map st \<noteq> [] then st\<lparr> next_run := fst (hd (task_map st)) \<rparr> else st) in
      st\<lparr> tasks_to_add := [], tasks_prepared := True \<rparr>)"

text \<open>\<open>begin()\<close> of an empty map may not be read.\<close>

definition get_playable_task :: "int \<Rightarrow> Scheduler \<Rightarrow> (nat option \<times> Scheduler) cxx" where
  "get_playable_task now st =
     (case task_map st of
        [] \<Rightarrow> Undef
      | (_, tid) # m \<Rightarrow>
          let t = tasks st tid;
              diff = run_at t - now;
              st = (if run_at t > 0 \<and> - diff > overrun_at st then st\<lparr> overruns := overruns st + 1 \<rparr> else st) in
          if no_delay st \<or> diff - preplay st \<le> 0 then Val (Some tid, st\<lparr> task_map := m \<rparr>)
          else Val (None, st))"

text \<open>What \<open>_play_task\<close> does after the task has run.\<close>

definition after_task :: "nat \<Rightarrow> int \<Rightarrow> Scheduler \<Rightarrow> Scheduler" where
  "after_task tid now st =
     (let t = tasks st tid in
      if reschedule_time t > 0 then
        let t = (if run_at t = 0 then t\<lparr> run_at := now \<rparr> else t);
            t = t\<lparr> run_at := run_at t + reschedule_time t \<rparr> in
        add_task_to_map tid (set_task tid t st)
      else st\<lparr> trash := trash st @ [tid] \<rparr>)"

definition sched_pause :: "int \<Rightarrow> Scheduler \<Rightarrow> Scheduler" where
  "sched_pause now st = (if is_paused st then st else st\<lparr> is_paused := True, paused_time_at := now \<rparr>)"

text \<open>One round of the loop of \<open>_resume_tasks\<close>: the new map and the state.\<close>

definition resume_one :: "int \<Rightarrow> nat \<Rightarrow> (int \<times> nat) list \<Rightarrow> Scheduler \<Rightarrow> (int \<times> nat) list \<times> Scheduler" where
  "resume_one paused_time tid new_map st =
     (let t = tasks st tid;
          st = (if run_in t > 0 then set_task tid (t\<lparr> run_at := run_at t + paused_time \<rparr>) st else st) in
      (mm_emplace (run_at (tasks st tid)) tid new_map, st))"

fun resume_loop :: "int \<Rightarrow> (int \<times> nat) list \<Rightarrow> (int \<times> nat) list \<Rightarrow> Scheduler \<Rightarrow> (int \<times> nat) list \<times> Scheduler" where
  "resume_loop paused_time [] new_map st = (new_map, st)"
| "resume_loop paused_time ((_, tid) # m) new_map st =
     (case resume_one paused_time tid new_map st of (new_map, st) \<Rightarrow> resume_loop paused_time m new_map st)"

definition resume_tasks :: "int \<Rightarrow> Scheduler \<Rightarrow> Scheduler" where
  "resume_tasks now st =
     (if paused_time_at st = 0 then st
      else if \<not> tasks_prepared st then st
      else
        let paused_time = now - max (begin_run st) (paused_time_at st);
            st = st\<lparr> paused_time_at := 0 \<rparr>;
            (m, st) = resume_loop paused_time (task_map st) [] st;
            st = st\<lparr> task_map := m \<rparr> in
        if m \<noteq> [] then st\<lparr> next_run := fst (hd m) \<rparr> else st)"

definition sched_resume :: "int \<Rightarrow> Scheduler \<Rightarrow> Scheduler" where
  "sched_resume now st = (if \<not> is_paused st then st else (resume_tasks now st)\<lparr> is_paused := False \<rparr>)"

text \<open>\<open>AWorkerService::on_stop\<close> up to the join: the request, then \<open>on_work_stop\<close>.\<close>

definition sched_stop :: "Scheduler \<Rightarrow> Scheduler" where
  "sched_stop st = st\<lparr> stop_requested := True, is_paused := False, begin_run := 0 \<rparr>"

definition sched_set_no_delay :: "bool \<Rightarrow> Scheduler \<Rightarrow> Scheduler cxx" where
  "sched_set_no_delay active st =
     (if pc st \<notin> {Idle, Finished} then Raise LogicError else Val (st\<lparr> no_delay := active \<rparr>))"

section \<open>Steps\<close>

definition goto :: "worker_pc \<Rightarrow> Scheduler \<Rightarrow> Scheduler" where
  "goto p st = st\<lparr> pc := p \<rparr>"

text \<open>The addresses of all tasks that were ever given to the scheduler, place by place.\<close>

fun running :: "worker_pc \<Rightarrow> nat list" where
  "running (Runs i _) = [i]"
| "running (Ran i _) = [i]"
| "running _ = []"

definition pools :: "Scheduler \<Rightarrow> nat list" where
  "pools st = tasks_to_add st @ map snd (task_map st) @ trash st @ freed st @ removed st"

definition held :: "Scheduler \<Rightarrow> nat list" where
  "held st = running (pc st) @ pools st"

text \<open>A step at the time \<open>now\<close>. A new task has a new address. The waits of \<open>_wait_for_next_task\<close> are steps that are only
  possible when their predicate holds or their time has passed.\<close>

inductive sched_step :: "Scheduler \<Rightarrow> int \<Rightarrow> Scheduler \<Rightarrow> bool" where
  work_start: "pc st \<in> {Idle, Finished} \<Longrightarrow>
    sched_step st now (goto AtLoop (prepare_tasks
      (st\<lparr> stop_requested := False, overruns := 0, begin_run := now \<rparr>)))"
| work_end: "pc st = AtLoop \<Longrightarrow> stop_requested st \<Longrightarrow> sched_step st now (goto Finished st)"
| not_paused: "pc st = AtLoop \<Longrightarrow> stop_requested st \<or> \<not> is_paused st \<Longrightarrow> sched_step st now (goto WaitsTask st)"
| has_task: "pc st = WaitsTask \<Longrightarrow> stop_requested st \<or> task_map st \<noteq> [] \<Longrightarrow>
    sched_step st now (goto (if no_delay st then Woken else Sleeps (next_run st)) st)"
| wakes: "pc st = Sleeps until \<Longrightarrow> stop_requested st \<or> until \<le> now \<Longrightarrow> sched_step st now (goto Woken st)"
| reads_clock: "pc st = Woken \<Longrightarrow>
    sched_step st now (goto (if \<not> stop_requested st \<and> \<not> is_paused st then Picks now else AtLoop) st)"
| picks: "pc st = Picks t \<Longrightarrow> get_playable_task t st = Val (r, st') \<Longrightarrow>
    sched_step st now (goto (case r of None \<Rightarrow> Cleans | Some tid \<Rightarrow> Runs tid t) st')"
| crashes: "pc st = Picks t \<Longrightarrow> get_playable_task t st = Undef \<Longrightarrow> sched_step st now (goto Crashed st)"
| runs: "pc st = Runs tid t \<Longrightarrow> sched_step st now (goto (Ran tid t) st)"
| plays: "pc st = Ran tid t \<Longrightarrow> sched_step st now (goto Cleans (after_task tid t st))"
| cleans: "pc st = Cleans \<Longrightarrow> sched_step st now (goto AtLoop (delete_trashed_tasks st))"
| adds: "tid \<notin> set (held st) \<Longrightarrow> sched_step st now (sched_add_task now tid (set_task tid t st))"
| removes: "sched_step st now (snd (sched_remove_task tid st))"
| clears: "sched_step st now (sched_clear_tasks st)"
| pauses: "sched_step st now (sched_pause now st)"
| resumes: "sched_step st now (sched_resume now st)"
| stops: "pc st \<notin> {Idle, Finished} \<Longrightarrow> sched_step st now (sched_stop st)"
| sets_no_delay: "sched_set_no_delay b st = Val st' \<Longrightarrow> sched_step st now st'"

inductive sched_reach :: "Scheduler \<Rightarrow> bool" where
  reach_init: "sched_reach new_Scheduler"
| reach_step: "sched_reach st \<Longrightarrow> sched_step st now st' \<Longrightarrow> sched_reach st'"


section \<open>Invariants\<close>

lemma mm_emplace_mset [simp]: "mset (mm_emplace k v m) = add_mset (k, v) (mset m)"
  by (induction k v m rule: mm_emplace.induct) auto

lemma mm_emplace_set [simp]: "set (mm_emplace k v m) = insert (k, v) (set m)"
  by (induction k v m rule: mm_emplace.induct) auto

lemma mm_emplace_ne [simp]: "mm_emplace k v m \<noteq> []"
  by (cases m) (auto split: if_splits)


lemma mm_emplace_snd [simp]: "mset (map snd (mm_emplace k v m)) = add_mset v (mset (map snd m))"
  by (induction k v m rule: mm_emplace.induct) auto

text \<open>The map is ordered by its keys, and the key of a task is the time it is to run at.\<close>

definition map_ok :: "Scheduler \<Rightarrow> bool" where
  "map_ok st \<longleftrightarrow> sorted (map fst (task_map st)) \<and> (\<forall>(k, i) \<in> set (task_map st). k = run_at (tasks st i))"


lemma map_ok_cong:
  "map_ok st \<Longrightarrow> task_map st' = task_map st \<Longrightarrow> tasks st' = tasks st \<Longrightarrow> map_ok st'"
  by (simp add: map_ok_def)



lemma pools_add [simp]: "mset (pools (add_task_to_map tid st)) = add_mset tid (mset (pools st))"
  by (simp add: pools_def add_task_to_map_def Let_def)

lemma set_task_simps [simp]: "pools (set_task tid t st) = pools st" "task_map (set_task tid t st) = task_map st"
  "tasks_prepared (set_task tid t st) = tasks_prepared st" "pc (set_task tid t st) = pc st"
  "tasks_to_add (set_task tid t st) = tasks_to_add st" "tasks (set_task tid t st) tid = t"
  by (simp_all add: set_task_def pools_def)

lemma goto_simps [simp]: "pools (goto p st) = pools st" "pc (goto p st) = p" "map_ok (goto p st) = map_ok st"
  "task_map (goto p st) = task_map st" "tasks (goto p st) = tasks st"
  by (simp_all add: goto_def pools_def map_ok_def)















lemma clear_tasks_props:
  "map_ok (sched_clear_tasks st)" "mset (pools (sched_clear_tasks st)) = mset (pools st)"
  "pc (sched_clear_tasks st) = pc st"
  by (simp_all add: sched_clear_tasks_def delete_trashed_tasks_def map_ok_def pools_def Let_def)







section \<open>Runs\<close>

text \<open>A scheduler that was given one task and has woken up to play it.\<close>

definition one_task :: "Task \<Rightarrow> Scheduler" where
  "one_task t = goto AtLoop (prepare_tasks
     ((sched_add_task 0 0 (set_task 0 t new_Scheduler))\<lparr> stop_requested := False, overruns := 0, begin_run := 1 \<rparr>))"

definition one_task_picks :: "int \<Rightarrow> Task \<Rightarrow> Scheduler" where
  "one_task_picks now t = goto (Picks now) (goto Woken (goto (Sleeps (next_run (one_task t))) (goto WaitsTask (one_task t))))"

lemmas sched_defs = new_Scheduler_def set_task_def sched_add_task_def prepare_tasks_def prepare_one_def goto_def
  add_task_to_map_def one_task_def one_task_picks_def

lemma one_task_reach: "sched_reach (one_task t)"
proof -
  have "sched_step new_Scheduler 0 (sched_add_task 0 0 (set_task 0 t new_Scheduler))"
    by (rule adds) (simp add: held_def pools_def new_Scheduler_def)
  note r = reach_step [OF reach_init this]
  have "pc (sched_add_task 0 0 (set_task 0 t new_Scheduler)) \<in> {Idle, Finished}" by (simp add: sched_defs)
  from reach_step [OF r work_start [OF this, of 1]] show ?thesis by (simp add: one_task_def)
qed

lemma one_task_picks_reach:
  assumes "next_run (one_task t) \<le> now" shows "sched_reach (one_task_picks now t)"
proof -
  let ?s = "one_task t"
  have f: "pc ?s = AtLoop" "\<not> is_paused ?s" "\<not> stop_requested ?s" "\<not> no_delay ?s" "task_map ?s \<noteq> []"
    by (simp_all add: sched_defs Let_def)
  have "sched_reach (goto WaitsTask ?s)" using f by (intro reach_step [OF one_task_reach not_paused]) simp_all
  moreover have "sched_step (goto WaitsTask ?s) 1 (goto (if no_delay (goto WaitsTask ?s) then Woken else Sleeps (next_run (goto WaitsTask ?s))) (goto WaitsTask ?s))"
    using f by (intro has_task) simp_all
  ultimately have "sched_reach (goto (Sleeps (next_run ?s)) (goto WaitsTask ?s))"
    using f by (auto simp: goto_def intro: reach_step)
  moreover have "sched_step (goto (Sleeps (next_run ?s)) (goto WaitsTask ?s)) now (goto Woken (goto (Sleeps (next_run ?s)) (goto WaitsTask ?s)))"
    using assms by (intro wakes [where until = "next_run ?s"]) simp_all
  ultimately have r: "sched_reach (goto Woken (goto (Sleeps (next_run ?s)) (goto WaitsTask ?s)))" by (rule reach_step)
  let ?w = "goto Woken (goto (Sleeps (next_run ?s)) (goto WaitsTask ?s))"
  have "sched_step ?w now (goto (if \<not> stop_requested ?w \<and> \<not> is_paused ?w then Picks now else AtLoop) ?w)"
    by (rule reads_clock) simp
  then have "sched_step ?w now (one_task_picks now t)" using f by (simp add: one_task_picks_def goto_def)
  with r show ?thesis by (rule reach_step)
qed



text \<open>
  The map can be emptied between the end of the wait and the reading of its first entry,
  which is then undefined.
\<close>

lemma worker_reads_empty_map: "\<exists>st. sched_reach st \<and> pc st = Crashed"
proof -
  let ?t = "\<lparr> run_at = 5, run_in = 0, reschedule_time = 0 \<rparr>"
  let ?s = "sched_clear_tasks (one_task_picks 5 ?t)"
  have "sched_reach (one_task_picks 5 ?t)" by (rule one_task_picks_reach) (simp add: sched_defs Let_def)
  then have r: "sched_reach ?s" by (rule reach_step [OF _ clears])
  have "pc ?s = Picks 5" by (simp add: clear_tasks_props one_task_picks_def)
  moreover have "get_playable_task 5 ?s = Undef"
    by (simp add: get_playable_task_def sched_clear_tasks_def delete_trashed_tasks_def Let_def)
  ultimately have "sched_step ?s 5 (goto Crashed ?s)" by (rule crashes)
  from reach_step [OF r this] show ?thesis by (intro exI conjI) (assumption, simp)
qed

text \<open>
  Taking a task leaves the time of the next run as it was. After a task that runs once the
  worker therefore does not sleep until the next one: it is woken at once, finds nothing
  to play, and does the same again until the time has come.
\<close>

lemma next_run_not_updated:
  "get_playable_task now st = Val (Some tid, st') \<Longrightarrow> reschedule_time (tasks st' tid) \<le> 0 \<Longrightarrow>
    next_run (after_task tid now st') = next_run st"
  by (auto simp: get_playable_task_def after_task_def Let_def split: list.splits if_splits prod.splits)

text \<open>Resuming moves the relative tasks by the time the pause took and leaves the others.\<close>

lemma resume_loop_times:
  "distinct (map snd m) \<Longrightarrow> resume_loop p m new st = (m', st') \<Longrightarrow>
    tasks st' tid = (if tid \<in> snd ` set m \<and> run_in (tasks st tid) > 0
      then (tasks st tid)\<lparr> run_at := run_at (tasks st tid) + p \<rparr> else tasks st tid)"
proof (induction m arbitrary: new st)
  case (Cons e m)
  obtain k i where e: "e = (k, i)" by fastforce
  obtain new1 st1 where r: "resume_one p i new st = (new1, st1)" by fastforce
  have "resume_loop p m new1 st1 = (m', st')" using Cons.prems(2) e r by simp
  with Cons have "tasks st' tid = (if tid \<in> snd ` set m \<and> run_in (tasks st1 tid) > 0
      then (tasks st1 tid)\<lparr> run_at := run_at (tasks st1 tid) + p \<rparr> else tasks st1 tid)" by simp
  moreover have "st1 = (if run_in (tasks st i) > 0 then set_task i ((tasks st i)\<lparr> run_at := run_at (tasks st i) + p \<rparr>) st else st)"
    using r by (auto simp: resume_one_def Let_def)
  ultimately show ?case using Cons.prems(1) e by (auto simp: set_task_def)
qed simp

end
