(* ===== verification/Sihd_Synchronizer.thy ===== *)
theory Sihd_Synchronizer
  imports Sihd_Prelude
begin

text \<open>
  util/Synchronizer.cpp, the barrier behind a synchronised start, and its use in
  util/AThreadedService.cpp and util/AWorkerService.cpp. \<open>n\<close> threads call \<open>sync\<close> again and
  again; every access to an atomic and every locked block is one step. The barrier waits
  for \<open>wanted\<close> callers. Counters are natural numbers: they stay far below \<open>2 ^ 31\<close>.
\<close>

text \<open>
  Inside \<open>sync\<close>: the round has been loaded; the thread was the last one and is about to
  reset the count, then about to start the next round; it waits for the round to end.
\<close>

datatype sync_pc = Outside | Loaded nat | Resets | NextRound | Waits nat

record Synchronizer =
  sync_count :: nat
  wanted_count :: nat
  total_sync_round :: nat
  sync_pcs :: "nat \<Rightarrow> sync_pc"
  calls_done :: "nat \<Rightarrow> nat"

text \<open>\<open>init_sync\<close> takes effect only on a synchronizer whose wanted count is 0; it throws for a total that is not positive.\<close>

definition init_sync :: "int \<Rightarrow> Synchronizer \<Rightarrow> (bool \<times> Synchronizer) option" where
  "init_sync n s =
     (if n \<le> 0 then None
      else if wanted_count s = 0 then Some (True, s\<lparr> wanted_count := nat n \<rparr>)
      else Some (False, s))"

definition new_Synchronizer :: Synchronizer where
  "new_Synchronizer = \<lparr> sync_count = 0, wanted_count = 0, total_sync_round = 0,
     sync_pcs = (\<lambda>_. Outside), calls_done = (\<lambda>_. 0) \<rparr>"

definition reset_sync :: "Synchronizer \<Rightarrow> Synchronizer" where
  "reset_sync s = s\<lparr> total_sync_round := total_sync_round s + 1, sync_count := 0, wanted_count := 0 \<rparr>"

definition pc_to :: "nat \<Rightarrow> sync_pc \<Rightarrow> Synchronizer \<Rightarrow> Synchronizer" where
  "pc_to i p s = s\<lparr> sync_pcs := (sync_pcs s) (i := p) \<rparr>"

definition returns :: "nat \<Rightarrow> Synchronizer \<Rightarrow> Synchronizer" where
  "returns i s = (pc_to i Outside s)\<lparr> calls_done := (calls_done s) (i := Suc (calls_done s i)) \<rparr>"

text \<open>\<open>_sync_count.fetch_add(1) + 1 >= _wanted_count\<close>.\<close>

definition arrive :: "nat \<Rightarrow> nat \<Rightarrow> Synchronizer \<Rightarrow> Synchronizer" where
  "arrive i r s =
     (let s' = s\<lparr> sync_count := sync_count s + 1 \<rparr> in
      pc_to i (if sync_count s + 1 \<ge> wanted_count s then Resets else Waits r) s')"

text \<open>The flag allows a call with a timeout to give up.\<close>

inductive sync_step :: "bool \<Rightarrow> nat \<Rightarrow> Synchronizer \<Rightarrow> Synchronizer \<Rightarrow> bool" for timeouts :: bool and n :: nat where
  loads: "i < n \<Longrightarrow> sync_pcs s i = Outside \<Longrightarrow> sync_step timeouts n s (pc_to i (Loaded (total_sync_round s)) s)"
| arrives: "i < n \<Longrightarrow> sync_pcs s i = Loaded r \<Longrightarrow> sync_step timeouts n s (arrive i r s)"
| resets: "i < n \<Longrightarrow> sync_pcs s i = Resets \<Longrightarrow> sync_step timeouts n s (pc_to i NextRound (s\<lparr> sync_count := 0 \<rparr>))"
| next_round: "i < n \<Longrightarrow> sync_pcs s i = NextRound \<Longrightarrow>
    sync_step timeouts n s (returns i (s\<lparr> total_sync_round := total_sync_round s + 1 \<rparr>))"
| leaves: "i < n \<Longrightarrow> sync_pcs s i = Waits r \<Longrightarrow> total_sync_round s \<noteq> r \<Longrightarrow> sync_step timeouts n s (returns i s)"
| gives_up: "timeouts \<Longrightarrow> i < n \<Longrightarrow> sync_pcs s i = Waits r \<Longrightarrow> sync_step timeouts n s (pc_to i Outside s)"

inductive sync_reach :: "bool \<Rightarrow> nat \<Rightarrow> nat \<Rightarrow> Synchronizer \<Rightarrow> bool" for timeouts :: bool and n wanted :: nat where
  sync_init: "sync_reach timeouts n wanted (new_Synchronizer\<lparr> wanted_count := wanted \<rparr>)"
| sync_next: "sync_reach timeouts n wanted s \<Longrightarrow> sync_step timeouts n s s' \<Longrightarrow> sync_reach timeouts n wanted s'"

section \<open>The barrier\<close>

text \<open>While threads gather, one that waits does so in the current round, or has yet to notice that the last one is over.\<close>

fun gathers :: "nat \<Rightarrow> nat \<Rightarrow> sync_pc \<Rightarrow> bool" where
  "gathers r d Outside \<longleftrightarrow> d = r"
| "gathers r d (Loaded r') \<longleftrightarrow> r' = r \<and> d = r"
| "gathers r d (Waits r') \<longleftrightarrow> r' = d \<and> (d = r \<or> Suc d = r)"
| "gathers r d _ \<longleftrightarrow> False"

definition waiting :: "nat \<Rightarrow> Synchronizer \<Rightarrow> nat set" where
  "waiting n s = {i. i < n \<and> sync_pcs s i = Waits (total_sync_round s)}"

definition gathering :: "nat \<Rightarrow> Synchronizer \<Rightarrow> bool" where
  "gathering n s \<longleftrightarrow> (\<forall>i < n. gathers (total_sync_round s) (calls_done s i) (sync_pcs s i)) \<and>
     sync_count s = card (waiting n s)"

text \<open>The last thread ends the round while all others wait in it.\<close>

definition closing :: "nat \<Rightarrow> Synchronizer \<Rightarrow> nat \<Rightarrow> bool" where
  "closing n s i \<longleftrightarrow> i < n \<and> calls_done s i = total_sync_round s \<and>
     (sync_pcs s i = Resets \<or> sync_pcs s i = NextRound \<and> sync_count s = 0) \<and>
     (\<forall>j < n. j \<noteq> i \<longrightarrow> sync_pcs s j = Waits (total_sync_round s) \<and> calls_done s j = total_sync_round s)"

definition barrier_inv :: "nat \<Rightarrow> Synchronizer \<Rightarrow> bool" where
  "barrier_inv n s \<longleftrightarrow> (gathering n s \<and> card (waiting n s) < wanted_count s \<or> n = wanted_count s \<and> (\<exists>i. closing n s i)) \<and>
     n \<le> wanted_count s"

lemma finite_waiting [simp]: "finite (waiting n s)"
  by (simp add: waiting_def)

lemma waiting_full:
  assumes "i < n" "i \<notin> waiting n s" "n \<le> Suc (card (waiting n s))" "j < n" "j \<noteq> i"
  shows "j \<in> waiting n s"
proof -
  have sub: "insert i (waiting n s) \<subseteq> {..<n}" using assms(1) by (auto simp: waiting_def)
  moreover have "card {..<n} \<le> card (insert i (waiting n s))" using assms(2,3) by simp
  ultimately have "insert i (waiting n s) = {..<n}" by (intro card_seteq) auto
  with assms(4,5) show ?thesis by blast
qed

lemma waiting_le: "card (waiting n s) \<le> n"
proof -
  have "waiting n s \<subseteq> {..<n}" by (auto simp: waiting_def)
  from card_mono [OF _ this] show ?thesis by simp
qed

lemma waiting_cong:
  "total_sync_round s' = total_sync_round s \<Longrightarrow> (\<And>j. j < n \<Longrightarrow> sync_pcs s' j = Waits (total_sync_round s) \<longleftrightarrow>
    sync_pcs s j = Waits (total_sync_round s)) \<Longrightarrow> waiting n s' = waiting n s"
  by (auto simp: waiting_def)

lemmas sync_defs = pc_to_def returns_def arrive_def

lemma barrier_step_gathering:
  assumes "sync_step False n s s'" "gathering n s" "card (waiting n s) < wanted_count s" "n \<le> wanted_count s"
  shows "barrier_inv n s'"
  using assms(1)
proof cases
  case (loads i)
  then have "waiting n s' = waiting n s" by (intro waiting_cong) (auto simp: sync_defs)
  with loads assms show ?thesis by (auto simp: barrier_inv_def gathering_def sync_defs)
next
  case (arrives i r)
  have r: "r = total_sync_round s" "calls_done s i = total_sync_round s"
    using assms(2) arrives by (auto simp: gathering_def)
  have ni: "i \<notin> waiting n s" using arrives by (simp add: waiting_def)
  have c: "sync_count s = card (waiting n s)" using assms(2) by (simp add: gathering_def)
  show ?thesis
  proof (cases "sync_count s + 1 \<ge> wanted_count s")
    case True
    have le: "card (waiting n s) + 1 \<le> n"
      using card_mono [of "{..<n}" "insert i (waiting n s)"] ni arrives(2) by (auto simp: waiting_def)
    then have n: "n = wanted_count s" using True c assms(4) by simp
    have "j \<in> waiting n s" if "j < n" "j \<noteq> i" for j
      using that waiting_full [OF arrives(2) ni] True c n by simp
    then have "sync_pcs s j = Waits (total_sync_round s) \<and> calls_done s j = total_sync_round s" if "j < n" "j \<noteq> i" for j
      using that assms(2) by (fastforce simp: waiting_def gathering_def)
    then have "closing n s' i" using arrives True r by (simp add: closing_def sync_defs Let_def)
    then show ?thesis using n arrives by (auto simp: barrier_inv_def sync_defs Let_def)
  next
    case False
    have "waiting n s' = insert i (waiting n s)"
      using arrives False r by (auto simp: waiting_def sync_defs Let_def)
    then have w: "card (waiting n s') = Suc (card (waiting n s))" using ni by simp
    have "gathering n s'" using assms(2) arrives False r w by (auto simp: gathering_def sync_defs Let_def)
    moreover have "wanted_count s' = wanted_count s" using arrives by (simp add: sync_defs Let_def)
    ultimately show ?thesis using w False c assms(4) by (simp add: barrier_inv_def)
  qed
next
  case (leaves i r)
  have "Suc (calls_done s i) = total_sync_round s" using assms(2) leaves by (auto simp: gathering_def)
  moreover have "waiting n s' = waiting n s" using leaves by (intro waiting_cong) (auto simp: sync_defs)
  ultimately show ?thesis using leaves assms by (auto simp: barrier_inv_def gathering_def sync_defs)
qed (use assms in \<open>auto simp: gathering_def\<close>)

lemma barrier_step_closing:
  assumes "sync_step False n s s'" "closing n s i" "n = wanted_count s"
  shows "barrier_inv n s'"
  using assms(1)
proof cases
  case (resets j)
  then have "j = i" using assms(2) by (auto simp: closing_def)
  with resets assms(2) have "closing n s' i" by (simp add: closing_def sync_defs)
  then show ?thesis using resets assms(3) by (auto simp: barrier_inv_def sync_defs)
next
  case (next_round j)
  then have j: "j = i" using assms(2) by (auto simp: closing_def)
  have "waiting n s' = {}" using next_round assms(2) j by (auto simp: waiting_def closing_def sync_defs)
  moreover have "gathering n s'"
    using next_round assms(2) j calculation by (auto simp: gathering_def closing_def sync_defs)
  ultimately show ?thesis using next_round assms(2,3) by (auto simp: barrier_inv_def closing_def sync_defs)
next
  case (loads j)
  then show ?thesis using assms(2) by (cases "j = i") (auto simp: closing_def)
next
  case (arrives j r)
  then show ?thesis using assms(2) by (cases "j = i") (auto simp: closing_def)
next
  case (leaves j r)
  then show ?thesis using assms(2) by (cases "j = i") (auto simp: closing_def)
qed simp

lemma barrier_reach: "sync_reach False n wanted s \<Longrightarrow> n \<le> wanted \<Longrightarrow> 0 < wanted \<Longrightarrow> barrier_inv n s \<and> wanted_count s = wanted"
proof (induction rule: sync_reach.induct)
  case sync_init
  then show ?case by (auto simp: barrier_inv_def gathering_def waiting_def new_Synchronizer_def)
next
  case (sync_next s s')
  then have inv: "barrier_inv n s" "wanted_count s = wanted" by auto
  have "wanted_count s' = wanted_count s"
    using sync_next.hyps(2) by cases (auto simp: sync_defs Let_def)
  with inv sync_next.hyps(2) show ?case
    unfolding barrier_inv_def [of n s] using barrier_step_gathering barrier_step_closing by metis
qed

text \<open>The calls a thread has begun.\<close>

definition calls_begun :: "Synchronizer \<Rightarrow> nat \<Rightarrow> nat" where
  "calls_begun s i = calls_done s i + (if sync_pcs s i = Outside then 0 else 1)"

lemma calls_around_round:
  assumes "sync_reach False n n s" and "0 < n" and "i < n"
  shows "calls_done s i \<le> total_sync_round s \<and> total_sync_round s \<le> calls_begun s i"
proof -
  from barrier_reach [OF assms(1)] assms(2) have "barrier_inv n s" by auto
  then have "gathers (total_sync_round s) (calls_done s i) (sync_pcs s i) \<or> (calls_done s i = total_sync_round s)"
    using assms(3) by (auto simp: barrier_inv_def gathering_def closing_def)
  then show ?thesis by (cases "sync_pcs s i") (auto simp: calls_begun_def)
qed


text \<open>With fewer threads than it waits for, no call ever returns.\<close>

lemma sync_never_returns:
  assumes "sync_reach False n wanted s" "n < wanted" "i < n"
  shows "calls_done s i = 0"
proof -
  have "total_sync_round s = 0 \<and> barrier_inv n s \<and> wanted_count s = wanted"
    using assms(1)
  proof (induction rule: sync_reach.induct)
    case sync_init
    then show ?case using assms(2) by (auto simp: barrier_inv_def gathering_def waiting_def new_Synchronizer_def)
  next
    case (sync_next s s')
    have "barrier_inv n s' \<and> wanted_count s' = wanted"
      using barrier_reach [OF sync_reach.sync_next [OF sync_next.hyps]] assms(2) by simp
    have nn: "sync_pcs s j \<noteq> NextRound" if "j < n" for j
      using sync_next.IH assms(2) that by (auto simp: barrier_inv_def gathering_def)
    from sync_next.hyps(2) have "total_sync_round s' = total_sync_round s"
      by cases (auto simp: sync_defs Let_def dest: nn)
    with \<open>barrier_inv n s' \<and> _\<close> show ?case using sync_next.IH by simp
  qed
  then show ?thesis using assms(2,3) by (cases "sync_pcs s i") (auto simp: barrier_inv_def gathering_def)
qed





text \<open>
  A call that gives up leaves its arrival in the count: one thread that calls twice passes a
  barrier for two, without the other.
\<close>

lemma timeout_breaks_barrier:
  "\<exists>s. sync_reach True 2 2 s \<and> calls_done s 0 = 1 \<and> calls_begun s 1 = 0"
proof -
  let ?s0 = "new_Synchronizer\<lparr> wanted_count := 2 \<rparr>"
  let ?s2 = "arrive 0 0 (pc_to 0 (Loaded 0) ?s0)"
  let ?s3 = "pc_to 0 Outside ?s2"
  let ?s5 = "arrive 0 0 (pc_to 0 (Loaded 0) ?s3)"
  let ?s6 = "pc_to 0 NextRound (?s5\<lparr> sync_count := 0 \<rparr>)"
  let ?s7 = "returns 0 (?s6\<lparr> total_sync_round := total_sync_round ?s6 + 1 \<rparr>)"
  note d = new_Synchronizer_def sync_defs Let_def
  have "sync_step True 2 ?s0 (pc_to 0 (Loaded (total_sync_round ?s0)) ?s0)" by (rule loads) (simp_all add: d)
  then have "sync_reach True 2 2 (pc_to 0 (Loaded 0) ?s0)" using sync_next [OF sync_init] by (simp add: d)
  then have "sync_reach True 2 2 ?s2" by (rule sync_next) (rule arrives, simp_all add: d)
  then have "sync_reach True 2 2 ?s3" by (rule sync_next) (rule gives_up, simp_all add: d)
  moreover have "sync_step True 2 ?s3 (pc_to 0 (Loaded (total_sync_round ?s3)) ?s3)" by (rule loads) (simp_all add: d)
  ultimately have "sync_reach True 2 2 (pc_to 0 (Loaded 0) ?s3)" using sync_next by (fastforce simp: d)
  then have "sync_reach True 2 2 ?s5" by (rule sync_next) (rule arrives, simp_all add: d)
  then have "sync_reach True 2 2 ?s6" by (rule sync_next) (rule resets, simp_all add: d)
  then have "sync_reach True 2 2 ?s7" by (rule sync_next) (rule next_round, simp_all add: d)
  moreover have "calls_done ?s7 0 = 1 \<and> calls_begun ?s7 1 = 0" by (simp add: d calls_begun_def)
  ultimately show ?thesis by blast
qed

section \<open>Service threads\<close>

text \<open>
  \<open>set_service_nb_thread\<close> makes a synchronizer for the threads of the service and the one
  that starts it. Each service thread calls \<open>notify_service_thread_started\<close> before it does
  its work, but \<open>do_start\<close> takes part only in a synchronised start.
\<close>

definition set_service_nb_thread :: "nat \<Rightarrow> Synchronizer option" where
  "set_service_nb_thread nb =
     (if nb > 0 then Some (new_Synchronizer\<lparr> wanted_count := nb + 1 \<rparr>) else None)"

definition sync_callers :: "bool \<Rightarrow> nat \<Rightarrow> nat" where
  "sync_callers start_synchronised nb = (if start_synchronised then nb + 1 else nb)"

text \<open>Without a synchronised start no service thread ever gets to its work, and a stop waits for it forever.\<close>

lemma unsynchronised_start_blocks:
  assumes "sync_reach False (sync_callers False nb) (nb + 1) s" "i < nb"
  shows "calls_done s i = 0"
  using sync_never_returns [OF assms(1)] assms(2) by (simp add: sync_callers_def)

lemma synchronised_start_barrier:
  assumes "sync_reach False (sync_callers True nb) (nb + 1) s" "i \<le> nb" "j \<le> nb"
  shows "calls_done s i \<le> calls_begun s j"
  using calls_around_round [of "nb + 1" s i] calls_around_round [of "nb + 1" s j] assms by (simp add: sync_callers_def)

end
