(* ===== verification/Sihd_Node.thy ===== *)
theory Sihd_Node
  imports Sihd_Splitter
begin

text \<open>
  The tree of named objects: util/Named.cpp and util/Node.cpp. Objects live in a heap, a map
  from addresses to objects in which a deleted object is absent; using one is undefined. The
  virtual methods \<open>on_add_child\<close> and \<open>on_check_link\<close> are arguments (the default ones return
  true), \<open>on_remove_child\<close> does nothing. The separator is a dot.
\<close>

type_synonym addr = nat

record ChildEntry =
  ce_name :: string
  ce_obj :: addr
  ce_ownership :: bool

record object =
  ob_name :: string
  ob_parent :: "addr option"
  ob_is_node :: bool
  children_map :: "string \<rightharpoonup> ChildEntry"
  children_keys :: "string list"
  link_map :: "string \<rightharpoonup> string"
  link_keys :: "string list"

type_synonym heap = "addr \<rightharpoonup> object"

definition deref :: "heap \<Rightarrow> addr \<Rightarrow> object cxx" where
  "deref h a = (case h a of Some ob \<Rightarrow> Val ob | None \<Rightarrow> Undef)"

lemma deref_Some [simp]: "h a = Some ob \<Longrightarrow> deref h a = Val ob"
  by (simp add: deref_def)

lemma cxx_bind_Raise_iff: "cxx_bind m f = Raise e \<longleftrightarrow> m = Raise e \<or> (\<exists>x. m = Val x \<and> f x = Raise e)"
  by (cases m) auto

lemma deref_Val: "deref h a = Val ob \<longleftrightarrow> h a = Some ob"
  by (simp add: deref_def split: option.split)

section \<open>Children\<close>

text \<open>The constructor without a parent.\<close>

definition new_object :: "string \<Rightarrow> bool \<Rightarrow> object" where
  "new_object n is_node = \<lparr> ob_name = n, ob_parent = None, ob_is_node = is_node, children_map = Map.empty,
     children_keys = [], link_map = Map.empty, link_keys = [] \<rparr>"

definition set_parent :: "addr \<Rightarrow> addr \<Rightarrow> heap \<Rightarrow> (bool \<times> heap) cxx" where
  "set_parent a p h = cxx_bind (deref h a) (\<lambda>ob.
     let h = (if ob_parent ob = None then h(a \<mapsto> ob\<lparr> ob_parent := Some p \<rparr>) else h) in
     cxx_bind (deref h a) (\<lambda>ob. Val (ob_parent ob = Some p, h)))"

definition cget_child :: "heap \<Rightarrow> addr \<Rightarrow> string \<Rightarrow> addr option cxx" where
  "cget_child h a name = cxx_bind (deref h a) (\<lambda>ob. Val (map_option ce_obj (children_map ob name)))"

text \<open>\<open>add_child(name, child, ownership)\<close> of the node \<open>a\<close>.\<close>

definition add_child :: "(string \<Rightarrow> addr \<Rightarrow> bool) \<Rightarrow> addr \<Rightarrow> string \<Rightarrow> addr \<Rightarrow> bool \<Rightarrow> heap \<Rightarrow> (bool \<times> heap) cxx" where
  "add_child on_add_child a name child ownership h =
     cxx_bind (cget_child h a name) (\<lambda>existing.
     if existing \<noteq> None then Val (False, h)
     else if \<not> on_add_child name child then Val (False, h)
     else
       cxx_bind (deref h child) (\<lambda>c.
       cxx_bind (if ob_parent c = None then cxx_bind (set_parent child a h) (\<lambda>(_, h). Val h) else Val h) (\<lambda>h.
       cxx_bind (deref h a) (\<lambda>ob.
         let entry = \<lparr> ce_name = name, ce_obj = child, ce_ownership = ownership \<rparr> in
         Val (True, h(a \<mapsto> ob\<lparr> children_map := (children_map ob)(name \<mapsto> entry),
                               children_keys := children_keys ob @ [name] \<rparr>))))))"

definition add_named_child :: "(string \<Rightarrow> addr \<Rightarrow> bool) \<Rightarrow> addr \<Rightarrow> addr \<Rightarrow> bool \<Rightarrow> heap \<Rightarrow> (bool \<times> heap) cxx" where
  "add_named_child on_add_child a child ownership h =
     cxx_bind (deref h child) (\<lambda>c. add_child on_add_child a (ob_name c) child ownership h)"

text \<open>The constructor with a parent, at a fresh address.\<close>

definition add_child_unsafe :: "(string \<Rightarrow> addr \<Rightarrow> bool) \<Rightarrow> addr \<Rightarrow> addr \<Rightarrow> bool \<Rightarrow> heap \<Rightarrow> heap cxx" where
  "add_child_unsafe on_add_child a child ownership h =
     cxx_bind (add_named_child on_add_child a child ownership h) (\<lambda>(ok, h).
       if ok then Val h else Raise InvalidArgument)"

definition new_named :: "(string \<Rightarrow> addr \<Rightarrow> bool) \<Rightarrow> string \<Rightarrow> bool \<Rightarrow> addr option \<Rightarrow> addr \<Rightarrow> heap \<Rightarrow> heap cxx" where
  "new_named on_add_child n is_node parent a h =
     (let h = h(a \<mapsto> new_object n is_node) in
      case parent of None \<Rightarrow> Val h | Some p \<Rightarrow> add_child_unsafe on_add_child p a True h)"

definition has_ownership :: "heap \<Rightarrow> addr \<Rightarrow> string \<Rightarrow> bool cxx" where
  "has_ownership h a name = cxx_bind (deref h a) (\<lambda>ob.
     Val (case children_map ob name of None \<Rightarrow> False | Some e \<Rightarrow> ce_ownership e))"

definition set_child_ownership :: "addr \<Rightarrow> string \<Rightarrow> bool \<Rightarrow> heap \<Rightarrow> (bool \<times> heap) cxx" where
  "set_child_ownership a name ownership h = cxx_bind (deref h a) (\<lambda>ob.
     case children_map ob name of
       None \<Rightarrow> Val (False, h)
     | Some e \<Rightarrow> Val (True, h(a \<mapsto> ob\<lparr> children_map := (children_map ob)(name \<mapsto> e\<lparr> ce_ownership := ownership \<rparr>) \<rparr>)))"

definition is_owned_by_parent :: "heap \<Rightarrow> addr \<Rightarrow> bool cxx" where
  "is_owned_by_parent h a = cxx_bind (deref h a) (\<lambda>ob.
     case ob_parent ob of None \<Rightarrow> Val False | Some p \<Rightarrow> has_ownership h p (ob_name ob))"

definition set_parent_ownership :: "addr \<Rightarrow> bool \<Rightarrow> heap \<Rightarrow> (bool \<times> heap) cxx" where
  "set_parent_ownership a ownership h = cxx_bind (deref h a) (\<lambda>ob.
     case ob_parent ob of None \<Rightarrow> Val (False, h) | Some p \<Rightarrow> set_child_ownership p (ob_name ob) ownership h)"

text \<open>
  Deleting an object runs \<open>remove_children\<close> of a node, which deletes the owned children.
  An object that owns itself would be deleted without end: the first argument bounds the
  depth, and the bound running out counts as undefined.
\<close>

fun destroy :: "nat \<Rightarrow> addr \<Rightarrow> heap \<Rightarrow> heap cxx"
and remove_entries :: "nat \<Rightarrow> string list \<Rightarrow> (string \<rightharpoonup> ChildEntry) \<Rightarrow> heap \<Rightarrow> heap cxx" where
  "destroy 0 a h = Undef"
| "destroy (Suc n) a h = cxx_bind (deref h a) (\<lambda>ob.
     cxx_bind (if ob_is_node ob then remove_entries n (children_keys ob) (children_map ob) h else Val h) (\<lambda>h.
       if h a = None then Undef else Val (h(a := None))))"
| "remove_entries n [] m h = Val h"
| "remove_entries n (name # names) m h =
     (case m name of
        None \<Rightarrow> Raise OutOfRange
      | Some e \<Rightarrow>
          cxx_bind (if ce_ownership e then destroy n (ce_obj e) h else Val h) (\<lambda>h. remove_entries n names m h))"

definition remove_children :: "nat \<Rightarrow> addr \<Rightarrow> heap \<Rightarrow> heap cxx" where
  "remove_children n a h = cxx_bind (deref h a) (\<lambda>ob.
     cxx_bind (remove_entries n (children_keys ob) (children_map ob) h) (\<lambda>h.
     cxx_bind (deref h a) (\<lambda>ob. Val (h(a \<mapsto> ob\<lparr> children_map := Map.empty, children_keys := [] \<rparr>)))))"

definition remove_child :: "nat \<Rightarrow> addr \<Rightarrow> string \<Rightarrow> heap \<Rightarrow> (bool \<times> heap) cxx" where
  "remove_child n a name h = cxx_bind (deref h a) (\<lambda>ob.
     case children_map ob name of
       None \<Rightarrow> Val (False, h)
     | Some e \<Rightarrow>
         cxx_bind (if ce_ownership e then destroy n (ce_obj e) h else Val h) (\<lambda>h.
         cxx_bind (deref h a) (\<lambda>ob.
           Val (True, h(a \<mapsto> ob\<lparr> children_keys := remove1 (ce_name e) (children_keys ob),
                                 children_map := (children_map ob)(ce_name e := None) \<rparr>)))))"

section \<open>Paths\<close>



partial_function (option) topmost :: "heap \<Rightarrow> addr \<Rightarrow> addr cxx option" where
  "topmost h a =
     (case h a of
        None \<Rightarrow> Some Undef
      | Some ob \<Rightarrow> (case ob_parent ob of None \<Rightarrow> Some (Val a) | Some p \<Rightarrow> topmost h p))"

text \<open>An object without a parent is its own root only if it is a node.\<close>

definition croot :: "heap \<Rightarrow> addr \<Rightarrow> addr option cxx option" where
  "croot h a =
     (case h a of
        None \<Rightarrow> Some Undef
      | Some ob \<Rightarrow>
          (case ob_parent ob of
             None \<Rightarrow> Some (Val (if ob_is_node ob then Some a else None))
           | Some p \<Rightarrow> map_option (\<lambda>r. cxx_bind r (\<lambda>t. Val (Some t))) (topmost h p)))"

definition dot_splitter :: Splitter where
  "dot_splitter = set_delimiter_char \<lparr> sp_escape_char = escape_char, sp_empty_delimitations = False,
     sp_delimiter = [], sp_open_sequences = [], sp_compare_method = None \<rparr> 46"

fun cfind_tokens :: "heap \<Rightarrow> string list \<Rightarrow> addr option \<Rightarrow> addr option cxx" where
  "cfind_tokens h [] child = Val child"
| "cfind_tokens h (name # names) child =
     (case child of
        None \<Rightarrow> Val None
      | Some c \<Rightarrow> cxx_bind (deref h c) (\<lambda>ob.
          if \<not> ob_is_node ob then Val None
          else cxx_bind (cget_child h c name) (\<lambda>found.
            if found = None then Val None else cfind_tokens h names found)))"

definition cfind_from :: "heap \<Rightarrow> addr option \<Rightarrow> string \<Rightarrow> addr option cxx" where
  "cfind_from h from_obj path = cfind_tokens h (split dot_splitter path (length path)) from_obj"

text \<open>The leading dots: each one after the first goes to the parent, and the start again when there is none.\<close>

fun leading_dots :: "heap \<Rightarrow> addr \<Rightarrow> string \<Rightarrow> addr option \<Rightarrow> addr option cxx" where
  "leading_dots h this [] current = Val current"
| "leading_dots h this (c # cs) current =
     (if c = CHR ''.'' then
        case current of
          None \<Rightarrow> leading_dots h this cs (Some this)
        | Some a \<Rightarrow> cxx_bind (deref h a) (\<lambda>ob. leading_dots h this cs (ob_parent ob))
      else Val current)"

definition cfind :: "heap \<Rightarrow> addr \<Rightarrow> string \<Rightarrow> addr option cxx option" where
  "cfind h this path =
     (if path \<noteq> [] \<and> hd path = CHR ''.'' then
        Some (cxx_bind (leading_dots h this path None) (\<lambda>current. cfind_from h current path))
      else if path \<noteq> [] \<and> hd path = CHR ''/'' then
        map_option (\<lambda>r. cxx_bind r (\<lambda>root. cfind_from h root (tl path))) (croot h this)
      else Some (cfind_from h (Some this) path))"

text \<open>The path before the last dot and the name after it.\<close>

definition parent_path :: "string \<Rightarrow> string \<times> string" where
  "parent_path path =
     (case rfind_char path (CHR ''.'') (length path) of
        None \<Rightarrow> (path, [])
      | Some i \<Rightarrow> (take i path, drop (i + 1) path))"

section \<open>Links\<close>

definition is_link :: "heap \<Rightarrow> addr \<Rightarrow> string \<Rightarrow> bool cxx" where
  "is_link h a name = cxx_bind (deref h a) (\<lambda>ob. Val (link_map ob name \<noteq> None))"

definition add_link :: "addr \<Rightarrow> string \<Rightarrow> string \<Rightarrow> heap \<Rightarrow> (bool \<times> heap) cxx" where
  "add_link a link path h = cxx_bind (deref h a) (\<lambda>ob.
     if link_map ob link \<noteq> None then Val (False, h)
     else Val (True, h(a \<mapsto> ob\<lparr> link_map := (link_map ob)(link \<mapsto> path), link_keys := link_keys ob @ [link] \<rparr>)))"

text \<open>Erasing the end iterator of the keys of an unknown link is undefined.\<close>

definition remove_link :: "addr \<Rightarrow> string \<Rightarrow> heap \<Rightarrow> (bool \<times> heap) cxx" where
  "remove_link a link h = cxx_bind (deref h a) (\<lambda>ob.
     if link \<notin> set (link_keys ob) then Undef
     else Val (link_map ob link \<noteq> None,
       h(a \<mapsto> ob\<lparr> link_keys := remove1 link (link_keys ob), link_map := (link_map ob)(link := None) \<rparr>)))"


text \<open>
  Resolving: a link whose path is not found yet asks the parent of the target to resolve its
  own links first, to a depth of \<open>SIHD_NODE_MAX_LINK_RECURSION\<close>; the first argument is what
  is left of it. A chain of parents that never ends counts as undefined.
\<close>

definition max_link_recursion :: nat where "max_link_recursion = 20"

fun finished :: "'a cxx option \<Rightarrow> 'a cxx" where
  "finished None = Undef"
| "finished (Some r) = r"

function resolve_link :: "nat \<Rightarrow> (string \<Rightarrow> addr \<Rightarrow> bool) \<Rightarrow> (string \<Rightarrow> addr \<Rightarrow> bool) \<Rightarrow> addr \<Rightarrow> string \<Rightarrow> heap \<Rightarrow> (addr option \<times> heap) cxx"
and resolve_links_loop :: "nat \<Rightarrow> (string \<Rightarrow> addr \<Rightarrow> bool) \<Rightarrow> (string \<Rightarrow> addr \<Rightarrow> bool) \<Rightarrow> addr \<Rightarrow> string list \<Rightarrow> bool \<Rightarrow> heap \<Rightarrow> (bool \<times> heap) cxx" where
  "resolve_link 0 on_add on_check a path h =
     cxx_bind (finished (cfind h a path)) (\<lambda>child.
       if child \<noteq> None then Val (child, h) else Raise LengthError)"
| "resolve_link (Suc d) on_add on_check a path h =
     cxx_bind (finished (cfind h a path)) (\<lambda>child.
       if child \<noteq> None then Val (child, h)
       else cxx_bind (finished (cfind h a (fst (parent_path path)))) (\<lambda>named.
         case named of
           None \<Rightarrow> Val (None, h)
         | Some p \<Rightarrow> cxx_bind (deref h p) (\<lambda>ob.
             if \<not> ob_is_node ob then Val (None, h)
             else cxx_bind (resolve_links_loop d on_add on_check p (link_keys ob) True h) (\<lambda>(_, h).
               cxx_bind (finished (cfind h a path)) (\<lambda>child. Val (child, h))))))"
| "resolve_links_loop d on_add on_check a [] ret h = Val (ret, h)"
| "resolve_links_loop d on_add on_check a (link # links) ret h =
     cxx_bind (deref h a) (\<lambda>ob.
       case link_map ob link of
         None \<Rightarrow> Raise OutOfRange
       | Some path \<Rightarrow> cxx_bind (resolve_link d on_add on_check a path h) (\<lambda>(child, h).
           case child of
             None \<Rightarrow> Val (False, h)
           | Some c \<Rightarrow>
               if on_check link c
               then cxx_bind (add_child on_add a link c False h) (\<lambda>(_, h). resolve_links_loop d on_add on_check a links ret h)
               else resolve_links_loop d on_add on_check a links False h))"
  by pat_completeness auto
termination
  by (relation "inv_image (less_than <*lex*> less_than) (\<lambda>x. case x of
        Inl (d, _, _, _, _, _) \<Rightarrow> (2 * d, 0)
      | Inr (d, _, _, _, links, _, _) \<Rightarrow> (2 * d + 1, length links))") auto

definition resolve_links :: "(string \<Rightarrow> addr \<Rightarrow> bool) \<Rightarrow> (string \<Rightarrow> addr \<Rightarrow> bool) \<Rightarrow> addr \<Rightarrow> heap \<Rightarrow> (bool \<times> heap) cxx" where
  "resolve_links on_add on_check a h =
     cxx_bind (deref h a) (\<lambda>ob. resolve_links_loop max_link_recursion on_add on_check a (link_keys ob) True h)"

section \<open>Well-formed trees\<close>

text \<open>The list of keys has the names of the map, once each, in the order of insertion.\<close>

definition object_ok :: "object \<Rightarrow> bool" where
  "object_ok ob \<longleftrightarrow> distinct (children_keys ob) \<and> set (children_keys ob) = dom (children_map ob) \<and>
     (\<forall>n e. children_map ob n = Some e \<longrightarrow> ce_name e = n) \<and>
     distinct (link_keys ob) \<and> set (link_keys ob) = dom (link_map ob)"

definition heap_ok :: "heap \<Rightarrow> bool" where
  "heap_ok h \<longleftrightarrow> (\<forall>a ob. h a = Some ob \<longrightarrow> object_ok ob)"

lemma heap_ok_upd: "heap_ok h \<Longrightarrow> object_ok ob \<Longrightarrow> heap_ok (h(a \<mapsto> ob))"
  by (simp add: heap_ok_def)

lemma heap_okD: "heap_ok h \<Longrightarrow> h a = Some ob \<Longrightarrow> object_ok ob"
  by (simp add: heap_ok_def)

lemma new_object_ok: "object_ok (new_object n b)"
  by (simp add: object_ok_def new_object_def)

lemma object_ok_parent [simp]: "object_ok (ob\<lparr> ob_parent := p \<rparr>) = object_ok ob"
  by (simp add: object_ok_def)

lemma set_parent_ok: "heap_ok h \<Longrightarrow> set_parent a p h = Val (b, h') \<Longrightarrow> heap_ok h'"
  by (auto simp: set_parent_def cxx_bind_Val_iff deref_Val Let_def split: if_splits intro!: heap_ok_upd dest: heap_okD)

lemma set_parent_keeps: "set_parent a p h = Val (b, h') \<Longrightarrow> h x = Some ob \<Longrightarrow>
    \<exists>ob'. h' x = Some ob' \<and> children_map ob' = children_map ob \<and> children_keys ob' = children_keys ob"
  by (auto simp: set_parent_def cxx_bind_Val_iff deref_Val Let_def split: if_splits)

text \<open>What \<open>add_child\<close> does.\<close>

lemma add_childE:
  assumes "add_child on_add a name child own h = Val (ok, h')"
  obtains (refused) "\<not> ok" "h' = h"
  | (added) ob h1 ob1 where "ok" "h a = Some ob" "children_map ob name = None"
      "h1 = h \<or> (\<exists>b. set_parent child a h = Val (b, h1))" "h1 a = Some ob1"
      "children_map ob1 = children_map ob" "children_keys ob1 = children_keys ob"
      "h' = h1(a \<mapsto> ob1\<lparr> children_map := (children_map ob1)(name \<mapsto> \<lparr> ce_name = name, ce_obj = child, ce_ownership = own \<rparr>),
                        children_keys := children_keys ob1 @ [name] \<rparr>)"
proof -
  from assms obtain ob where ob: "h a = Some ob" by (auto simp: add_child_def cget_child_def cxx_bind_Val_iff deref_Val)
  show thesis
  proof (cases "children_map ob name = None \<and> on_add name child")
    case True
    with assms ob obtain c h1 ob1 where c: "h child = Some c" "h1 a = Some ob1" "ok"
      and h1: "(if ob_parent c = None then cxx_bind (set_parent child a h) (\<lambda>(_, h). Val h) else Val h) = Val h1"
      and h': "h' = h1(a \<mapsto> ob1\<lparr> children_map := (children_map ob1)(name \<mapsto> \<lparr> ce_name = name, ce_obj = child, ce_ownership = own \<rparr>),
                        children_keys := children_keys ob1 @ [name] \<rparr>)"
      by (auto simp: add_child_def cget_child_def cxx_bind_Val_iff deref_Val Let_def)
    from h1 have h1: "h1 = h \<or> (\<exists>b. set_parent child a h = Val (b, h1))"
      by (auto simp: cxx_bind_Val_iff split: if_splits)
    then have "children_map ob1 = children_map ob" "children_keys ob1 = children_keys ob"
      using ob c(2) set_parent_keeps [of child a h _ h1 a ob] by auto
    with added ob True c h1 h' show thesis by blast
  next
    case False
    with assms ob have "\<not> ok \<and> h' = h"
      by (cases "children_map ob name") (auto simp: add_child_def cget_child_def)
    then show thesis using refused by blast
  qed
qed

lemma add_child_ok:
  assumes "heap_ok h" "add_child on_add a name child own h = Val (ok, h')"
  shows "heap_ok h'"
  using assms(2)
proof (cases rule: add_childE)
  case (added ob h1 ob1)
  have h1: "heap_ok h1" using added(4) assms(1) set_parent_ok by blast
  from heap_okD [OF h1 added(5)] added(3,6) show ?thesis
    unfolding added(8) by (intro heap_ok_upd h1) (auto simp: object_ok_def)
qed (use assms(1) in simp)

section \<open>Finding objects by their path\<close>

text \<open>The node reached by following children, and the ancestor some levels up.\<close>

fun walk :: "heap \<Rightarrow> addr \<Rightarrow> string list \<Rightarrow> addr option" where
  "walk h a [] = (if h a = None then None else Some a)"
| "walk h a (n # ns) =
     (case h a of
        None \<Rightarrow> None
      | Some ob \<Rightarrow>
          if ob_is_node ob
          then case children_map ob n of None \<Rightarrow> None | Some e \<Rightarrow> walk h (ce_obj e) ns
          else None)"

fun ancestor :: "heap \<Rightarrow> nat \<Rightarrow> addr \<Rightarrow> addr option" where
  "ancestor h 0 a = (if h a = None then None else Some a)"
| "ancestor h (Suc k) a =
     (case h a of
        None \<Rightarrow> None
      | Some ob \<Rightarrow> (case ob_parent ob of None \<Rightarrow> None | Some p \<Rightarrow> ancestor h k p))"

lemma cfind_tokens_walk: "walk h a ns = Some b \<Longrightarrow> cfind_tokens h ns (Some a) = Val (Some b)"
  by (induction ns arbitrary: a) (auto simp: cget_child_def split: option.splits if_splits)

lemma topmost_ancestor:
  "ancestor h k x = Some r \<Longrightarrow> h r = Some ob \<Longrightarrow> ob_parent ob = None \<Longrightarrow> topmost h x = Some (Val r)"
  by (induction h k x rule: ancestor.induct; subst topmost.simps) (auto split: option.splits if_splits)

lemma croot_ancestor:
  "ancestor h k x = Some r \<Longrightarrow> h r = Some ob \<Longrightarrow> ob_parent ob = None \<Longrightarrow> ob_is_node ob \<Longrightarrow>
    croot h x = Some (Val (Some r))"
  using topmost_ancestor [of h "k - 1" _ r ob]
  by (cases k) (auto simp: croot_def split: option.splits if_splits)

text \<open>Names that can be part of a path.\<close>

definition plain_name :: "string \<Rightarrow> bool" where
  "plain_name n \<longleftrightarrow> n \<noteq> [] \<and> no_nul n \<and> CHR ''.'' \<notin> set n"

lemma dot_splitter_plain: "plain_splitter dot_splitter ''.'' \<and> \<not> sp_empty_delimitations dot_splitter"
proof -
  have "char_of (of_char (CHR ''.'') :: int) = CHR ''.''" by (rule char_of_char)
  then have "char_of (46 :: int) = CHR ''.''" by simp
  then show ?thesis by (simp add: dot_splitter_def plain_splitter_def set_delimiter_char_def)
qed

text \<open>Without empty delimitations leading delimiters make no token.\<close>

lemma skip_leading:
  assumes "\<not> sp_empty_delimitations sp" "i < len" "get_delimiter_offset sp (drop i s) = 1"
  shows "next_token sp s len i = next_token sp s len (Suc i)"
    and "Suc i < len \<Longrightarrow> count_tokens_loop sp s len i c = count_tokens_loop sp s len (Suc i) c"
proof -
  have pass: "pass_delimiters sp s len i c 0 = pass_delimiters sp s len (Suc i) c 1" for c
    using assms by (simp add: pass_go)
  obtain j c' d' where p: "pass_delimiters sp s len i c 0 = (j, c', d')" by (metis prod_cases3)
  have "\<exists>d''. pass_delimiters sp s len (Suc i) c 0 = (j, c', d'')"
    using p pass by (metis assms(1) pass_delimiters_counters pass_delimiters_index prod_cases3 add_0_right)
  then obtain d'' where q: "pass_delimiters sp s len (Suc i) c 0 = (j, c', d'')" by blast
  then show "Suc i < len \<Longrightarrow> count_tokens_loop sp s len i c = count_tokens_loop sp s len (Suc i) c"
    using count_tokens_loop_round [OF assms(2) p] count_tokens_loop_round [OF _ q] assms(1) by simp
  have "fst (pass_delimiters sp s len i 0 0) = fst (pass_delimiters sp s len (Suc i) 0 0)"
    using pass [of 0] by (metis pass_delimiters_index prod_cases3)
  then show "next_token sp s len i = next_token sp s len (Suc i)"
    by (simp add: next_token_def skip_delimiters_pass [OF assms(1)])
qed

lemma join_length: "ns \<noteq> [] \<Longrightarrow> \<forall>n \<in> set ns. n \<noteq> [] \<Longrightarrow> 0 < length (join ns d)"
  by (cases "(ns, d)" rule: join.cases) auto

lemma split_path:
  assumes "ns \<noteq> []" "\<forall>n \<in> set ns. plain_name n"
  shows "split dot_splitter (replicate k (CHR ''.'') @ join ns ''.'')
    (length (replicate k (CHR ''.'') @ join ns ''.'')) = ns"
proof -
  let ?s = "replicate k (CHR ''.'') @ join ns ''.''"
  let ?sp = dot_splitter
  note d = conjunct1 [OF dot_splitter_plain] conjunct2 [OF dot_splitter_plain]
  have nul: "no_nul ?s" using assms(2) no_nul_join [of "''.''" ns] by (auto simp: plain_name_def no_nul_def)
  have plain: "plain_text ?sp ?s" using nul by (simp add: dot_splitter_def set_delimiter_char_def)
  have ok: "\<forall>t \<in> set ns. hd ''.'' \<notin> set t \<and> (sp_empty_delimitations ?sp \<or> t \<noteq> [])"
    using assms(2) by (simp add: plain_name_def)
  have len: "k < length ?s" using join_length [OF assms(1)] assms(2) by (simp add: plain_name_def)
  have skip: "j < k \<Longrightarrow> next_token ?sp ?s (length ?s) 0 = next_token ?sp ?s (length ?s) j \<and>
      count_tokens_loop ?sp ?s (length ?s) 0 0 = count_tokens_loop ?sp ?s (length ?s) j 0" for j
  proof (induction j)
    case (Suc j)
    have "get_delimiter_offset ?sp (drop j ?s) = 1"
      using Suc.prems by (cases "k - j") (simp_all add: plain_offset [OF d(1)])
    with Suc len skip_leading(1) [OF d(2), of j "length ?s" ?s] skip_leading(2) [OF d(2), of j "length ?s" ?s 0] show ?case by simp
  qed simp
  have "fst (next_tokens ?sp ?s (length ?s) (length ns) (k - 1)) = ns \<and>
      count_tokens_loop ?sp ?s (length ?s) (k - 1) 0 = length ns"
  proof (cases k)
    case 0
    with tokens_plain [OF d(1) plain assms(1), of "[]" "[]" 0] ok assms show ?thesis by (auto simp: plain_name_def)
  next
    case (Suc m)
    then have "?s = replicate m (CHR ''.'') @ ''.'' @ join ns ''.''" by (simp add: replicate_append_same [symmetric])
    from tokens_plain [OF d(1) plain assms(1) this ok, of 0] Suc show ?thesis by simp
  qed
  moreover have "fst (next_tokens ?sp ?s (length ?s) (length ns) 0) = fst (next_tokens ?sp ?s (length ?s) (length ns) (k - 1))"
    using skip [of "k - 1"] assms(1) by (cases "length ns"; cases k) simp_all
  moreover have "count_tokens_loop ?sp ?s (length ?s) 0 0 = count_tokens_loop ?sp ?s (length ?s) (k - 1) 0"
    using skip [of "k - 1"] by (cases k) simp_all
  ultimately show ?thesis using d by (simp add: split_def count_tokens_def plain_splitter_def)
qed

lemma cfind_from_walk:
  "ns \<noteq> [] \<Longrightarrow> \<forall>n \<in> set ns. plain_name n \<Longrightarrow> walk h a ns = Some b \<Longrightarrow>
    cfind_from h (Some a) (replicate k (CHR ''.'') @ join ns ''.'') = Val (Some b)"
  using split_path [of ns k] cfind_tokens_walk [of h a ns b] by (simp add: cfind_from_def)

lemma leading_dots_ancestor:
  "ancestor h k x = Some r \<Longrightarrow> s = [] \<or> hd s \<noteq> CHR ''.'' \<Longrightarrow>
    leading_dots h this (replicate k (CHR ''.'') @ s) (Some x) = Val (Some r)"
  by (induction h k x rule: ancestor.induct; cases s) (auto split: option.splits if_splits)

text \<open>A tree of three nodes: root owns a, a owns b.\<close>

definition sample_tree :: heap where
  "sample_tree = [0 \<mapsto> (new_object ''root'' True)\<lparr>
       children_map := [''a'' \<mapsto> \<lparr> ce_name = ''a'', ce_obj = 1, ce_ownership = True \<rparr>], children_keys := [''a''] \<rparr>,
     1 \<mapsto> (new_object ''a'' True)\<lparr> ob_parent := Some 0,
       children_map := [''b'' \<mapsto> \<lparr> ce_name = ''b'', ce_obj = 2, ce_ownership = True \<rparr>], children_keys := [''b''] \<rparr>,
     2 \<mapsto> (new_object ''b'' False)\<lparr> ob_parent := Some 1 \<rparr>]"

lemma cfind_absolute:
  assumes "walk h a ns = Some b" and "ns \<noteq> []" and "\<forall>n \<in> set ns. plain_name n" and "ancestor h k x = Some a"
    and "map_option (\<lambda>ob. (ob_parent ob, ob_is_node ob)) (h a) = Some (None, True)"
  shows "cfind h x (''/'' @ join ns ''.'') = Some (Val (Some b))"
proof -
  have "croot h x = Some (Val (Some a))" using croot_ancestor [OF assms(4)] assms(5) by auto
  with cfind_from_walk [OF assms(2,3,1), of 0] show ?thesis by (simp add: cfind_def)
qed

text \<open>C30. The object reached from \<open>a\<close> by following the names \<open>ns\<close> is found by the names joined
  with dots: from \<open>a\<close>, from any object below \<open>a\<close> with one more dot in front than there are
  levels between, and with a slash in front from any object of the tree when \<open>a\<close> is its root.\<close>

theorem cfind_follows_path:
  assumes "walk h a ns = Some b" and "ns \<noteq> []" and "\<forall>n \<in> set ns. plain_name n" and "ancestor h k x = Some a"
  shows "(hd (hd ns) \<noteq> CHR ''/'' \<longrightarrow> cfind h a (join ns ''.'') = Some (Val (Some b))) \<and>
    cfind h x (replicate (Suc k) (CHR ''.'') @ join ns ''.'') = Some (Val (Some b)) \<and>
    (map_option (\<lambda>ob. (ob_parent ob, ob_is_node ob)) (h a) = Some (None, True) \<longrightarrow>
       cfind h x (''/'' @ join ns ''.'') = Some (Val (Some b)))"
proof (intro conjI impI)
  note find = cfind_from_walk [OF assms(2,3,1)]
  obtain n ms where ns: "ns = n # ms" "n \<noteq> []" "hd n \<noteq> CHR ''.''"
    using assms(2,3) by (cases ns) (use hd_in_set in \<open>fastforce simp: plain_name_def\<close>)+
  then have hd: "join ns ''.'' \<noteq> []" "hd (join ns ''.'') = hd n" by (cases ms; simp)+
  show "cfind h a (join ns ''.'') = Some (Val (Some b))" if "hd (hd ns) \<noteq> CHR ''/''"
    using find [of 0] ns hd that by (simp add: cfind_def)
  have "leading_dots h x (replicate (Suc k) (CHR ''.'') @ join ns ''.'') None = Val (Some a)"
    using leading_dots_ancestor [OF assms(4), of "join ns ''.''" x] hd ns by simp
  with find [of "Suc k"] show "cfind h x (replicate (Suc k) (CHR ''.'') @ join ns ''.'') = Some (Val (Some b))"
    by (simp add: cfind_def)
qed (rule cfind_absolute [OF assms])

theorem cfind_follows_path_witness:
  "cfind sample_tree 2 (''..'' @ ''.'' @ ''a.b'') = Some (Val (Some 2)) \<and> cfind sample_tree 2 (''/a.b'') = Some (Val (Some 2))"
  using cfind_follows_path [of sample_tree 0 "[''a'', ''b'']" 2 2 2]
  by (simp add: sample_tree_def new_object_def plain_name_def no_nul_def numeral_2_eq_2)

text \<open>The names of the objects themselves below \<open>a\<close>, with their parents.\<close>

definition own_child :: "heap \<Rightarrow> addr \<Rightarrow> string \<Rightarrow> addr \<Rightarrow> bool" where
  "own_child h a n c \<longleftrightarrow> map_option (\<lambda>ob. (ob_name ob, ob_parent ob)) (h c) = Some (n, Some a) \<and>
     map_option ob_is_node (h a) = Some True"

fun own_path :: "heap \<Rightarrow> addr \<Rightarrow> string list \<Rightarrow> addr \<Rightarrow> bool" where
  "own_path h a [] b \<longleftrightarrow> a = b \<and> h a \<noteq> None"
| "own_path h a (n # ns) b \<longleftrightarrow>
     (case cget_child h a n of Val (Some c) \<Rightarrow> own_child h a n c \<and> own_path h c ns b | _ \<Rightarrow> False)"

lemma own_path_Cons:
  "own_path h a (n # ns) b \<longleftrightarrow> (\<exists>c. cget_child h a n = Val (Some c) \<and> own_child h a n c \<and> own_path h c ns b)"
  by (auto split: cxx.splits option.splits)

declare own_path.simps(2) [simp del]
declare own_path_Cons [simp]








section \<open>Deleting a tree\<close>

text \<open>
  \<open>owned h a S\<close>: the objects that \<open>a\<close> owns through any number of levels, itself included, are
  alive, are those in \<open>S\<close>, and each is owned once.
\<close>

inductive owned :: "heap \<Rightarrow> addr \<Rightarrow> addr set \<Rightarrow> bool"
and owned_entries :: "heap \<Rightarrow> ChildEntry list \<Rightarrow> addr set \<Rightarrow> bool" for h where
  leaf: "h a = Some ob \<Longrightarrow> \<not> ob_is_node ob \<Longrightarrow> owned h a {a}"
| node: "h a = Some ob \<Longrightarrow> ob_is_node ob \<Longrightarrow> set (children_keys ob) \<subseteq> dom (children_map ob) \<Longrightarrow>
    owned_entries h (map (\<lambda>n. the (children_map ob n)) (children_keys ob)) S \<Longrightarrow> a \<notin> S \<Longrightarrow> owned h a (insert a S)"
| no_entry: "owned_entries h [] {}"
| not_owned: "\<not> ce_ownership e \<Longrightarrow> owned_entries h es S \<Longrightarrow> owned_entries h (e # es) S"
| is_owned: "ce_ownership e \<Longrightarrow> owned h (ce_obj e) S \<Longrightarrow> owned_entries h es T \<Longrightarrow> S \<inter> T = {} \<Longrightarrow>
    owned_entries h (e # es) (S \<union> T)"

inductive_cases owned_entries_NilE: "owned_entries h [] S"






section \<open>Operations keep the trees well formed\<close>

lemma destroy_heap_ok:
  shows "destroy n a h = Val h' \<Longrightarrow> heap_ok h \<Longrightarrow> heap_ok h'"
    and "remove_entries n names m h = Val h' \<Longrightarrow> heap_ok h \<Longrightarrow> heap_ok h'"
  by (induction n a h and n names m h arbitrary: h' and h' rule: destroy_remove_entries.induct)
    (auto simp: cxx_bind_Val_iff deref_Val heap_ok_def split: if_splits option.splits)

lemma resolve_links_heap_ok:
  shows "resolve_link d on_add on_check a path h = Val (c, h') \<Longrightarrow> heap_ok h \<Longrightarrow> heap_ok h'"
    and "resolve_links_loop d on_add on_check a links ret h = Val (b, h') \<Longrightarrow> heap_ok h \<Longrightarrow> heap_ok h'"
proof (induction d on_add on_check a path h and d on_add on_check a links ret h
    arbitrary: c h' and b h' rule: resolve_link_resolve_links_loop.induct)
  case (4 d on_add on_check a link links ret h)
  then show ?case
    by (fastforce simp: cxx_bind_Val_iff deref_Val split: if_splits option.splits dest: add_child_ok)
qed (fastforce simp: cxx_bind_Val_iff deref_Val split: if_splits option.splits)+

inductive tree_step :: "(string \<Rightarrow> addr \<Rightarrow> bool) \<Rightarrow> (string \<Rightarrow> addr \<Rightarrow> bool) \<Rightarrow> heap \<Rightarrow> heap \<Rightarrow> bool" for on_add on_check where
  step_new: "h a = None \<Longrightarrow> new_named on_add n is_node parent a h = Val h' \<Longrightarrow> tree_step on_add on_check h h'"
| step_add: "add_child on_add a n c own h = Val (ok, h') \<Longrightarrow> tree_step on_add on_check h h'"
| step_own: "set_child_ownership a n own h = Val (ok, h') \<Longrightarrow> tree_step on_add on_check h h'"
| step_parent_own: "set_parent_ownership a own h = Val (ok, h') \<Longrightarrow> tree_step on_add on_check h h'"
| step_parent: "set_parent a p h = Val (ok, h') \<Longrightarrow> tree_step on_add on_check h h'"
| step_remove: "remove_child d a n h = Val (ok, h') \<Longrightarrow> tree_step on_add on_check h h'"
| step_remove_all: "remove_children d a h = Val h' \<Longrightarrow> tree_step on_add on_check h h'"
| step_delete: "destroy d a h = Val h' \<Longrightarrow> tree_step on_add on_check h h'"
| step_link: "add_link a l path h = Val (ok, h') \<Longrightarrow> tree_step on_add on_check h h'"
| step_unlink: "remove_link a l h = Val (ok, h') \<Longrightarrow> tree_step on_add on_check h h'"
| step_resolve: "resolve_links on_add on_check a h = Val (ok, h') \<Longrightarrow> tree_step on_add on_check h h'"

lemma new_named_ok: "heap_ok h \<Longrightarrow> new_named on_add n is_node parent a h = Val h' \<Longrightarrow> heap_ok h'"
  using heap_ok_upd [OF _ new_object_ok, of h a n is_node]
  by (auto simp: new_named_def Let_def add_child_unsafe_def add_named_child_def cxx_bind_Val_iff deref_Val
      split: option.splits if_splits dest: add_child_ok)

lemma object_ok_own:
  "object_ok ob \<Longrightarrow> children_map ob n = Some e \<Longrightarrow>
    object_ok (ob\<lparr> children_map := (children_map ob)(n \<mapsto> e\<lparr> ce_ownership := own \<rparr>) \<rparr>)"
  by (auto simp: object_ok_def)

lemma object_ok_unchild:
  "object_ok ob \<Longrightarrow> object_ok (ob\<lparr> children_keys := remove1 n (children_keys ob), children_map := (children_map ob)(n := None) \<rparr>)"
  by (auto simp: object_ok_def)

lemma object_ok_no_children: "object_ok ob \<Longrightarrow> object_ok (ob\<lparr> children_map := Map.empty, children_keys := [] \<rparr>)"
  by (simp add: object_ok_def)

lemma object_ok_link:
  "object_ok ob \<Longrightarrow> link_map ob l = None \<Longrightarrow>
    object_ok (ob\<lparr> link_map := (link_map ob)(l \<mapsto> path), link_keys := link_keys ob @ [l] \<rparr>)"
  by (auto simp: object_ok_def)

lemma object_ok_unlink:
  "object_ok ob \<Longrightarrow> object_ok (ob\<lparr> link_keys := remove1 l (link_keys ob), link_map := (link_map ob)(l := None) \<rparr>)"
  by (auto simp: object_ok_def)

lemmas object_ok_intros = heap_ok_upd object_ok_own object_ok_unchild object_ok_no_children object_ok_link object_ok_unlink

lemma object_ops_ok:
  "heap_ok h \<Longrightarrow> set_child_ownership a n own h = Val (ok, h') \<Longrightarrow> heap_ok h'"
  by (cases "children_map (the (h a)) n")
    (auto simp: set_child_ownership_def cxx_bind_Val_iff deref_Val intro!: object_ok_intros dest: heap_okD [of h a])

lemma remove_ok:
  assumes "heap_ok h"
  shows "remove_child d a n h = Val (ok, h') \<Longrightarrow> heap_ok h'"
    and "remove_children d a h = Val h' \<Longrightarrow> heap_ok h'"
proof -
  note ok = destroy_heap_ok [OF _ assms]
  have unchild: "heap_ok (g(a \<mapsto> ob\<lparr> children_keys := remove1 k (children_keys ob), children_map := (children_map ob)(k := None) \<rparr>))"
    and none: "heap_ok (g(a \<mapsto> ob\<lparr> children_map := Map.empty, children_keys := [] \<rparr>))"
    if "heap_ok g" "g a = Some ob" for g ob k
    using that by (simp_all add: heap_ok_upd object_ok_unchild object_ok_no_children heap_okD)
  show "heap_ok h'" if "remove_child d a n h = Val (ok, h')"
    using that assms
    by (cases "children_map (the (h a)) n")
      (auto simp: remove_child_def cxx_bind_Val_iff deref_Val split: if_splits
        intro!: unchild dest: ok(1))
  show "heap_ok h'" if "remove_children d a h = Val h'"
    using that assms
    by (auto simp: remove_children_def cxx_bind_Val_iff deref_Val intro!: none dest: ok(2))
qed

lemma links_ok:
  "heap_ok h \<Longrightarrow> add_link a l path h = Val (ok, h') \<Longrightarrow> heap_ok h'"
  "heap_ok h \<Longrightarrow> remove_link a l h = Val (ok, h') \<Longrightarrow> heap_ok h'"
  by (auto simp: add_link_def remove_link_def cxx_bind_Val_iff deref_Val split: if_splits
      intro!: object_ok_intros dest: heap_okD [of h a])

lemma remove_entries_no_raise:
  shows "destroy n a g = Raise e \<Longrightarrow> heap_ok g \<Longrightarrow> False"
    and "remove_entries n names m g = Raise e \<Longrightarrow> heap_ok g \<Longrightarrow> set names \<subseteq> dom m \<Longrightarrow> False"
proof (induction n a g and n names m g rule: destroy_remove_entries.induct)
  case (2 n a h)
  from 2(2) obtain ob where "h a = Some ob" "ob_is_node ob" "remove_entries n (children_keys ob) (children_map ob) h = Raise e"
    by (auto simp: cxx_bind_Raise_iff deref_def split: if_splits option.splits)
  moreover from this 2(3) have "set (children_keys ob) \<subseteq> dom (children_map ob)"
    using heap_okD by (fastforce simp: object_ok_def)
  ultimately show ?case using 2 by auto
next
  case (4 n name names m h)
  from 4(5) obtain en where "m name = Some en" by auto
  with 4(3) consider "ce_ownership en" "destroy n (ce_obj en) h = Raise e"
    | h' where "remove_entries n names m h' = Raise e" "h' = h \<or> destroy n (ce_obj en) h = Val h'"
    by (auto simp: cxx_bind_Raise_iff split: if_splits)
  then show ?case
  proof cases
    case 1
    then show ?thesis using 4(1,4) \<open>m name = _\<close> by blast
  next
    case 2
    moreover have "heap_ok h'" using 2(2) 4(4) destroy_heap_ok(1) by blast
    ultimately show ?thesis using 4(2) [of en h'] 4(5) \<open>m name = _\<close> by simp
  qed
qed auto

text \<open>C33. Whatever operations run on objects, the children and the links of every object stay well
  formed: each name stands once in the list of keys, exactly when the map has it, under its own
  name. So removing all children always finds the entry of a key, and a link that exists is
  removed without undefined behaviour.\<close>

theorem trees_stay_well_formed:
  assumes "(tree_step on_add on_check)\<^sup>*\<^sup>* Map.empty h"
  shows "heap_ok h \<and> (\<forall>d a e. remove_children d a h \<noteq> Raise e) \<and>
    (\<forall>a l. is_link h a l = Val True \<longrightarrow> (\<exists>h'. remove_link a l h = Val (True, h') \<and> is_link h' a l = Val False))"
proof -
  have ok: "heap_ok h"
    using assms
  proof induction
    case (step h h')
    from step.hyps(2) step.IH show ?case
      by cases (auto simp: set_parent_ownership_def resolve_links_def cxx_bind_Val_iff deref_Val split: option.splits
          dest: new_named_ok add_child_ok object_ops_ok remove_ok links_ok set_parent_ok
            destroy_heap_ok(1) resolve_links_heap_ok(2))
  qed (simp add: heap_ok_def)
  show ?thesis
  proof (intro conjI allI impI ok notI)
    fix d a e assume r: "remove_children d a h = Raise e"
    then obtain ob where ob: "h a = Some ob" "remove_entries d (children_keys ob) (children_map ob) h = Raise e"
      by (auto simp: remove_children_def cxx_bind_Raise_iff deref_def split: option.splits)
    moreover have "set (children_keys ob) \<subseteq> dom (children_map ob)" using heap_okD [OF ok ob(1)] by (simp add: object_ok_def)
    ultimately show False using remove_entries_no_raise(2) [OF ob(2) ok] by blast
  next
    fix a l assume "is_link h a l = Val True"
    then obtain ob where "h a = Some ob" "l \<in> dom (link_map ob)" by (auto simp: is_link_def cxx_bind_Val_iff deref_Val)
    moreover from this have "l \<in> set (link_keys ob)" using heap_okD [OF ok] by (simp add: object_ok_def)
    ultimately show "\<exists>h'. remove_link a l h = Val (True, h') \<and> is_link h' a l = Val False"
      by (auto simp: remove_link_def is_link_def)
  qed
qed

theorem trees_stay_well_formed_witness:
  "\<exists>h. new_named (\<lambda>_ _. True) ''root'' True None 0 Map.empty = Val h \<and>
    (\<exists>h'. add_link 0 ''l'' ''a.b'' h = Val (True, h') \<and> heap_ok h' \<and>
      (\<exists>h''. remove_link 0 ''l'' h' = Val (True, h'')))"
proof -
  let ?h = "[0 \<mapsto> new_object ''root'' True]"
  have n: "new_named (\<lambda>_ _. True) ''root'' True None 0 Map.empty = Val ?h"
    by (simp add: new_named_def)
  obtain h' where l: "add_link 0 ''l'' ''a.b'' ?h = Val (True, h')"
    by (simp add: add_link_def new_object_def)
  have "(tree_step (\<lambda>_ _. True) (\<lambda>_ _. True))\<^sup>*\<^sup>* Map.empty h'"
    using step_new [OF _ n] step_link [OF l] by (meson converse_rtranclp_into_rtranclp rtranclp.rtrancl_refl)
  from trees_stay_well_formed [OF this] have "heap_ok h'"
    "is_link h' 0 ''l'' = Val True \<longrightarrow> (\<exists>h''. remove_link 0 ''l'' h' = Val (True, h''))" by blast+
  moreover have "is_link h' 0 ''l'' = Val True" using l by (auto simp: add_link_def is_link_def new_object_def)
  ultimately show ?thesis using n l by blast
qed

end
