(* ===== verification/Sihd_Array.thy ===== *)
theory Sihd_Array
  imports Sihd_Chars
begin

text \<open>
  The growing array of util/Array.hpp and the slices of util/Slice.hpp. The buffer is a list of
  cells as long as the capacity, a cell without a value is uninitialised memory, and no buffer
  is the null pointer. \<open>alloc n\<close> tells whether \<open>realloc\<close> provides \<open>n\<close> elements, \<open>mult\<close> is
  \<open>mult_resize_capacity\<close> and \<open>zero\<close> the element whose bytes are 0. Writing behind the buffer,
  reallocating memory that the array does not own, \<open>realloc\<close> of a buffer to size 0 and the loop
  of the growth without an end are undefined. Sizes are below \<open>2 ^ 64\<close>; what is copied in does
  not overlap the buffer.
\<close>

section \<open>State\<close>

record 'a Array =
  buf_ptr :: "'a option list option"
  size_of :: nat
  capacity :: nat
  has_ownership :: bool

definition new_Array :: "'a Array" where
  "new_Array = \<lparr> buf_ptr = None, size_of = 0, capacity = 0, has_ownership = False \<rparr>"

text \<open>\<open>memmove\<close> and \<open>memset\<close> into the buffer.\<close>

definition write_cells :: "nat \<Rightarrow> 'c list \<Rightarrow> 'c list \<Rightarrow> 'c list cxx" where
  "write_cells i xs b = (if i + length xs \<le> length b then Val (take i b @ xs @ drop (i + length xs) b) else Undef)"

section \<open>Capacity\<close>

text \<open>The factor is applied until the wanted capacity is reached, modulo the width of \<open>size_t\<close>.\<close>

partial_function (option) grow :: "nat \<Rightarrow> nat \<Rightarrow> nat \<Rightarrow> nat option" where
  "grow mult new_capacity wanted =
     (if new_capacity < wanted then grow mult (new_capacity * mult mod 2 ^ 64) wanted else Some new_capacity)"

definition new_capacity :: "nat \<Rightarrow> nat \<Rightarrow> nat \<Rightarrow> nat cxx" where
  "new_capacity mult old wanted =
     (if mult > 1 \<and> old > 0 then case grow mult old wanted of None \<Rightarrow> Undef | Some c \<Rightarrow> Val c else Val wanted)"

text \<open>\<open>realloc\<close>: the cells are kept up to the new size, the others uninitialised.\<close>

definition realloc_cells :: "'a Array \<Rightarrow> nat \<Rightarrow> 'a option list" where
  "realloc_cells a cap = (let b = (case buf_ptr a of None \<Rightarrow> [] | Some b \<Rightarrow> b) in
     take cap b @ replicate (cap - length b) None)"

definition internal_reserve :: "nat \<Rightarrow> (nat \<Rightarrow> bool) \<Rightarrow> 'a \<Rightarrow> nat \<Rightarrow> bool \<Rightarrow> 'a Array \<Rightarrow> (bool \<times> 'a Array) cxx" where
  "internal_reserve mult alloc zero wanted clear_mem a =
     cxx_bind (new_capacity mult (capacity a) wanted) (\<lambda>cap.
     if buf_ptr a \<noteq> None \<and> (\<not> has_ownership a \<or> cap = 0) then Undef
     else if \<not> alloc cap then Val (False, a)
     else
       let b = realloc_cells a cap;
           b = (if clear_mem \<and> cap > capacity a
                then take (capacity a) b @ replicate (cap - capacity a) (Some zero) else b) in
       Val (True, \<lparr> buf_ptr = Some b, size_of = min (size_of a) cap, capacity = cap, has_ownership = True \<rparr>))"

definition internal_resize :: "nat \<Rightarrow> (nat \<Rightarrow> bool) \<Rightarrow> 'a \<Rightarrow> nat \<Rightarrow> bool \<Rightarrow> 'a Array \<Rightarrow> (bool \<times> 'a Array) cxx" where
  "internal_resize mult alloc zero n clear_mem a =
     cxx_bind (if buf_ptr a = None \<or> n > capacity a
               then cxx_bind (internal_reserve mult alloc zero n clear_mem a) (\<lambda>(_, a). Val a) else Val a) (\<lambda>a.
       let a = (if buf_ptr a \<noteq> None \<and> n \<le> capacity a then a\<lparr> size_of := n \<rparr> else a) in
       Val (size_of a = n, a))"

definition arr_reserve :: "nat \<Rightarrow> (nat \<Rightarrow> bool) \<Rightarrow> 'a \<Rightarrow> nat \<Rightarrow> 'a Array \<Rightarrow> (bool \<times> 'a Array) cxx" where
  "arr_reserve mult alloc zero n a = internal_reserve mult alloc zero n True a"

definition arr_resize :: "nat \<Rightarrow> (nat \<Rightarrow> bool) \<Rightarrow> 'a \<Rightarrow> nat \<Rightarrow> 'a Array \<Rightarrow> (bool \<times> 'a Array) cxx" where
  "arr_resize mult alloc zero n a = internal_resize mult alloc zero n True a"

definition arr_clear :: "nat \<Rightarrow> (nat \<Rightarrow> bool) \<Rightarrow> 'a \<Rightarrow> 'a Array \<Rightarrow> 'a Array cxx" where
  "arr_clear mult alloc zero a = cxx_bind (arr_resize mult alloc zero 0 a) (\<lambda>(_, a). Val a)"

definition byte_resize :: "nat \<Rightarrow> (nat \<Rightarrow> bool) \<Rightarrow> 'a \<Rightarrow> nat \<Rightarrow> nat \<Rightarrow> 'a Array \<Rightarrow> (bool \<times> 'a Array) cxx" where
  "byte_resize mult alloc zero data_size n a =
     (if n mod data_size \<noteq> 0 then Raise InvalidArgument else arr_resize mult alloc zero (n div data_size) a)"

definition byte_reserve :: "nat \<Rightarrow> (nat \<Rightarrow> bool) \<Rightarrow> 'a \<Rightarrow> nat \<Rightarrow> nat \<Rightarrow> 'a Array \<Rightarrow> (bool \<times> 'a Array) cxx" where
  "byte_reserve mult alloc zero data_size n a =
     (if n mod data_size \<noteq> 0 then Raise InvalidArgument else arr_reserve mult alloc zero (n div data_size) a)"

section \<open>Buffers\<close>

text \<open>Freeing the buffer has no value of its own here: afterwards there is none.\<close>

definition delete_buffer :: "'a Array \<Rightarrow> 'a Array" where
  "delete_buffer a = a\<lparr> size_of := 0, capacity := 0, buf_ptr := None, has_ownership := False \<rparr>"

definition set_buffer_ownership :: "bool \<Rightarrow> 'a Array \<Rightarrow> 'a Array" where
  "set_buffer_ownership active a = a\<lparr> has_ownership := active \<rparr>"

text \<open>Taking over a buffer \<open>b\<close> that is not the array's own.\<close>

definition arr_assign :: "'a option list \<Rightarrow> nat \<Rightarrow> nat \<Rightarrow> 'a Array \<Rightarrow> bool \<times> 'a Array" where
  "arr_assign b n cap a = (True, (delete_buffer a)\<lparr> buf_ptr := Some b, size_of := n, capacity := cap, has_ownership := False \<rparr>)"

definition assign_bytes :: "nat \<Rightarrow> 'a option list \<Rightarrow> nat \<Rightarrow> nat \<Rightarrow> 'a Array \<Rightarrow> (bool \<times> 'a Array) cxx" where
  "assign_bytes data_size b n cap a =
     (if n mod data_size \<noteq> 0 then Raise InvalidArgument
      else if cap mod data_size \<noteq> 0 then Raise InvalidArgument
      else Val (arr_assign b (n div data_size) (cap div data_size) a))"

text \<open>Copying in: \<open>from\<close>, \<open>insert\<close> and the pushes.\<close>

definition arr_from :: "nat \<Rightarrow> (nat \<Rightarrow> bool) \<Rightarrow> 'a \<Rightarrow> 'a option list \<Rightarrow> 'a Array \<Rightarrow> (bool \<times> 'a Array) cxx" where
  "arr_from mult alloc zero xs a =
     (let a = (if \<not> has_ownership a then delete_buffer a else a) in
      cxx_bind (internal_resize mult alloc zero (length xs) False a) (\<lambda>(ok, a).
      cxx_bind (if ok then
                  (case buf_ptr a of
                     None \<Rightarrow> if xs = [] then Val a else Undef
                   | Some b \<Rightarrow> cxx_bind (write_cells 0 xs b) (\<lambda>b. Val (a\<lparr> buf_ptr := Some b, size_of := length xs \<rparr>)))
                else Val a) (\<lambda>a.
        Val (buf_ptr a \<noteq> None, a))))"

definition from_bytes :: "nat \<Rightarrow> (nat \<Rightarrow> bool) \<Rightarrow> 'a \<Rightarrow> nat \<Rightarrow> nat \<Rightarrow> 'a option list \<Rightarrow> 'a Array \<Rightarrow> (bool \<times> 'a Array) cxx" where
  "from_bytes mult alloc zero data_size n xs a =
     (if n mod data_size \<noteq> 0 then Raise InvalidArgument else arr_from mult alloc zero (take (n div data_size) xs) a)"

definition arr_insert :: "nat \<Rightarrow> (nat \<Rightarrow> bool) \<Rightarrow> 'a \<Rightarrow> 'a option list \<Rightarrow> nat \<Rightarrow> 'a Array \<Rightarrow> (bool \<times> 'a Array) cxx" where
  "arr_insert mult alloc zero xs idx a =
     (if idx > size_of a then Val (False, a)
      else
        cxx_bind (if size_of a + length xs > capacity a
                  then cxx_bind (internal_reserve mult alloc zero (size_of a + length xs) False a) (\<lambda>(_, a). Val a)
                  else Val a) (\<lambda>a.
          case buf_ptr a of
            None \<Rightarrow> Val (False, a)
          | Some b \<Rightarrow>
              let len_move = size_of a - idx in
              cxx_bind (if len_move > 0 then write_cells (idx + length xs) (take len_move (drop idx b)) b else Val b) (\<lambda>b.
              cxx_bind (write_cells idx xs b) (\<lambda>b.
                Val (True, a\<lparr> buf_ptr := Some b, size_of := size_of a + length xs \<rparr>)))))"

definition push_back_all :: "nat \<Rightarrow> (nat \<Rightarrow> bool) \<Rightarrow> 'a \<Rightarrow> 'a option list \<Rightarrow> 'a Array \<Rightarrow> (bool \<times> 'a Array) cxx" where
  "push_back_all mult alloc zero xs a = arr_insert mult alloc zero xs (size_of a) a"

definition push_front_all :: "nat \<Rightarrow> (nat \<Rightarrow> bool) \<Rightarrow> 'a \<Rightarrow> 'a option list \<Rightarrow> 'a Array \<Rightarrow> (bool \<times> 'a Array) cxx" where
  "push_front_all mult alloc zero xs a = arr_insert mult alloc zero xs 0 a"

definition push_front :: "nat \<Rightarrow> (nat \<Rightarrow> bool) \<Rightarrow> 'a \<Rightarrow> 'a \<Rightarrow> 'a Array \<Rightarrow> (bool \<times> 'a Array) cxx" where
  "push_front mult alloc zero v a = arr_insert mult alloc zero [Some v] 0 a"

definition push_back :: "nat \<Rightarrow> (nat \<Rightarrow> bool) \<Rightarrow> 'a \<Rightarrow> 'a \<Rightarrow> 'a Array \<Rightarrow> (bool \<times> 'a Array) cxx" where
  "push_back mult alloc zero v a =
     cxx_bind (internal_resize mult alloc zero (size_of a + 1) False a) (\<lambda>(ok, a).
     cxx_bind (if ok then
                 (case buf_ptr a of
                    None \<Rightarrow> Undef
                  | Some b \<Rightarrow> cxx_bind (write_cells (size_of a - 1) [Some v] b) (\<lambda>b. Val (a\<lparr> buf_ptr := Some b \<rparr>)))
               else Val a) (\<lambda>a.
       Val (buf_ptr a \<noteq> None, a)))"

section \<open>Elements\<close>

definition arr_pop :: "'a \<Rightarrow> nat \<Rightarrow> 'a Array \<Rightarrow> 'a Array cxx" where
  "arr_pop zero idx a =
     (if idx \<ge> size_of a then Raise OutOfRange
      else case buf_ptr a of
        None \<Rightarrow> Undef
      | Some b \<Rightarrow>
          let len = size_of a - (idx + 1) in
          cxx_bind (write_cells idx (take len (drop (idx + 1) b)) b) (\<lambda>b.
          cxx_bind (write_cells (size_of a - 1) [Some zero] b) (\<lambda>b.
            Val (a\<lparr> buf_ptr := Some b, size_of := size_of a - 1 \<rparr>))))"

text \<open>For an empty array \<open>_size - 1\<close> is the greatest \<open>size_t\<close>.\<close>

definition size_minus_1 :: "'a Array \<Rightarrow> nat" where
  "size_minus_1 a = (if size_of a = 0 then 2 ^ 64 - 1 else size_of a - 1)"

definition pop_back :: "'a \<Rightarrow> 'a Array \<Rightarrow> 'a Array cxx" where
  "pop_back zero a = arr_pop zero (size_minus_1 a) a"

definition pop_front :: "'a \<Rightarrow> 'a Array \<Rightarrow> 'a Array cxx" where
  "pop_front zero a = arr_pop zero 0 a"

definition arr_set :: "nat \<Rightarrow> 'a \<Rightarrow> 'a Array \<Rightarrow> 'a Array cxx" where
  "arr_set idx v a =
     (if idx \<ge> size_of a then Raise OutOfRange
      else case buf_ptr a of
        None \<Rightarrow> Undef
      | Some b \<Rightarrow> if idx < length b then Val (a\<lparr> buf_ptr := Some (b[idx := Some v]) \<rparr>) else Undef)"

text \<open>Reading an uninitialised cell is undefined.\<close>

definition arr_at :: "nat \<Rightarrow> 'a Array \<Rightarrow> 'a cxx" where
  "arr_at idx a =
     (if idx \<ge> size_of a then Raise OutOfRange
      else case buf_ptr a of
        None \<Rightarrow> Undef
      | Some b \<Rightarrow> if idx < length b then case b ! idx of None \<Rightarrow> Undef | Some v \<Rightarrow> Val v else Undef)"

definition arr_front :: "'a Array \<Rightarrow> 'a cxx" where
  "arr_front a = arr_at 0 a"

definition arr_back :: "'a Array \<Rightarrow> 'a cxx" where
  "arr_back a = arr_at (size_minus_1 a) a"

definition arr_copy_assign :: "nat \<Rightarrow> (nat \<Rightarrow> bool) \<Rightarrow> 'a \<Rightarrow> 'a Array \<Rightarrow> 'a Array \<Rightarrow> 'a Array cxx" where
  "arr_copy_assign mult alloc zero other a =
     cxx_bind (arr_from mult alloc zero (case buf_ptr other of None \<Rightarrow> [] | Some b \<Rightarrow> take (size_of other) b) (delete_buffer a))
       (\<lambda>(_, a). Val a)"

text \<open>Moving: the new array and what is left of the other.\<close>

definition arr_move_assign :: "'a Array \<Rightarrow> 'a Array \<Rightarrow> 'a Array \<times> 'a Array" where
  "arr_move_assign other a =
     (\<lparr> buf_ptr = buf_ptr other, size_of = size_of other, capacity = capacity other, has_ownership = has_ownership other \<rparr>,
      other\<lparr> buf_ptr := None, capacity := 0, size_of := 0, has_ownership := False \<rparr>)"

definition arr_of_data :: "nat \<Rightarrow> (nat \<Rightarrow> bool) \<Rightarrow> 'a \<Rightarrow> 'a option list \<Rightarrow> 'a Array cxx" where
  "arr_of_data mult alloc zero xs =
     cxx_bind (internal_reserve mult alloc zero (length xs) False new_Array) (\<lambda>(_, a).
     cxx_bind (push_back_all mult alloc zero xs a) (\<lambda>(_, a). Val a))"

definition arr_of_capacity :: "nat \<Rightarrow> (nat \<Rightarrow> bool) \<Rightarrow> 'a \<Rightarrow> nat \<Rightarrow> 'a Array cxx" where
  "arr_of_capacity mult alloc zero cap =
     (if cap > 0 then cxx_bind (internal_reserve mult alloc zero cap True new_Array) (\<lambda>(_, a). Val a) else Val new_Array)"

text \<open>From any container: its values are pushed one by one.\<close>

fun push_all :: "('a \<Rightarrow> 's \<Rightarrow> (bool \<times> 's) cxx) \<Rightarrow> 'a list \<Rightarrow> 's \<Rightarrow> 's cxx" where
  "push_all push [] a = Val a"
| "push_all push (v # vs) a = cxx_bind (push v a) (\<lambda>(_, a). push_all push vs a)"

definition arr_of_container :: "nat \<Rightarrow> (nat \<Rightarrow> bool) \<Rightarrow> 'a \<Rightarrow> 'a list \<Rightarrow> 'a Array cxx" where
  "arr_of_container mult alloc zero vs =
     cxx_bind (arr_reserve mult alloc zero (length vs) new_Array) (\<lambda>(_, a). push_all (push_back mult alloc zero) vs a)"

section \<open>Slices\<close>

text \<open>Bounds from the end when negative; the result is the range from the first to behind the last.\<close>

record Slice =
  sl_from :: int
  sl_to :: int

record Range =
  rg_from :: nat
  rg_to :: nat

definition range_size :: "Range \<Rightarrow> nat" where
  "range_size r = rg_to r - rg_from r"

definition range_empty :: "Range \<Rightarrow> bool" where
  "range_empty r \<longleftrightarrow> rg_from r \<ge> rg_to r"

definition clamp :: "int \<Rightarrow> int \<Rightarrow> int \<Rightarrow> int" where
  "clamp v lo hi = (if v < lo then lo else if hi < v then hi else v)"

definition resolve :: "Slice \<Rightarrow> nat \<Rightarrow> Range" where
  "resolve s n =
     (let sz = int n;
          f = (if sl_from s < 0 then sl_from s + sz else sl_from s);
          t = (if sl_to s < 0 then sl_to s + sz else sl_to s);
          f = clamp f 0 sz;
          t = clamp t (-1) (sz - 1) in
      if f > t then \<lparr> rg_from = 0, rg_to = 0 \<rparr> else \<lparr> rg_from = nat f, rg_to = nat (t + 1) \<rparr>)"

definition slice_from_size :: "nat \<Rightarrow> nat \<Rightarrow> Slice" where
  "slice_from_size offset n = \<lparr> sl_from = int offset, sl_to = int offset + int n - 1 \<rparr>"

text \<open>The byte operations, for arrays of bytes.\<close>

definition copy_from_bytes :: "'a option list \<Rightarrow> Slice \<Rightarrow> 'a Array \<Rightarrow> (bool \<times> 'a Array) cxx" where
  "copy_from_bytes xs s a =
     (let r = resolve s (size_of a) in
      if range_empty r \<or> rg_from r + length xs > size_of a then Val (False, a)
      else case buf_ptr a of
        None \<Rightarrow> Undef
      | Some b \<Rightarrow> cxx_bind (write_cells (rg_from r) xs b) (\<lambda>b. Val (True, a\<lparr> buf_ptr := Some b \<rparr>)))"

definition copy_to_bytes :: "Slice \<Rightarrow> 'a Array \<Rightarrow> 'a option list option" where
  "copy_to_bytes s a =
     (let r = resolve s (size_of a) in
      if range_empty r then None
      else Some (take (range_size r) (drop (rg_from r) (case buf_ptr a of None \<Rightarrow> [] | Some b \<Rightarrow> b))))"

definition arr_copy_to :: "nat \<Rightarrow> (nat \<Rightarrow> bool) \<Rightarrow> 'a \<Rightarrow> Slice \<Rightarrow> 'a Array \<Rightarrow> 'a Array \<Rightarrow> (bool \<times> 'a Array) cxx" where
  "arr_copy_to mult alloc zero s a dst =
     (let r = resolve s (size_of a) in
      if range_empty r then Val (False, dst)
      else arr_from mult alloc zero (take (range_size r) (drop (rg_from r) (case buf_ptr a of None \<Rightarrow> [] | Some b \<Rightarrow> b))) dst)"

definition is_bytes_equal :: "'a option list \<Rightarrow> Slice \<Rightarrow> 'a Array \<Rightarrow> bool" where
  "is_bytes_equal xs s a =
     (let r = resolve s (size_of a) in
      if rg_from r + length xs > size_of a then False
      else take (length xs) (drop (rg_from r) (case buf_ptr a of None \<Rightarrow> [] | Some b \<Rightarrow> b)) = xs)"

definition arr_is_equal :: "'a option list \<Rightarrow> nat \<Rightarrow> 'a Array \<Rightarrow> bool" where
  "arr_is_equal xs byte_offset a = is_bytes_equal xs \<lparr> sl_from = int byte_offset, sl_to = -1 \<rparr> a"

section \<open>Iterators\<close>

text \<open>Positions relative to the start of the buffer; a reverse iterator goes down.\<close>

record ArrayIterator =
  it_curr :: int
  it_end :: int
  it_reverse :: bool

definition arr_begin :: "'a Array \<Rightarrow> ArrayIterator" where
  "arr_begin a = \<lparr> it_curr = 0, it_end = int (size_of a), it_reverse = False \<rparr>"

definition arr_end :: "'a Array \<Rightarrow> ArrayIterator" where
  "arr_end a = \<lparr> it_curr = int (size_of a), it_end = int (size_of a), it_reverse = False \<rparr>"

definition arr_rend :: "'a Array \<Rightarrow> ArrayIterator" where
  "arr_rend a = \<lparr> it_curr = -1, it_end = int (size_of a), it_reverse = True \<rparr>"

definition arr_rbegin :: "'a Array \<Rightarrow> ArrayIterator" where
  "arr_rbegin a = (if size_of a = 0 then arr_rend a
     else \<lparr> it_curr = int (size_of a) - 1, it_end = int (size_of a), it_reverse = True \<rparr>)"

definition it_next :: "ArrayIterator \<Rightarrow> ArrayIterator" where
  "it_next it = it\<lparr> it_curr := (if it_reverse it then it_curr it - 1 else it_curr it + 1) \<rparr>"

definition it_add :: "int \<Rightarrow> ArrayIterator \<Rightarrow> ArrayIterator" where
  "it_add i it = it\<lparr> it_curr := (if it_reverse it then it_curr it - i else it_curr it + i) \<rparr>"

definition it_idx :: "ArrayIterator \<Rightarrow> nat" where
  "it_idx it = (if it_curr it < 0 \<or> it_curr it \<ge> it_end it then 2 ^ 64 - 1 else nat (it_curr it))"

definition it_deref :: "'a Array \<Rightarrow> ArrayIterator \<Rightarrow> 'a cxx" where
  "it_deref a it =
     (if it_curr it < 0 \<or> it_curr it \<ge> it_end it then Raise OutOfRange
      else case buf_ptr a of
        None \<Rightarrow> Undef
      | Some b \<Rightarrow> (if nat (it_curr it) < length b then
                      case b ! nat (it_curr it) of None \<Rightarrow> Undef | Some v \<Rightarrow> Val v else Undef))"

text \<open>A loop over a range; the second argument bounds the number of rounds.\<close>

fun it_collect :: "'a Array \<Rightarrow> nat \<Rightarrow> ArrayIterator \<Rightarrow> ArrayIterator \<Rightarrow> 'a list cxx" where
  "it_collect a 0 it stop = (if it_curr it = it_curr stop then Val [] else Undef)"
| "it_collect a (Suc n) it stop =
     (if it_curr it = it_curr stop then Val []
      else cxx_bind (it_deref a it) (\<lambda>v. cxx_bind (it_collect a n (it_next it) stop) (\<lambda>vs. Val (v # vs))))"

section \<open>The array as a list\<close>

definition elements :: "'a Array \<Rightarrow> 'a option list" where
  "elements a = (case buf_ptr a of None \<Rightarrow> [] | Some b \<Rightarrow> take (size_of a) b)"

text \<open>The size never exceeds the capacity, and the capacity is the length of the buffer.\<close>

definition array_ok :: "'a Array \<Rightarrow> bool" where
  "array_ok a \<longleftrightarrow> (case buf_ptr a of
       None \<Rightarrow> size_of a = 0 \<and> capacity a = 0 \<and> \<not> has_ownership a
     | Some b \<Rightarrow> length b = capacity a \<and> size_of a \<le> capacity a)"

text \<open>The array may reallocate its buffer.\<close>

definition owns :: "'a Array \<Rightarrow> bool" where
  "owns a \<longleftrightarrow> buf_ptr a = None \<or> has_ownership a"

lemma grow_enough:
  assumes "2 \<le> mult" "0 < c" "w * mult \<le> 2 ^ 64"
  shows "\<exists>d. grow mult c w = Some d \<and> w \<le> d \<and> c \<le> d \<and> (d = c \<or> d < w * mult)"
  using assms(2)
proof (induction "w - c" arbitrary: c rule: less_induct)
  case less
  show ?case
  proof (cases "c < w")
    case True
    then have "c * mult < w * mult" using assms(1) by simp
    then have "c * mult < 2 ^ 64" using assms(3) by (rule less_le_trans)
    then have m: "c * mult mod 2 ^ 64 = c * mult" by (rule mod_less)
    have lt: "c < c * mult" using less.prems assms(1) by (cases mult) auto
    then obtain d where "grow mult (c * mult) w = Some d" "w \<le> d" "c * mult \<le> d" "d = c * mult \<or> d < w * mult"
      using less.hyps [of "c * mult"] True diff_less_mono2 [OF lt True] by auto
    then show ?thesis using True m lt \<open>c * mult < w * mult\<close> by (subst grow.simps) (auto simp del: power_Suc)
  qed (simp add: grow.simps)
qed

lemma new_capacity_enough:
  assumes "2 \<le> mult" "w * mult \<le> 2 ^ 64"
  shows "\<exists>d. new_capacity mult c w = Val d \<and> w \<le> d \<and> (0 < c \<longrightarrow> c \<le> d)"
proof (cases "c = 0")
  case False
  with grow_enough [OF assms(1) _ assms(2), of c] assms(1) show ?thesis by (auto simp: new_capacity_def)
qed (simp add: new_capacity_def)

lemma elements_length: "array_ok a \<Longrightarrow> length (elements a) = size_of a"
  by (auto simp: array_ok_def elements_def split: option.splits)

text \<open>Reserving keeps the elements.\<close>

definition room :: "nat \<Rightarrow> nat \<Rightarrow> bool" where
  "room mult n \<longleftrightarrow> 2 \<le> mult \<and> n * mult \<le> 2 ^ 64"

lemma internal_reserve_ok:
  assumes "array_ok a" "owns a" "room mult n" "\<forall>n. alloc n" "0 < n \<or> buf_ptr a = None"
  shows "\<exists>a'. internal_reserve mult alloc zero n clear a = Val (True, a') \<and> array_ok a' \<and> owns a' \<and>
    n \<le> capacity a' \<and> buf_ptr a' \<noteq> None \<and> size_of a' = size_of a \<and> elements a' = elements a"
proof -
  obtain c where c: "new_capacity mult (capacity a) n = Val c" "n \<le> c" "0 < capacity a \<longrightarrow> capacity a \<le> c"
    using new_capacity_enough [of mult n "capacity a"] assms(3) by (auto simp: room_def)
  show ?thesis
    using assms c
    by (cases "buf_ptr a"; cases "capacity a"; cases c)
      (auto simp: internal_reserve_def realloc_cells_def array_ok_def owns_def elements_def Let_def min_def)
qed

lemma take_le_eq: "take s xs = take s ys \<Longrightarrow> n \<le> s \<Longrightarrow> take n xs = take n ys"
  by (metis min.absorb1 take_take)

lemma internal_resize_ok:
  assumes "array_ok a" "owns a" "room mult n" "\<forall>n. alloc n"
  shows "\<exists>a'. internal_resize mult alloc zero n clear a = Val (True, a') \<and> array_ok a' \<and> owns a' \<and>
    size_of a' = n \<and> buf_ptr a' \<noteq> None \<and> take (min n (size_of a)) (elements a') = take n (elements a)"
proof (cases "buf_ptr a = None \<or> capacity a < n")
  case True
  then have "0 < n \<or> buf_ptr a = None" by auto
  from internal_reserve_ok [OF assms this, of zero clear] obtain a' where a': "internal_reserve mult alloc zero n clear a = Val (True, a')"
    "array_ok a'" "owns a'" "n \<le> capacity a'" "buf_ptr a' \<noteq> None" "size_of a' = size_of a" "elements a' = elements a" by blast
  have "take (min n (size_of a)) (elements (a'\<lparr> size_of := n \<rparr>)) = take n (elements a')"
    using a'(2,4,5,6) by (auto simp: elements_def array_ok_def min_def split: option.splits)
  also have "\<dots> = take n (elements a)" using a' by simp
  finally have "take (min n (size_of a)) (elements (a'\<lparr> size_of := n \<rparr>)) = take n (elements a)" .
  with a' True show ?thesis
    by (intro exI [of _ "a'\<lparr> size_of := n \<rparr>"] conjI)
      (auto simp: internal_resize_def Let_def array_ok_def owns_def split: option.splits intro: take_le_eq)
next
  case False
  then show ?thesis using assms
    by (intro exI [of _ "a\<lparr> size_of := n \<rparr>"])
      (auto simp: internal_resize_def Let_def array_ok_def owns_def elements_def min_def split: option.splits)
qed

lemma write_cells_ok: "i + length xs \<le> length b \<Longrightarrow> write_cells i xs b = Val (take i b @ xs @ drop (i + length xs) b)"
  by (simp add: write_cells_def)

lemma take_inserted: "i \<le> length b \<Longrightarrow> take (i + length xs + k) (take i b @ xs @ c) = take i b @ xs @ take k c"
  by simp

text \<open>Inserting, also at the ends.\<close>

lemma arr_insert_ok:
  assumes "array_ok a" "owns a" "room mult (size_of a + length xs)" "\<forall>n. alloc n" "xs \<noteq> []" "idx \<le> size_of a"
  shows "\<exists>a'. arr_insert mult alloc zero xs idx a = Val (True, a') \<and> array_ok a' \<and> owns a' \<and>
    elements a' = take idx (elements a) @ xs @ drop idx (elements a)"
proof -
  let ?n = "size_of a + length xs"
  have "\<exists>a1. (if ?n > capacity a then cxx_bind (internal_reserve mult alloc zero ?n False a) (\<lambda>(_, a). Val a) else Val a) = Val a1 \<and>
      array_ok a1 \<and> owns a1 \<and> ?n \<le> capacity a1 \<and> buf_ptr a1 \<noteq> None \<and> size_of a1 = size_of a \<and> elements a1 = elements a"
  proof (cases "?n > capacity a")
    case True
    with internal_reserve_ok [OF assms(1-4) _, of zero False] assms(5) show ?thesis by auto
  next
    case False
    then have "buf_ptr a \<noteq> None" using assms(1,5) by (cases "buf_ptr a") (auto simp: array_ok_def)
    then show ?thesis using False assms by auto
  qed
  then obtain a1 b where a1: "(if ?n > capacity a then cxx_bind (internal_reserve mult alloc zero ?n False a) (\<lambda>(_, a). Val a) else Val a) = Val a1"
      "array_ok a1" "owns a1" "?n \<le> capacity a1" "size_of a1 = size_of a" "elements a1 = elements a" "buf_ptr a1 = Some b"
    by blast
  have b: "length b = capacity a1" "size_of a1 \<le> length b" "take (size_of a) b = elements a"
    using a1 by (auto simp: array_ok_def elements_def)
  let ?tail = "take (size_of a - idx) (drop idx b)"
  let ?b1 = "if size_of a - idx > 0 then take (idx + length xs) b @ ?tail @ drop (?n) b else b"
  have tail: "length ?tail = size_of a - idx" "?tail = drop idx (elements a)"
    using b(1,2) a1(5) assms(6) by (auto simp: drop_take simp flip: b(3))
  have w1: "(if size_of a - idx > 0 then write_cells (idx + length xs) ?tail b else Val b) = Val ?b1"
    using write_cells_ok [of "idx + length xs" ?tail b] tail(1) b a1(4,5) assms(6) by (simp add: add.commute add.left_commute)
  have len: "length ?b1 = length b" using tail(1) b a1(4,5) assms(6) by auto
  let ?b2 = "take idx b @ xs @ drop (idx + length xs) ?b1"
  have w2: "write_cells idx xs ?b1 = Val ?b2"
  proof -
    have "take idx ?b1 = take idx b" using b a1(4,5) assms(6) by auto
    moreover have "idx + length xs \<le> length ?b1" using len b a1(4,5) assms(6) by linarith
    ultimately show ?thesis by (simp only: write_cells_ok)
  qed
  let ?a' = "a1\<lparr> buf_ptr := Some ?b2, size_of := ?n \<rparr>"
  have "arr_insert mult alloc zero xs idx a = Val (True, ?a')"
    using a1(1,5,7) w1 w2 assms(6) unfolding arr_insert_def by (simp add: Let_def)
  moreover have "length ?b2 = length b" using len b a1(4,5) assms(6) by simp
  then have "array_ok ?a'" "owns ?a'" using b a1(3,4,7) by (auto simp: array_ok_def owns_def)
  moreover have "elements ?a' = take idx (elements a) @ xs @ drop idx (elements a)"
  proof -
    have "take (size_of a - idx) (drop (idx + length xs) ?b1) = drop idx (elements a)"
      using tail b a1(4,5) assms(6) by (auto simp: drop_take)
    moreover have "take idx b = take idx (elements a)" using b(3) assms(6) by (metis min.absorb1 take_take)
    moreover have "elements ?a' = take (idx + length xs + (size_of a - idx)) ?b2"
      using assms(6) by (simp add: elements_def add.commute)
    moreover have "\<dots> = take idx b @ xs @ take (size_of a - idx) (drop (idx + length xs) ?b1)"
      using assms(6) b(2) a1(5) by (intro take_inserted) simp
    ultimately show ?thesis by simp
  qed
  ultimately show ?thesis by blast
qed

lemma push_back_ok:
  assumes "array_ok a" "owns a" "room mult (size_of a + 1)" "\<forall>n. alloc n"
  shows "\<exists>a'. push_back mult alloc zero v a = Val (True, a') \<and> array_ok a' \<and> owns a' \<and> elements a' = elements a @ [Some v]"
proof -
  from internal_resize_ok [OF assms, of zero False] obtain a1 b where
    r: "internal_resize mult alloc zero (size_of a + 1) False a = Val (True, a1)" and
    a1: "array_ok a1" "owns a1" "size_of a1 = size_of a + 1" "buf_ptr a1 = Some b"
      "take (size_of a) (elements a1) = elements a"
    by (auto simp: elements_length [OF assms(1)])
  let ?b = "take (size_of a) b @ [Some v] @ drop (size_of a + 1) b"
  have len: "size_of a + 1 \<le> length b" using a1 by (auto simp: array_ok_def)
  then have "write_cells (size_of a1 - 1) [Some v] b = Val ?b" using a1 by (simp add: write_cells_ok)
  then have "push_back mult alloc zero v a = Val (True, a1\<lparr> buf_ptr := Some ?b \<rparr>)"
    using r a1 by (simp add: push_back_def)
  moreover have "array_ok (a1\<lparr> buf_ptr := Some ?b \<rparr>)" "owns (a1\<lparr> buf_ptr := Some ?b \<rparr>)"
    using a1 len by (auto simp: array_ok_def owns_def)
  moreover have "take (size_of a) b = elements a" using a1 by (simp add: elements_def min_def)
  moreover have "elements (a1\<lparr> buf_ptr := Some ?b \<rparr>) = take (size_of a) b @ [Some v]"
    using a1 len take_inserted [of "size_of a" b "[Some v]" 0] by (simp add: elements_def)
  ultimately show ?thesis by (metis (no_types))
qed

lemma arr_from_ok:
  assumes "array_ok a" "room mult (length xs)" "\<forall>n. alloc n"
  shows "\<exists>a'. arr_from mult alloc zero xs a = Val (True, a') \<and> array_ok a' \<and> owns a' \<and> elements a' = xs"
proof -
  let ?a = "if \<not> has_ownership a then delete_buffer a else a"
  have "array_ok ?a" "owns ?a" using assms(1) by (auto simp: array_ok_def owns_def delete_buffer_def)
  from internal_resize_ok [OF this assms(2,3), of zero False] obtain a1 b where
    r: "internal_resize mult alloc zero (length xs) False ?a = Val (True, a1)" and
    a1: "array_ok a1" "owns a1" "size_of a1 = length xs" "buf_ptr a1 = Some b" by auto
  have len: "length xs \<le> length b" using a1 by (auto simp: array_ok_def)
  then have "arr_from mult alloc zero xs a = Val (True, a1\<lparr> buf_ptr := Some (xs @ drop (length xs) b), size_of := length xs \<rparr>)"
    using r a1 unfolding arr_from_def Let_def by (simp add: write_cells_ok)
  with a1 len show ?thesis
    by (auto simp: array_ok_def owns_def elements_def)
qed

lemma arr_pop_ok:
  assumes "array_ok a" "idx < size_of a"
  shows "\<exists>a'. arr_pop zero idx a = Val a' \<and> array_ok a' \<and> owns a' = owns a \<and>
    elements a' = take idx (elements a) @ drop (idx + 1) (elements a)"
proof -
  obtain b where b: "buf_ptr a = Some b" "length b = capacity a" "size_of a \<le> length b"
    using assms by (auto simp: array_ok_def split: option.splits)
  let ?len = "size_of a - (idx + 1)"
  let ?t = "take ?len (drop (idx + 1) b)"
  let ?b1 = "take idx b @ ?t @ drop (idx + ?len) b"
  let ?b2 = "take (size_of a - 1) ?b1 @ [Some zero] @ drop (size_of a) ?b1"
  have t: "length ?t = ?len" "length ?b1 = length b" using b assms(2) by auto
  have w1: "write_cells idx ?t b = Val ?b1" using write_cells_ok [of idx ?t b] t(1) b assms(2) by simp
  have w2: "write_cells (size_of a - 1) [Some zero] ?b1 = Val ?b2"
    using write_cells_ok [of "size_of a - 1" "[Some zero]" ?b1] t(2) b assms(2) by simp
  let ?a = "a\<lparr> buf_ptr := Some ?b2, size_of := size_of a - 1 \<rparr>"
  have "arr_pop zero idx a = Val ?a"
    using b(1) w1 w2 assms(2) by (simp add: arr_pop_def Let_def)
  moreover have "array_ok ?a" "owns ?a = owns a" using b t(2) assms(2) by (auto simp: array_ok_def owns_def)
  moreover have "elements ?a = take idx (elements a) @ drop (idx + 1) (elements a)"
  proof -
    have "elements ?a = take (size_of a - 1) ?b1" using b t(2) assms(2) by (simp add: elements_def)
    also have "\<dots> = take (idx + length ?t + 0) ?b1" using t(1) assms(2) by simp
    also have "\<dots> = take idx b @ ?t @ []" using b assms(2) take_inserted [of idx b ?t 0] by simp
    finally show ?thesis using b assms(2) by (simp add: elements_def drop_take min_def)
  qed
  ultimately show ?thesis by blast
qed

lemma arr_set_ok:
  "array_ok a \<Longrightarrow> idx < size_of a \<Longrightarrow>
    \<exists>a'. arr_set idx v a = Val a' \<and> array_ok a' \<and> owns a' = owns a \<and> elements a' = (elements a)[idx := Some v]"
  by (auto simp: arr_set_def array_ok_def owns_def elements_def take_update_swap split: option.splits)

lemma arr_at_ok:
  "array_ok a \<Longrightarrow> idx < size_of a \<Longrightarrow> elements a ! idx = Some v \<Longrightarrow> arr_at idx a = Val v"
  by (auto simp: arr_at_def array_ok_def elements_def split: option.splits)

text \<open>What a client of a growing array relies on, and what follows for it.\<close>

locale flex_array =
  fixes elems :: "'s \<Rightarrow> 'a option list" and ok :: "'s \<Rightarrow> bool" and fits :: "nat \<Rightarrow> bool"
    and push :: "'a \<Rightarrow> 's \<Rightarrow> (bool \<times> 's) cxx" and pop :: "nat \<Rightarrow> 's \<Rightarrow> 's cxx"
  assumes push: "ok a \<Longrightarrow> fits (length (elems a) + 1) \<Longrightarrow>
      \<exists>a'. push v a = Val (True, a') \<and> ok a' \<and> elems a' = elems a @ [Some v]"
    and pop: "ok a \<Longrightarrow> i < length (elems a) \<Longrightarrow>
      \<exists>a'. pop i a = Val a' \<and> ok a' \<and> elems a' = take i (elems a) @ drop (i + 1) (elems a)"
    and fits: "fits n \<Longrightarrow> m \<le> n \<Longrightarrow> fits m"
begin

lemma push_all:
  "ok a \<Longrightarrow> fits (length (elems a) + length vs) \<Longrightarrow>
    \<exists>a'. push_all push vs a = Val a' \<and> ok a' \<and> elems a' = elems a @ map Some vs"
proof (induction vs arbitrary: a)
  case (Cons v vs)
  obtain a1 where a1: "push v a = Val (True, a1)" "ok a1" "elems a1 = elems a @ [Some v]"
    using push [OF Cons.prems(1) fits [OF Cons.prems(2)]] by auto
  with Cons.IH [of a1] Cons.prems(2) show ?case by simp
qed simp

lemma push_pop:
  assumes "ok a" "fits (length (elems a) + 1)"
  shows "\<exists>a1 a2. push v a = Val (True, a1) \<and> pop (length (elems a)) a1 = Val a2 \<and> ok a2 \<and> elems a2 = elems a"
proof -
  obtain a1 where a1: "push v a = Val (True, a1)" "ok a1" "elems a1 = elems a @ [Some v]"
    using push [OF assms] by blast
  with pop [of a1 "length (elems a)"] show ?thesis by auto
qed

end

interpretation arr: flex_array elements "\<lambda>a. array_ok a \<and> owns a" "room mult" "push_back mult (\<lambda>_. True) zero" "arr_pop zero"
  for mult zero
proof
  show "\<exists>a'. push_back mult (\<lambda>_. True) zero v a = Val (True, a') \<and> (array_ok a' \<and> owns a') \<and> elements a' = elements a @ [Some v]"
    if "array_ok a \<and> owns a" "room mult (length (elements a) + 1)" for a v
    using push_back_ok [of a mult "\<lambda>_. True" zero v] that by (simp add: elements_length)
  show "\<exists>a'. arr_pop zero i a = Val a' \<and> (array_ok a' \<and> owns a') \<and> elements a' = take i (elements a) @ drop (i + 1) (elements a)"
    if "array_ok a \<and> owns a" "i < length (elements a)" for a i
    using arr_pop_ok [of a i zero] that by (auto simp: elements_length)
  show "room mult m" if "room mult n" "m \<le> n" for m n
  proof -
    have "m * mult \<le> n * mult" using that(2) by simp
    with that(1) show ?thesis unfolding room_def by (meson order_trans)
  qed
qed

lemma new_Array_ok: "array_ok new_Array \<and> owns new_Array \<and> elements new_Array = [] \<and> buf_ptr new_Array = None \<and> size_of new_Array = 0"
  by (simp add: array_ok_def owns_def elements_def new_Array_def)

lemma arr_of_container_ok:
  assumes "room mult (length vs)"
  shows "\<exists>a. arr_of_container mult (\<lambda>_. True) zero vs = Val a \<and> array_ok a \<and> owns a \<and> elements a = map Some vs"
proof -
  obtain a where a: "arr_reserve mult (\<lambda>_. True) zero (length vs) new_Array = Val (True, a)" "array_ok a" "owns a" "elements a = []"
    using internal_reserve_ok [of new_Array mult "length vs" "\<lambda>_. True" zero True] assms
    by (auto simp: arr_reserve_def new_Array_ok)
  with arr.push_all [of a mult vs zero] assms show ?thesis by (simp add: arr_of_container_def)
qed

text \<open>Iterating gives the elements, backwards in reverse order.\<close>

lemma it_deref_ok:
  "array_ok a \<Longrightarrow> elements a = map Some vs \<Longrightarrow> it_end it = int (size_of a) \<Longrightarrow> it_curr it = int i \<Longrightarrow> i < length vs \<Longrightarrow>
    it_deref a it = Val (vs ! i)"
proof -
  assume a: "array_ok a" "elements a = map Some vs" "it_end it = int (size_of a)" "it_curr it = int i" "i < length vs"
  have "size_of a = length vs" using elements_length [OF a(1)] a(2) by simp
  moreover have "arr_at i a = Val (vs ! i)" using a calculation by (intro arr_at_ok) simp_all
  moreover have "it_deref a it = arr_at i a" using a calculation(1) by (simp add: it_deref_def arr_at_def split: option.split)
  ultimately show ?thesis by simp
qed

lemma it_collect_forward:
  assumes "array_ok a" "elements a = map Some vs"
  shows "k \<le> length vs \<Longrightarrow> it_collect a k \<lparr> it_curr = int (length vs - k), it_end = int (size_of a), it_reverse = False \<rparr> (arr_end a)
    = Val (drop (length vs - k) vs)"
proof (induction k)
  case (Suc k)
  have s: "size_of a = length vs" using elements_length [OF assms(1)] assms(2) by simp
  let ?i = "length vs - Suc k"
  have "it_deref a \<lparr> it_curr = int ?i, it_end = int (size_of a), it_reverse = False \<rparr> = Val (vs ! ?i)"
    using Suc.prems by (intro it_deref_ok [OF assms]) simp_all
  moreover have "int ?i + 1 = int (length vs - k)" using Suc.prems by simp
  moreover have "vs ! ?i # drop (length vs - k) vs = drop ?i vs"
    using Suc.prems Cons_nth_drop_Suc [of ?i vs] by (simp add: Suc_diff_Suc)
  ultimately show ?case using Suc s by (simp add: it_next_def arr_end_def)
qed (use assms elements_length [OF assms(1)] in \<open>simp add: arr_end_def\<close>)

lemma it_collect_reverse:
  assumes "array_ok a" "elements a = map Some vs"
  shows "k \<le> length vs \<Longrightarrow> it_collect a k \<lparr> it_curr = int k - 1, it_end = int (size_of a), it_reverse = True \<rparr> (arr_rend a)
    = Val (rev (take k vs))"
proof (induction k)
  case (Suc k)
  have "it_deref a \<lparr> it_curr = int k, it_end = int (size_of a), it_reverse = True \<rparr> = Val (vs ! k)"
    using Suc.prems by (intro it_deref_ok [OF assms]) simp_all
  then show ?case using Suc by (simp add: it_next_def arr_rend_def take_Suc_conv_app_nth)
qed (simp add: arr_rend_def)

lemma room_mono: "room mult n \<Longrightarrow> m \<le> n \<Longrightarrow> room mult m"
  by (rule arr.fits)

text \<open>C34. While memory can be allocated, an array that owns its buffer (or has none) behaves like
  the list of its elements: inserting, pushing, removing, setting and copying in do what they do
  on lists and keep the array well formed. An array made from a container holds the
  container's values, and iterating over it gives them in order, backwards in reverse.\<close>

theorem array_refines_list:
  assumes "array_ok a" "owns a" "room mult (size_of a + length xs)" "\<forall>n. alloc n" "xs \<noteq> []" "idx \<le> size_of a"
  shows "(\<exists>a'. arr_insert mult alloc zero xs idx a = Val (True, a') \<and> array_ok a' \<and> owns a' \<and>
      elements a' = take idx (elements a) @ xs @ drop idx (elements a)) \<and>
    (\<exists>a'. push_back mult alloc zero v a = Val (True, a') \<and> array_ok a' \<and> owns a' \<and> elements a' = elements a @ [Some v]) \<and>
    (\<exists>a'. arr_from mult alloc zero xs a = Val (True, a') \<and> array_ok a' \<and> owns a' \<and> elements a' = xs) \<and>
    (idx < size_of a \<longrightarrow>
      (\<exists>a'. arr_pop zero idx a = Val a' \<and> array_ok a' \<and> owns a' \<and>
         elements a' = take idx (elements a) @ drop (idx + 1) (elements a)) \<and>
      (\<exists>a'. arr_set idx v a = Val a' \<and> array_ok a' \<and> owns a' \<and> elements a' = (elements a)[idx := Some v] \<and>
         arr_at idx a' = Val v)) \<and>
    (\<exists>a'. arr_of_container mult (\<lambda>_. True) zero (map the xs) = Val a' \<and> array_ok a' \<and>
      it_collect a' (length xs) (arr_begin a') (arr_end a') = Val (map the xs) \<and>
      it_collect a' (length xs) (arr_rbegin a') (arr_rend a') = Val (rev (map the xs)))"
proof (intro conjI impI)
  have r1: "room mult (size_of a + 1)" using assms(5) by (intro room_mono [OF assms(3)]) (cases xs; simp)
  have r2: "room mult (length xs)" by (rule room_mono [OF assms(3)]) simp
  show "\<exists>a'. arr_insert mult alloc zero xs idx a = Val (True, a') \<and> array_ok a' \<and> owns a' \<and>
      elements a' = take idx (elements a) @ xs @ drop idx (elements a)"
    by (rule arr_insert_ok [OF assms])
  show "\<exists>a'. push_back mult alloc zero v a = Val (True, a') \<and> array_ok a' \<and> owns a' \<and> elements a' = elements a @ [Some v]"
    by (rule push_back_ok [OF assms(1,2) r1 assms(4)])
  show "\<exists>a'. arr_from mult alloc zero xs a = Val (True, a') \<and> array_ok a' \<and> owns a' \<and> elements a' = xs"
    by (rule arr_from_ok [OF assms(1) r2 assms(4)])
  show "\<exists>a'. arr_pop zero idx a = Val a' \<and> array_ok a' \<and> owns a' \<and>
      elements a' = take idx (elements a) @ drop (idx + 1) (elements a)" if "idx < size_of a"
    using arr_pop_ok [OF assms(1) that, of zero] assms(2) by auto
  show "\<exists>a'. arr_set idx v a = Val a' \<and> array_ok a' \<and> owns a' \<and> elements a' = (elements a)[idx := Some v] \<and>
      arr_at idx a' = Val v" if i: "idx < size_of a"
  proof -
    obtain a' where a': "arr_set idx v a = Val a'" "array_ok a'" "owns a'" "elements a' = (elements a)[idx := Some v]"
      using arr_set_ok [OF assms(1) i, of v] assms(2) by auto
    moreover have "size_of a' = size_of a" using elements_length [OF a'(2)] elements_length [OF assms(1)] a'(4) by simp
    ultimately show ?thesis using arr_at_ok [of a' idx v] elements_length [OF assms(1)] i by simp
  qed
  obtain c where c: "arr_of_container mult (\<lambda>_. True) zero (map the xs) = Val c" "array_ok c" "elements c = map Some (map the xs)"
    using arr_of_container_ok [of mult "map the xs" zero] r2 by auto
  have s: "size_of c = length xs" using elements_length [OF c(2)] c(3) by simp
  have "it_collect c (length xs) (arr_begin c) (arr_end c) = Val (map the xs)"
    using it_collect_forward [OF c(2,3), of "length xs"] by (simp add: arr_begin_def)
  moreover have "it_collect c (length xs) (arr_rbegin c) (arr_rend c) = Val (rev (map the xs))"
    using it_collect_reverse [OF c(2,3), of "length xs"] s assms(5) by (simp add: arr_rbegin_def)
  ultimately show "\<exists>a'. arr_of_container mult (\<lambda>_. True) zero (map the xs) = Val a' \<and> array_ok a' \<and>
      it_collect a' (length xs) (arr_begin a') (arr_end a') = Val (map the xs) \<and>
      it_collect a' (length xs) (arr_rbegin a') (arr_rend a') = Val (rev (map the xs))"
    using c by blast
qed

text \<open>Two elements in a buffer of two.\<close>

definition full_array :: "nat Array" where
  "full_array = \<lparr> buf_ptr = Some [Some 1, Some 2], size_of = 2, capacity = 2, has_ownership = True \<rparr>"

lemma full_array_ok: "array_ok full_array \<and> owns full_array \<and> elements full_array = [Some 1, Some 2] \<and> size_of full_array = 2"
  by (simp add: full_array_def array_ok_def owns_def elements_def)

theorem array_refines_list_witness:
  "\<exists>a'. arr_insert 2 (\<lambda>_. True) 0 [Some 7, Some 8] 1 full_array = Val (True, a') \<and>
    elements a' = [Some 1, Some 7, Some 8, Some 2]"
  using array_refines_list [of full_array 2 "[Some 7, Some 8]" "\<lambda>_. True" 1] full_array_ok
  by (auto simp: room_def)

text \<open>C35. Out of range accesses raise an error, also those at the last element of an empty array,
  and do not happen otherwise. When memory cannot be allocated for a full array, \<open>push_back\<close>
  reports success though it adds nothing, and inserting writes behind the buffer. Growing an
  array whose buffer it does not own is undefined.\<close>

lemma arr_at_val:
  assumes "array_ok a" "None \<notin> set (elements a)" "i < size_of a"
  shows "arr_at i a = Val (the (elements a ! i))"
proof -
  have "elements a ! i \<in> set (elements a)" using assms elements_length [OF assms(1)] by simp
  with assms(2) obtain v where "elements a ! i = Some v" by (metis not_Some_eq)
  with arr_at_ok [OF assms(1,3)] show ?thesis by simp
qed

lemma out_of_range_iff:
  assumes "array_ok a"
  shows "(arr_pop zero i a = Raise OutOfRange \<longleftrightarrow> i \<ge> size_of a) \<and> (arr_set i v a = Raise OutOfRange \<longleftrightarrow> i \<ge> size_of a)"
  using arr_pop_ok [OF assms, of i zero] arr_set_ok [OF assms, of i v]
  by (cases "i < size_of a") (auto simp: arr_pop_def arr_set_def)

lemma full_reserve:
  assumes "array_ok a" "buf_ptr a = Some b" "size_of a = capacity a" "0 < n" "room 2 (size_of a + n)"
  shows "internal_reserve 2 (\<lambda>_. False) zero (size_of a + n) c a = (if has_ownership a then Val (False, a) else Undef)"
    and "\<not> has_ownership a \<Longrightarrow> internal_reserve 2 alloc zero (size_of a + n) c a = Undef"
proof -
  obtain d where d: "new_capacity 2 (capacity a) (size_of a + n) = Val d" "size_of a + n \<le> d"
    using new_capacity_enough [of 2 "size_of a + n" "capacity a"] assms(5) by (auto simp: room_def)
  then show "internal_reserve 2 (\<lambda>_. False) zero (size_of a + n) c a = (if has_ownership a then Val (False, a) else Undef)"
    "\<not> has_ownership a \<Longrightarrow> internal_reserve 2 alloc zero (size_of a + n) c a = Undef"
    using assms(2,4) by (simp_all add: internal_reserve_def)
qed

lemma full_array_no_memory:
  assumes "array_ok a" "buf_ptr a \<noteq> None" "size_of a = capacity a" "size_of a < 2 ^ 62" "xs \<noteq> []" "length xs < 2 ^ 62"
  shows "has_ownership a \<Longrightarrow> push_back 2 (\<lambda>_. False) zero v a = Val (True, a)"
    and "has_ownership a \<Longrightarrow> arr_insert 2 (\<lambda>_. False) zero xs (size_of a) a = Undef"
    and "\<not> has_ownership a \<Longrightarrow> push_back 2 alloc zero v a = Undef"
proof -
  obtain b where b: "buf_ptr a = Some b" "length b = capacity a" using assms(1,2) by (auto simp: array_ok_def)
  have r: "room 2 (size_of a + 1)" "room 2 (size_of a + length xs)" "0 < length xs" using assms(4-6) by (auto simp: room_def)
  note full = full_reserve [OF assms(1) b(1) assms(3)]
  show "push_back 2 (\<lambda>_. False) zero v a = Val (True, a)" if "has_ownership a"
    using full(1) [OF _ r(1), of zero False] that assms(3) b by (simp add: push_back_def internal_resize_def)
  show "arr_insert 2 (\<lambda>_. False) zero xs (size_of a) a = Undef" if "has_ownership a"
    using full(1) [OF r(3,2), of zero False] that assms(3,5) b by (simp add: arr_insert_def write_cells_def)
  show "push_back 2 alloc zero v a = Undef" if "\<not> has_ownership a"
    using full(2) [OF _ r(1) that, of alloc zero False] that assms(3) b by (simp add: push_back_def internal_resize_def)
qed

text \<open>C35. Out of range accesses raise an error, also those at the last element of an empty array,
  and do not happen otherwise. When memory cannot be allocated for a full array, \<open>push_back\<close>
  reports success though it adds nothing, and inserting writes behind the buffer. Growing an
  array whose buffer it does not own is undefined.\<close>

theorem array_errors:
  assumes "array_ok a" "buf_ptr a \<noteq> None" "None \<notin> set (elements a)" "size_of a < 2 ^ 62" "xs \<noteq> []" "length xs < 2 ^ 62"
  shows "(if i < size_of a then arr_at i a = Val (the (elements a ! i)) else arr_at i a = Raise OutOfRange) \<and>
    (arr_pop zero i a = Raise OutOfRange \<longleftrightarrow> i \<ge> size_of a) \<and> (arr_set i v a = Raise OutOfRange \<longleftrightarrow> i \<ge> size_of a) \<and>
    (arr_back a = Raise OutOfRange \<longleftrightarrow> size_of a = 0) \<and> (pop_back zero a = Raise OutOfRange \<longleftrightarrow> size_of a = 0) \<and>
    (size_of a = capacity a \<longrightarrow>
       (if has_ownership a
        then push_back 2 (\<lambda>_. False) zero v a = Val (True, a) \<and> arr_insert 2 (\<lambda>_. False) zero xs (size_of a) a = Undef
        else push_back 2 alloc zero v a = Undef))"
proof (intro conjI impI)
  show "if i < size_of a then arr_at i a = Val (the (elements a ! i)) else arr_at i a = Raise OutOfRange"
    using arr_at_val [OF assms(1,3)] by (simp add: arr_at_def)
  show "arr_pop zero i a = Raise OutOfRange \<longleftrightarrow> i \<ge> size_of a" "arr_set i v a = Raise OutOfRange \<longleftrightarrow> i \<ge> size_of a"
    using out_of_range_iff [OF assms(1), of zero i v] by blast+
  show "arr_back a = Raise OutOfRange \<longleftrightarrow> size_of a = 0"
    using arr_at_val [OF assms(1,3), of "size_of a - 1"]
    by (cases "size_of a = 0") (simp_all add: arr_back_def size_minus_1_def, simp add: arr_at_def)
  show "pop_back zero a = Raise OutOfRange \<longleftrightarrow> size_of a = 0"
    using out_of_range_iff [OF assms(1), of zero "size_minus_1 a"] assms(4) by (auto simp: pop_back_def size_minus_1_def)
  assume full: "size_of a = capacity a"
  note no_memory = full_array_no_memory [OF assms(1,2) full assms(4-6)]
  show "if has_ownership a
        then push_back 2 (\<lambda>_. False) zero v a = Val (True, a) \<and> arr_insert 2 (\<lambda>_. False) zero xs (size_of a) a = Undef
        else push_back 2 alloc zero v a = Undef"
    using no_memory by simp
qed

theorem array_errors_witness:
  "arr_at 2 full_array = Raise OutOfRange \<and> push_back 2 (\<lambda>_. False) 0 7 full_array = Val (True, full_array) \<and>
   arr_insert 2 (\<lambda>_. False) 0 [Some 7] 2 full_array = Undef"
  using array_errors [of full_array "[Some 7]" 2 0 7 "\<lambda>_. True"] full_array_ok
  by (simp add: full_array_def)

text \<open>A comparison from behind the end compares from the start.\<close>

lemma is_equal_past_the_end:
  "array_ok a \<Longrightarrow> size_of a \<le> offset \<Longrightarrow> length xs = size_of a \<Longrightarrow> arr_is_equal xs offset a \<longleftrightarrow> elements a = xs"
  by (auto simp: arr_is_equal_def is_bytes_equal_def resolve_def clamp_def Let_def elements_def array_ok_def split: option.splits)

text \<open>Growing by a push leaves cells without a value, which a resize then makes elements.\<close>

lemma resize_exposes_uninitialised:
  "cxx_bind (push_back 2 (\<lambda>_. True) 0 3 full_array) (\<lambda>(_, a). arr_resize 2 (\<lambda>_. True) 0 4 a) =
    Val (True, \<lparr> buf_ptr = Some [Some 1, Some 2, Some 3, None], size_of = 4, capacity = 4, has_ownership = True \<rparr>)"
proof -
  have "grow 2 2 3 = Some 4" by (simp add: grow.simps)
  then have "internal_reserve 2 (\<lambda>_. True) 0 3 False full_array =
      Val (True, \<lparr> buf_ptr = Some [Some 1, Some 2, None, None], size_of = 2, capacity = 4, has_ownership = True \<rparr>)"
    by (simp add: full_array_def internal_reserve_def new_capacity_def realloc_cells_def Let_def numeral_2_eq_2)
  then have "push_back 2 (\<lambda>_. True) 0 3 full_array =
      Val (True, \<lparr> buf_ptr = Some [Some 1, Some 2, Some 3, None], size_of = 3, capacity = 4, has_ownership = True \<rparr>)"
    by (simp add: push_back_def internal_resize_def write_cells_def full_array_ok) (simp add: full_array_def)
  then show ?thesis by (simp add: arr_resize_def internal_resize_def)
qed

end
