(* ===== verification/Sihd_LineReader.thy ===== *)
theory Sihd_LineReader
  imports Sihd_Array
begin

text \<open>
  Reading a file line by line: sys/LineReader.cpp on the arrays of \<open>Sihd_Array\<close> and on
  \<open>File::read\<close> of sys/File.cpp. A stream is what is left to read, whether its end has been met,
  and whether it fails there instead of ending. The parameters \<open>mult\<close> and \<open>alloc\<close> are those of
  the arrays.
\<close>

section \<open>State\<close>

record FileStream =
  fs_rest :: string
  fs_eof :: bool
  fs_broken :: bool

record LineReader =
  lr_file :: "FileStream option"
  read_buff_size :: nat
  read_buff :: "char Array"
  line_buff_size :: nat
  line_size :: nat
  line_buff :: "char Array"
  last_read_index :: nat
  read_size :: int
  lr_error :: bool
  put_delimiter_in_line :: bool
  lr_delimiter :: int

definition new_LineReader :: "nat \<Rightarrow> nat \<Rightarrow> bool \<Rightarrow> int \<Rightarrow> LineReader" where
  "new_LineReader read_buffsize line_buffsize delimiter_in_line delimiter =
     \<lparr> lr_file = None, read_buff_size = read_buffsize, read_buff = new_Array, line_buff_size = line_buffsize,
       line_size = 0, line_buff = new_Array, last_read_index = 0, read_size = 0, lr_error = False,
       put_delimiter_in_line = delimiter_in_line, lr_delimiter = delimiter \<rparr>"

text \<open>Writing through the pointer of an array.\<close>

definition poke :: "nat \<Rightarrow> 'a option list \<Rightarrow> 'a Array \<Rightarrow> 'a Array cxx" where
  "poke i xs a = (case buf_ptr a of
       None \<Rightarrow> Undef
     | Some b \<Rightarrow> cxx_bind (write_cells i xs b) (\<lambda>b. Val (a\<lparr> buf_ptr := Some b \<rparr>)))"

definition allocate_line :: "nat \<Rightarrow> (nat \<Rightarrow> bool) \<Rightarrow> LineReader \<Rightarrow> (bool \<times> LineReader) cxx" where
  "allocate_line mult alloc lr =
     cxx_bind (arr_reserve mult alloc NUL (line_buff_size lr + 1) (line_buff lr)) (\<lambda>(ok, a). Val (ok, lr\<lparr> line_buff := a \<rparr>))"

definition allocate_read_buffer :: "nat \<Rightarrow> (nat \<Rightarrow> bool) \<Rightarrow> LineReader \<Rightarrow> (bool \<times> LineReader) cxx" where
  "allocate_read_buffer mult alloc lr =
     cxx_bind (arr_reserve mult alloc NUL (read_buff_size lr + 1) (read_buff lr)) (\<lambda>(ok, a). Val (ok, lr\<lparr> read_buff := a \<rparr>))"

definition reallocate_line :: "nat \<Rightarrow> (nat \<Rightarrow> bool) \<Rightarrow> nat \<Rightarrow> LineReader \<Rightarrow> (bool \<times> LineReader) cxx" where
  "reallocate_line mult alloc needed lr = allocate_line mult alloc (lr\<lparr> line_buff_size := needed \<rparr>)"

definition reset_reader :: "LineReader \<Rightarrow> LineReader cxx" where
  "reset_reader lr =
     (let lr = lr\<lparr> lr_error := False, last_read_index := 0, read_size := 0, line_size := 0 \<rparr> in
      cxx_bind (if buf_ptr (read_buff lr) \<noteq> None
                then cxx_bind (poke 0 [Some NUL] (read_buff lr)) (\<lambda>a. Val (lr\<lparr> read_buff := a \<rparr>)) else Val lr) (\<lambda>lr.
      if buf_ptr (line_buff lr) \<noteq> None
      then cxx_bind (poke 0 [Some NUL] (line_buff lr)) (\<lambda>a. Val (lr\<lparr> line_buff := a \<rparr>)) else Val lr))"

definition init_reader :: "nat \<Rightarrow> (nat \<Rightarrow> bool) \<Rightarrow> LineReader \<Rightarrow> (bool \<times> LineReader) cxx" where
  "init_reader mult alloc lr =
     cxx_bind (if buf_ptr (line_buff lr) \<noteq> None then Val (True, lr) else allocate_line mult alloc lr) (\<lambda>(ok, lr).
     cxx_bind (if \<not> ok then Val (False, lr)
               else if buf_ptr (read_buff lr) \<noteq> None then Val (True, lr) else allocate_read_buffer mult alloc lr) (\<lambda>(ok, lr).
     if ok then cxx_bind (reset_reader lr) (\<lambda>lr. Val (True, lr)) else Val (False, lr)))"

definition set_delimiter_in_line :: "bool \<Rightarrow> LineReader \<Rightarrow> LineReader" where
  "set_delimiter_in_line active lr = lr\<lparr> put_delimiter_in_line := active \<rparr>"

definition set_reader_delimiter :: "int \<Rightarrow> LineReader \<Rightarrow> LineReader" where
  "set_reader_delimiter c lr = lr\<lparr> lr_delimiter := c \<rparr>"

definition set_read_buffsize :: "nat \<Rightarrow> (nat \<Rightarrow> bool) \<Rightarrow> nat \<Rightarrow> LineReader \<Rightarrow> (bool \<times> LineReader) cxx" where
  "set_read_buffsize mult alloc buff lr =
     (if read_buff_size lr = buff then Val (True, lr)
      else if buff = 0 then Val (False, lr)
      else cxx_bind (allocate_read_buffer mult alloc (lr\<lparr> read_buff_size := buff \<rparr>)) (\<lambda>(ok, lr).
        if \<not> ok then Val (False, lr) else cxx_bind (reset_reader lr) (\<lambda>lr. Val (True, lr))))"

definition set_line_buffsize :: "nat \<Rightarrow> (nat \<Rightarrow> bool) \<Rightarrow> nat \<Rightarrow> LineReader \<Rightarrow> (bool \<times> LineReader) cxx" where
  "set_line_buffsize mult alloc buff lr =
     (if line_buff_size lr = buff then Val (True, lr)
      else if buff = 0 then Val (False, lr)
      else cxx_bind (allocate_line mult alloc (lr\<lparr> line_buff_size := buff \<rparr>)) (\<lambda>(ok, lr).
        if \<not> ok then Val (False, lr) else cxx_bind (reset_reader lr) (\<lambda>lr. Val (True, lr))))"

text \<open>Opening: \<open>None\<close> is a stream that cannot be opened.\<close>

definition open_reader :: "nat \<Rightarrow> (nat \<Rightarrow> bool) \<Rightarrow> FileStream option \<Rightarrow> LineReader \<Rightarrow> (bool \<times> LineReader) cxx" where
  "open_reader mult alloc stream lr =
     cxx_bind (init_reader mult alloc lr) (\<lambda>(ok, lr).
       if \<not> ok then Val (False, lr) else Val (stream \<noteq> None, lr\<lparr> lr_file := stream \<rparr>))"

definition close_reader :: "LineReader \<Rightarrow> (bool \<times> LineReader) cxx" where
  "close_reader lr = cxx_bind (reset_reader lr) (\<lambda>lr. Val (True, lr\<lparr> lr_file := None \<rparr>))"

section \<open>Reading\<close>

text \<open>\<open>File::read\<close>: the number of bytes or -1, and the bytes.\<close>

definition file_read :: "nat \<Rightarrow> FileStream \<Rightarrow> int \<times> string \<times> FileStream" where
  "file_read n fs =
     (if fs_eof fs then (0, [], fs)
      else if n > length (fs_rest fs) \<and> fs_broken fs then (-1, fs_rest fs, fs\<lparr> fs_rest := [] \<rparr>)
      else (int (length (take n (fs_rest fs))), take n (fs_rest fs),
            fs\<lparr> fs_rest := drop n (fs_rest fs), fs_eof := n > length (fs_rest fs) \<rparr>))"

text \<open>\<open>memchr\<close> looks for the delimiter as a byte.\<close>

definition delimiter_byte :: "LineReader \<Rightarrow> char" where
  "delimiter_byte lr = char_of (lr_delimiter lr mod 256)"

fun find_cell :: "'c \<Rightarrow> 'c list \<Rightarrow> nat option" where
  "find_cell x [] = None"
| "find_cell x (c # cs) = (if c = x then Some 0 else map_option Suc (find_cell x cs))"

definition cells_of :: "'a Array \<Rightarrow> 'a option list" where
  "cells_of a = (case buf_ptr a of None \<Rightarrow> [] | Some b \<Rightarrow> b)"

text \<open>Taking from the read buffer: \<open>Inl\<close> is a return, \<open>Inr\<close> the state for the next buffer.\<close>

definition consume :: "nat \<Rightarrow> (nat \<Rightarrow> bool) \<Rightarrow> nat \<Rightarrow> LineReader \<Rightarrow> (bool \<times> LineReader + nat \<times> LineReader) cxx" where
  "consume mult alloc fill_idx lr =
     (let avail = nat (read_size lr) - last_read_index lr;
          read_at = take avail (drop (last_read_index lr) (cells_of (read_buff lr)));
          found = find_cell (Some (delimiter_byte lr)) read_at;
          copy_len = (case found of Some k \<Rightarrow> k + (if put_delimiter_in_line lr then 1 else 0) | None \<Rightarrow> avail) in
      cxx_bind (if fill_idx + copy_len \<ge> line_buff_size lr
                then reallocate_line mult alloc (fill_idx + copy_len) lr else Val (True, lr)) (\<lambda>(ok, lr).
      if \<not> ok then Val (Inl (False, lr\<lparr> lr_error := True \<rparr>))
      else cxx_bind (poke fill_idx (take copy_len read_at) (line_buff lr)) (\<lambda>line.
        let lr = lr\<lparr> line_buff := line,
                     last_read_index := last_read_index lr + copy_len + (if put_delimiter_in_line lr then 0 else 1) \<rparr>;
            fill_idx = fill_idx + copy_len in
        if found \<noteq> None
        then cxx_bind (poke fill_idx [Some NUL] line) (\<lambda>line.
          Val (Inl (True, lr\<lparr> line_size := fill_idx, line_buff := line \<rparr>)))
        else Val (Inr (fill_idx, lr)))))"

text \<open>The next buffer.\<close>

definition refill :: "nat \<Rightarrow> LineReader \<Rightarrow> (bool \<times> LineReader + nat \<times> LineReader) cxx" where
  "refill fill_idx lr =
     (case lr_file lr of
        None \<Rightarrow> Undef
      | Some fs \<Rightarrow>
          (case file_read (read_buff_size lr) fs of (n, bytes, fs) \<Rightarrow>
            cxx_bind (poke 0 (map Some bytes) (read_buff lr)) (\<lambda>buff.
            let lr = lr\<lparr> lr_file := Some fs, read_buff := buff, read_size := n, last_read_index := 0 \<rparr> in
            if n = -1 then Val (Inl (False, lr\<lparr> lr_error := True \<rparr>))
            else cxx_bind (poke (nat n) [Some NUL] buff) (\<lambda>buff.
              let lr = lr\<lparr> read_buff := buff \<rparr> in
              if n = 0
              then cxx_bind (poke fill_idx [Some NUL] (line_buff lr)) (\<lambda>line.
                Val (Inl (fill_idx > 0, lr\<lparr> line_size := fill_idx, line_buff := line, last_read_index := fill_idx \<rparr>)))
              else Val (Inr (fill_idx, lr))))))"

text \<open>The loop; \<open>None\<close> would be a call that never returns.\<close>

partial_function (option) read_loop :: "nat \<Rightarrow> (nat \<Rightarrow> bool) \<Rightarrow> nat \<Rightarrow> LineReader \<Rightarrow> (bool \<times> LineReader) cxx option" where
  "read_loop mult alloc fill_idx lr =
     (case (if int (last_read_index lr) < read_size lr then consume mult alloc fill_idx lr else Val (Inr (fill_idx, lr))) of
        Undef \<Rightarrow> Some Undef
      | Raise e \<Rightarrow> Some (Raise e)
      | Val (Inl r) \<Rightarrow> Some (Val r)
      | Val (Inr (fill_idx, lr)) \<Rightarrow>
          (case refill fill_idx lr of
             Undef \<Rightarrow> Some Undef
           | Raise e \<Rightarrow> Some (Raise e)
           | Val (Inl r) \<Rightarrow> Some (Val r)
           | Val (Inr (fill_idx, lr)) \<Rightarrow> read_loop mult alloc fill_idx lr))"

definition read_next :: "nat \<Rightarrow> (nat \<Rightarrow> bool) \<Rightarrow> LineReader \<Rightarrow> (bool \<times> LineReader) cxx option" where
  "read_next mult alloc lr =
     (if buf_ptr (line_buff lr) = None \<or> buf_ptr (read_buff lr) = None then Some (Val (False, lr))
      else case poke 0 [Some NUL] (line_buff lr) of
        Undef \<Rightarrow> Some Undef
      | Raise e \<Rightarrow> Some (Raise e)
      | Val line \<Rightarrow> read_loop mult alloc 0 (lr\<lparr> line_buff := line \<rparr>))"

definition get_read_data :: "LineReader \<Rightarrow> char option list" where
  "get_read_data lr = take (line_size lr) (cells_of (line_buff lr))"

section \<open>Lines of a text\<close>

text \<open>The next line of a text, with its delimiter when asked for, and the text after it.\<close>

definition next_line :: "char \<Rightarrow> bool \<Rightarrow> string \<Rightarrow> (string \<times> string) option" where
  "next_line d keep p =
     (if d \<in> set p then Some (takeWhile (\<lambda>c. c \<noteq> d) p @ (if keep then [d] else []), tl (dropWhile (\<lambda>c. c \<noteq> d) p))
      else if p = [] then None else Some (p, []))"

function text_lines :: "char \<Rightarrow> bool \<Rightarrow> string \<Rightarrow> string list" where
  "text_lines d keep p = (case next_line d keep p of None \<Rightarrow> [] | Some (l, r) \<Rightarrow> l # text_lines d keep r)"
  by pat_completeness auto

lemma next_line_shorter: "next_line d keep p = Some (l, r) \<Longrightarrow> length r < length p"
proof -
  assume n: "next_line d keep p = Some (l, r)"
  show ?thesis
  proof (cases "d \<in> set p")
    case True
    then have "dropWhile (\<lambda>c. c \<noteq> d) p \<noteq> []" by auto
    moreover have "length (dropWhile (\<lambda>c. c \<noteq> d) p) \<le> length p" by (rule length_dropWhile_le)
    ultimately show ?thesis using n True by (cases "dropWhile (\<lambda>c. c \<noteq> d) p") (auto simp: next_line_def)
  qed (use n in \<open>auto simp: next_line_def split: if_splits\<close>)
qed

termination text_lines
  by (relation "measure (\<lambda>(d, keep, p). length p)") (auto dest: next_line_shorter)

declare text_lines.simps [simp del]

lemma next_line_found: "d \<notin> set a \<Longrightarrow> next_line d keep (a @ d # r) = Some (a @ (if keep then [d] else []), r)"
  by (simp add: next_line_def takeWhile_tail dropWhile_append)

lemma next_line_end: "d \<notin> set p \<Longrightarrow> next_line d keep p = (if p = [] then None else Some (p, []))"
  by (simp add: next_line_def)

section \<open>Memory safety and correctness\<close>

text \<open>A buffer that the reader owns, with room for \<open>n\<close> bytes and a terminator.\<close>

definition buffer_ok :: "'a Array \<Rightarrow> nat \<Rightarrow> bool" where
  "buffer_ok a n \<longleftrightarrow> array_ok a \<and> has_ownership a \<and> buf_ptr a \<noteq> None \<and> n + 1 \<le> length (cells_of a)"

lemma array_ok_cells: "array_ok a \<Longrightarrow> buf_ptr a \<noteq> None \<Longrightarrow> length (cells_of a) = capacity a"
  by (auto simp: array_ok_def cells_of_def)

lemma poke_ok:
  assumes "buffer_ok a n" "i + length xs \<le> n + 1"
  shows "\<exists>a'. poke i xs a = Val a' \<and> buffer_ok a' n \<and> cells_of a' = take i (cells_of a) @ xs @ drop (i + length xs) (cells_of a)"
proof -
  obtain b where b: "buf_ptr a = Some b" "n + 1 \<le> length b" using assms(1) by (auto simp: buffer_ok_def cells_of_def)
  then have "poke i xs a = Val (a\<lparr> buf_ptr := Some (take i b @ xs @ drop (i + length xs) b) \<rparr>)"
    using assms(2) by (simp add: poke_def write_cells_ok)
  then show ?thesis using assms b by (auto simp: buffer_ok_def array_ok_def cells_of_def)
qed

lemma reserve_cells:
  assumes "array_ok a" "buf_ptr a = None \<or> has_ownership a" "room mult (n + 1)" "\<forall>n. alloc n"
  shows "\<exists>a'. arr_reserve mult alloc NUL (n + 1) a = Val (True, a') \<and> buffer_ok a' n \<and>
    take (length (cells_of a)) (cells_of a') = cells_of a"
proof -
  obtain c where c: "new_capacity mult (capacity a) (n + 1) = Val c" "n + 1 \<le> c" "0 < capacity a \<longrightarrow> capacity a \<le> c"
    using new_capacity_enough [of mult "n + 1" "capacity a"] assms(3) by (auto simp: room_def)
  show ?thesis
    using assms c
    by (cases "buf_ptr a"; cases "capacity a")
      (auto simp: arr_reserve_def internal_reserve_def realloc_cells_def array_ok_def buffer_ok_def cells_of_def Let_def min_def)
qed

text \<open>The text that is still to come: the rest of the read buffer and of the stream.\<close>

definition buffered :: "LineReader \<Rightarrow> char option list" where
  "buffered lr = take (nat (read_size lr) - last_read_index lr) (drop (last_read_index lr) (cells_of (read_buff lr)))"

definition reader_ok :: "nat \<Rightarrow> string \<Rightarrow> string \<Rightarrow> LineReader \<Rightarrow> bool" where
  "reader_ok mult acc p lr \<longleftrightarrow>
     buffer_ok (line_buff lr) (line_buff_size lr) \<and> buffer_ok (read_buff lr) (read_buff_size lr) \<and>
     0 < read_buff_size lr \<and> 0 \<le> read_size lr \<and> read_size lr \<le> int (read_buff_size lr) \<and>
     length acc \<le> line_buff_size lr \<and> take (length acc) (cells_of (line_buff lr)) = map Some acc \<and>
     room mult (length acc + length p + 1) \<and> \<not> lr_error lr \<and>
     (\<exists>fs q. lr_file lr = Some fs \<and> \<not> fs_broken fs \<and> (fs_eof fs \<longrightarrow> fs_rest fs = []) \<and>
        buffered lr = map Some q \<and> p = q @ fs_rest fs)"

lemma find_cell_map:
  "d \<notin> set q \<Longrightarrow> find_cell (Some d) (map Some q) = None"
  "d \<notin> set a \<Longrightarrow> find_cell (Some d) (map Some (a @ d # r)) = Some (length a)"
  by (induction q; force) (induction a; force)

lemma take_take_prefix: "take n ys = xs \<Longrightarrow> m \<le> n \<Longrightarrow> take m xs = take m ys"
  by (metis min.absorb1 take_take)

lemma line_grows:
  assumes "buffer_ok (line_buff lr) (line_buff_size lr)" "fill \<le> line_buff_size lr" "room mult (needed + 1)" "\<forall>n. alloc n" "fill \<le> needed"
  shows "\<exists>n a. (if needed \<ge> line_buff_size lr then reallocate_line mult alloc needed lr else Val (True, lr)) =
      Val (True, lr\<lparr> line_buff_size := n, line_buff := a \<rparr>) \<and> buffer_ok a n \<and> needed \<le> n \<and>
      take fill (cells_of a) = take fill (cells_of (line_buff lr))"
proof (cases "needed \<ge> line_buff_size lr")
  case True
  obtain a where a: "arr_reserve mult alloc NUL (needed + 1) (line_buff lr) = Val (True, a)" "buffer_ok a needed"
    "take (length (cells_of (line_buff lr))) (cells_of a) = cells_of (line_buff lr)"
    using reserve_cells [of "line_buff lr" mult needed alloc] assms by (auto simp: buffer_ok_def)
  have "take fill (cells_of a) = take fill (cells_of (line_buff lr))"
    using take_take_prefix [OF a(3), of fill] assms(1,2) by (simp add: buffer_ok_def)
  then show ?thesis using True a by (auto simp: reallocate_line_def allocate_line_def)
next
  case False
  then show ?thesis using assms by (intro exI [of _ "line_buff_size lr"] exI [of _ "line_buff lr"]) auto
qed

text \<open>Appending \<open>w\<close> to the line, from the state in which the buffer has been made large enough.\<close>

lemma line_append:
  assumes "buffer_ok a n" "take (length acc) (cells_of a) = map Some acc" "length acc + length w \<le> n"
  shows "\<exists>a'. poke (length acc) (map Some w) a = Val a' \<and> buffer_ok a' n \<and>
    take (length (acc @ w)) (cells_of a') = map Some (acc @ w)"
proof -
  have "length acc \<le> length (cells_of a)" using assms(1,3) by (simp add: buffer_ok_def)
  with poke_ok [OF assms(1), of "length acc" "map Some w"] assms(2,3) show ?thesis by auto
qed

lemma consume_steps:
  assumes "nat (read_size lr) - last_read_index lr = length q"
    and "take (length q) (drop (last_read_index lr) (cells_of (read_buff lr))) = map Some q"
    and "find_cell (Some (delimiter_byte lr)) (map Some q) = found"
    and "(case found of Some k \<Rightarrow> k + (if put_delimiter_in_line lr then 1 else 0) | None \<Rightarrow> length q) = k"
    and "(if fill + k \<ge> line_buff_size lr then reallocate_line mult alloc (fill + k) lr else Val (True, lr)) = Val (True, lr1)"
    and "poke fill (take k (map Some q)) (line_buff lr1) = Val a"
  shows "consume mult alloc fill lr =
    (let lr2 = lr1\<lparr> line_buff := a, last_read_index := last_read_index lr1 + k + (if put_delimiter_in_line lr1 then 0 else 1) \<rparr> in
     if found \<noteq> None
     then cxx_bind (poke (fill + k) [Some NUL] a) (\<lambda>line. Val (Inl (True, lr2\<lparr> line_size := fill + k, line_buff := line \<rparr>)))
     else Val (Inr (fill + k, lr2)))"
  unfolding consume_def Let_def assms(1-5) cxx_bind.simps prod.case assms(6) by simp

lemma consume_ok:
  assumes "reader_ok mult acc p lr" "int (last_read_index lr) < read_size lr" "\<forall>n. alloc n"
    and "d = delimiter_byte lr" "keep = put_delimiter_in_line lr"
    and q: "lr_file lr = Some fs" "buffered lr = map Some q" "p = q @ fs_rest fs"
  shows "(d \<notin> set q \<longrightarrow> (\<exists>lr'. consume mult alloc (length acc) lr = Val (Inr (length (acc @ q), lr')) \<and>
      reader_ok mult (acc @ q) (fs_rest fs) lr' \<and> lr_file lr' = Some fs \<and> buffered lr' = [] \<and>
      delimiter_byte lr' = d \<and> put_delimiter_in_line lr' = keep)) \<and>
    (\<forall>a r. d \<notin> set a \<longrightarrow> q = a @ d # r \<longrightarrow> (\<exists>lr'. consume mult alloc (length acc) lr = Val (Inl (True, lr')) \<and>
      reader_ok mult [] (r @ fs_rest fs) lr' \<and> get_read_data lr' = map Some (acc @ a @ (if keep then [d] else [])) \<and>
      delimiter_byte lr' = d \<and> put_delimiter_in_line lr' = keep))"
proof -
  note ok = assms(1) [unfolded reader_ok_def]
  let ?l = "last_read_index lr"
  have cells: "read_size lr \<le> int (read_buff_size lr)" "read_buff_size lr + 1 \<le> length (cells_of (read_buff lr))"
    using ok by (auto simp: buffer_ok_def)
  have avail: "nat (read_size lr) - ?l = length q"
    using arg_cong [OF q(2), of length] cells assms(2) by (auto simp: buffered_def)
  have read_at: "take (length q) (drop ?l (cells_of (read_buff lr))) = map Some q"
    using q(2) unfolding buffered_def avail .
  have drop_buffered: "take (nat (read_size lr) - (?l + k)) (drop (?l + k) (cells_of (read_buff lr))) = map Some (drop k q)" for k
    using arg_cong [OF q(2), of "drop k"] by (simp add: buffered_def drop_take drop_drop drop_map add.commute)
  have copy: "\<exists>n a a'. (if length acc + length w \<ge> line_buff_size lr then reallocate_line mult alloc (length acc + length w) lr else Val (True, lr)) =
        Val (True, lr\<lparr> line_buff_size := n, line_buff := a \<rparr>) \<and> poke (length acc) (map Some w) a = Val a' \<and>
        buffer_ok a' n \<and> length (acc @ w) \<le> n \<and> take (length (acc @ w)) (cells_of a') = map Some (acc @ w)"
    if "length w \<le> length q" for w
  proof -
    have "room mult (length acc + length w + 1)"
      using ok that q(3) by (elim conjE) (erule room_mono, simp)
    with line_grows [of lr "length acc" mult "length acc + length w" alloc] ok assms(3)
    obtain n a where a: "(if length acc + length w \<ge> line_buff_size lr then reallocate_line mult alloc (length acc + length w) lr else Val (True, lr)) =
        Val (True, lr\<lparr> line_buff_size := n, line_buff := a \<rparr>)" "buffer_ok a n" "length acc + length w \<le> n"
        "take (length acc) (cells_of a) = map Some acc" by auto
    with line_append [OF a(2,4,3)] show ?thesis by auto
  qed
  show ?thesis
  proof (intro conjI impI allI)
    assume d: "d \<notin> set q"
    from copy [OF order_refl] obtain n a a' where c: "(if length acc + length q \<ge> line_buff_size lr then reallocate_line mult alloc (length acc + length q) lr else Val (True, lr)) =
        Val (True, lr\<lparr> line_buff_size := n, line_buff := a \<rparr>)" "poke (length acc) (map Some q) a = Val a'"
        "buffer_ok a' n" "length (acc @ q) \<le> n" "take (length (acc @ q)) (cells_of a') = map Some (acc @ q)"
      by blast
    let ?lr = "lr\<lparr> line_buff_size := n, line_buff := a', last_read_index := ?l + length q + (if keep then 0 else 1) \<rparr>"
    have "consume mult alloc (length acc) lr = Val (Inr (length (acc @ q), ?lr))"
    proof -
      have f: "find_cell (Some (delimiter_byte lr)) (map Some q) = None" using find_cell_map(1) [OF d] assms(4) by simp
      have k: "(case None of Some k \<Rightarrow> k + (if put_delimiter_in_line lr then 1 else 0) | None \<Rightarrow> length q) = length q"
        by simp
      show ?thesis
        using consume_steps [OF avail read_at f k c(1)] c(2) assms(5) by (simp add: Let_def)
    qed
    moreover have "buffered ?lr = []"
      using avail assms(2) by (simp add: buffered_def)
    moreover have "room mult (length (acc @ q) + length (fs_rest fs) + 1)" using ok q(3) by (simp add: add.assoc)
    then have "reader_ok mult (acc @ q) (fs_rest fs) ?lr"
      using ok c(3-5) q(1) \<open>buffered ?lr = []\<close> by (auto simp: reader_ok_def)
    ultimately show "\<exists>lr'. consume mult alloc (length acc) lr = Val (Inr (length (acc @ q), lr')) \<and>
      reader_ok mult (acc @ q) (fs_rest fs) lr' \<and> lr_file lr' = Some fs \<and> buffered lr' = [] \<and>
      delimiter_byte lr' = d \<and> put_delimiter_in_line lr' = keep"
      using q(1) assms(4,5) by (intro exI [of _ ?lr]) (simp add: delimiter_byte_def)
  next
    fix x r assume d: "d \<notin> set x" "q = x @ d # r"
    let ?w = "x @ (if keep then [d] else [])"
    have "length ?w \<le> length q" using d(2) by simp
    from copy [OF this] obtain n a a' where c: "(if length acc + length ?w \<ge> line_buff_size lr then reallocate_line mult alloc (length acc + length ?w) lr else Val (True, lr)) =
        Val (True, lr\<lparr> line_buff_size := n, line_buff := a \<rparr>)" "poke (length acc) (map Some ?w) a = Val a'"
        "buffer_ok a' n" "length (acc @ ?w) \<le> n" "take (length (acc @ ?w)) (cells_of a') = map Some (acc @ ?w)"
      by blast
    obtain a2 where a2: "poke (length (acc @ ?w)) [Some NUL] a' = Val a2" "buffer_ok a2 n"
        "cells_of a2 = take (length (acc @ ?w)) (cells_of a') @ [Some NUL] @ drop (length (acc @ ?w) + 1) (cells_of a')"
      using poke_ok [OF c(3), of "length (acc @ ?w)" "[Some NUL]"] c(4) by auto
    have line: "take (length (acc @ ?w)) (cells_of a2) = map Some (acc @ ?w)"
      using c(3-5) by (simp add: a2(3) buffer_ok_def)
    let ?lr = "lr\<lparr> line_buff_size := n, line_buff := a2, last_read_index := ?l + length ?w + (if keep then 0 else 1), line_size := length (acc @ ?w) \<rparr>"
    have w: "take (length ?w) (map Some q) = map Some ?w" using d(2) by simp
    have "consume mult alloc (length acc) lr = Val (Inl (True, ?lr))"
    proof -
      have f: "find_cell (Some (delimiter_byte lr)) (map Some q) = Some (length x)"
        using find_cell_map(2) [OF d(1), of r] d(2) assms(4) by simp
      have k: "(case Some (length x) of Some k \<Rightarrow> k + (if put_delimiter_in_line lr then 1 else 0) | None \<Rightarrow> length q) = length ?w"
        using assms(5) by simp
      show ?thesis
        using consume_steps [OF avail read_at f k c(1)] c(2) w a2(1) assms(5) by (simp add: Let_def)
    qed
    moreover have "buffered ?lr = map Some r"
      using drop_buffered [of "length x + 1"] d(2) by (simp add: buffered_def add.assoc)
    moreover have "room mult (length r + length (fs_rest fs) + 1)"
      using ok q(3) d(2) by (elim conjE) (erule room_mono, simp)
    then have "reader_ok mult [] (r @ fs_rest fs) ?lr"
      using ok a2(2) q(1) \<open>buffered ?lr = map Some r\<close> by (auto simp: reader_ok_def)
    moreover have "get_read_data ?lr = map Some (acc @ ?w)" using line by (simp add: get_read_data_def)
    ultimately show "\<exists>lr'. consume mult alloc (length acc) lr = Val (Inl (True, lr')) \<and>
      reader_ok mult [] (r @ fs_rest fs) lr' \<and> get_read_data lr' = map Some (acc @ ?w) \<and>
      delimiter_byte lr' = d \<and> put_delimiter_in_line lr' = keep"
      using assms(4,5) by (intro exI [of _ ?lr]) (simp add: delimiter_byte_def)
  qed
qed

lemma refill_ok:
  assumes "reader_ok mult acc p lr" "buffered lr = []" "lr_file lr = Some fs"
  shows "if p = []
    then \<exists>lr'. refill (length acc) lr = Val (Inl (acc \<noteq> [], lr')) \<and> reader_ok mult [] [] lr' \<and>
      get_read_data lr' = map Some acc \<and> delimiter_byte lr' = delimiter_byte lr \<and> put_delimiter_in_line lr' = put_delimiter_in_line lr
    else \<exists>lr' fs'. refill (length acc) lr = Val (Inr (length acc, lr')) \<and> reader_ok mult acc p lr' \<and>
      lr_file lr' = Some fs' \<and> length (fs_rest fs') < length (fs_rest fs) \<and>
      delimiter_byte lr' = delimiter_byte lr \<and> put_delimiter_in_line lr' = put_delimiter_in_line lr"
proof -
  note ok = assms(1) [unfolded reader_ok_def]
  let ?n = "read_buff_size lr"
  let ?bytes = "take ?n (fs_rest fs)"
  have fs: "\<not> fs_broken fs" "fs_eof fs \<longrightarrow> fs_rest fs = []" "p = fs_rest fs" using ok assms(2,3) by auto
  obtain fs' where r: "file_read ?n fs = (int (length ?bytes), ?bytes, fs')" "fs_rest fs' = drop ?n p"
      "\<not> fs_broken fs'" "fs_eof fs' \<longrightarrow> fs_rest fs' = []"
    using fs by (cases "fs_eof fs") (auto simp: file_read_def)
  obtain b where b: "poke 0 (map Some ?bytes) (read_buff lr) = Val b" "buffer_ok b ?n"
      "cells_of b = map Some ?bytes @ drop (length ?bytes) (cells_of (read_buff lr))"
  proof -
    have "buffer_ok (read_buff lr) ?n" "0 + length (map Some ?bytes) \<le> ?n + 1" using ok by (auto simp: min_def)
    from poke_ok [OF this] that show thesis by auto
  qed
  obtain b2 where b2: "poke (length ?bytes) [Some NUL] b = Val b2" "buffer_ok b2 ?n"
      "cells_of b2 = take (length ?bytes) (cells_of b) @ [Some NUL] @ drop (length ?bytes + 1) (cells_of b)"
  proof -
    have "length ?bytes + length [Some NUL] \<le> ?n + 1" by (simp add: min_def)
    from poke_ok [OF b(2) this] that show thesis by auto
  qed
  have cells: "take (length ?bytes) (cells_of b2) = map Some ?bytes" using b(3) b2(3) by simp
  let ?lr = "lr\<lparr> lr_file := Some fs', read_buff := b2, read_size := int (length ?bytes), last_read_index := 0 \<rparr>"
  show ?thesis
  proof (cases "p = []")
    case True
    obtain l where l: "poke (length acc) [Some NUL] (line_buff lr) = Val l" "buffer_ok l (line_buff_size lr)"
        "cells_of l = take (length acc) (cells_of (line_buff lr)) @ [Some NUL] @ drop (length acc + 1) (cells_of (line_buff lr))"
      using poke_ok [of "line_buff lr" "line_buff_size lr" "length acc" "[Some NUL]"] ok by auto
    let ?lr' = "?lr\<lparr> line_size := length acc, line_buff := l, last_read_index := length acc \<rparr>"
    have "refill (length acc) lr = Val (Inl (acc \<noteq> [], ?lr'))"
      using assms(3) r(1) b(1) b2(1) l(1) True fs(3) by (simp add: refill_def Let_def)
    moreover have "room mult (0 + 0 + 1)" using ok by (elim conjE) (erule room_mono, simp)
    then have "reader_ok mult [] [] ?lr'"
      using ok b2(2) l(2) r(2-4) True fs(3) by (simp add: reader_ok_def buffered_def)
    moreover have "get_read_data ?lr' = map Some acc" using ok l(3) by (auto simp: get_read_data_def)
    ultimately show ?thesis using True by (auto simp: delimiter_byte_def)
  next
    case False
    have "length ?bytes \<noteq> 0" using False fs(3) ok by (auto simp: min_def)
    then have "refill (length acc) lr = Val (Inr (length acc, ?lr))"
      using assms(3) r(1) b(1) b2(1) by (simp add: refill_def Let_def del: length_take take_eq_Nil)
    moreover have "buffered ?lr = map Some ?bytes" using cells by (simp add: buffered_def)
    then have "reader_ok mult acc p ?lr"
      using ok b2(2) r(2-4) fs(3) by (auto simp: reader_ok_def)
    moreover have "length (fs_rest fs') < length (fs_rest fs)" using r(2) fs(3) False ok by simp
    ultimately show ?thesis using False by (intro if_not_P [THEN iffD2]) (auto simp: delimiter_byte_def)
  qed
qed

definition line_read :: "nat \<Rightarrow> char \<Rightarrow> bool \<Rightarrow> string \<Rightarrow> bool \<times> LineReader \<Rightarrow> bool" where
  "line_read mult d keep p = (\<lambda>(r, lr'). delimiter_byte lr' = d \<and> put_delimiter_in_line lr' = keep \<and>
     (case next_line d keep p of
        None \<Rightarrow> \<not> r \<and> reader_ok mult [] [] lr'
      | Some (l, rest) \<Rightarrow> r \<and> get_read_data lr' = map Some l \<and> reader_ok mult [] rest lr'))"

lemma read_loop_ok:
  assumes "\<forall>n. alloc n"
  shows "reader_ok mult acc p lr \<Longrightarrow> delimiter_byte lr \<notin> set acc \<Longrightarrow>
    \<exists>res. read_loop mult alloc (length acc) lr = Some (Val res) \<and>
      line_read mult (delimiter_byte lr) (put_delimiter_in_line lr) (acc @ p) res"
proof (induction "length (fs_rest (the (lr_file lr)))" arbitrary: acc p lr rule: less_induct)
  case less
  let ?d = "delimiter_byte lr" and ?keep = "put_delimiter_in_line lr"
  from less.prems(1) obtain fs q where q: "lr_file lr = Some fs" "buffered lr = map Some q" "p = q @ fs_rest fs"
    by (auto simp: reader_ok_def)
  have refilled: "\<exists>res. (case refill (length acc') lr1 of
             Undef \<Rightarrow> Some Undef
           | Raise e \<Rightarrow> Some (Raise e)
           | Val (Inl r) \<Rightarrow> Some (Val r)
           | Val (Inr (fill_idx, lr)) \<Rightarrow> read_loop mult alloc fill_idx lr) = Some (Val res) \<and>
      line_read mult ?d ?keep (acc' @ fs_rest fs) res"
    if lr1: "reader_ok mult acc' (fs_rest fs) lr1" "buffered lr1 = []" "lr_file lr1 = Some fs"
      "delimiter_byte lr1 = ?d" "put_delimiter_in_line lr1 = ?keep" "?d \<notin> set acc'" for acc' lr1
  proof (cases "fs_rest fs = []")
    case True
    with refill_ok [OF lr1(1-3)] lr1(4-6) show ?thesis
      by (auto simp: line_read_def next_line_end)
  next
    case False
    with refill_ok [OF lr1(1-3)] obtain lr2 fs2 where lr2: "refill (length acc') lr1 = Val (Inr (length acc', lr2))"
      "reader_ok mult acc' (fs_rest fs) lr2" "lr_file lr2 = Some fs2" "length (fs_rest fs2) < length (fs_rest fs)"
      "delimiter_byte lr2 = ?d" "put_delimiter_in_line lr2 = ?keep" using lr1(4,5) by auto
    have "\<exists>res. read_loop mult alloc (length acc') lr2 = Some (Val res) \<and>
      line_read mult (delimiter_byte lr2) (put_delimiter_in_line lr2) (acc' @ fs_rest fs) res"
      by (rule less.hyps) (use lr2 q lr1 in auto)
    then show ?thesis using lr2 by simp
  qed
  show ?case
  proof (cases "int (last_read_index lr) < read_size lr")
    case True
    note consumed = consume_ok [OF less.prems(1) True assms refl refl q]
    show ?thesis
    proof (cases "?d \<in> set q")
      case True
      then obtain a r where a: "q = a @ ?d # r" "?d \<notin> set a" by (meson split_list_first)
      obtain lr' where lr': "consume mult alloc (length acc) lr = Val (Inl (True, lr'))"
        "reader_ok mult [] (r @ fs_rest fs) lr'" "get_read_data lr' = map Some (acc @ a @ (if ?keep then [?d] else []))"
        "delimiter_byte lr' = ?d" "put_delimiter_in_line lr' = ?keep"
        using consumed a by blast
      have "next_line ?d ?keep (acc @ p) = Some ((acc @ a) @ (if ?keep then [?d] else []), r @ fs_rest fs)"
        using next_line_found [of ?d "acc @ a" ?keep "r @ fs_rest fs"] a less.prems(2) q(3) by simp
      then show ?thesis using lr' \<open>int (last_read_index lr) < read_size lr\<close>
        by (subst read_loop.simps) (simp add: line_read_def)
    next
      case False
      then obtain lr' where lr': "consume mult alloc (length acc) lr = Val (Inr (length (acc @ q), lr'))"
        "reader_ok mult (acc @ q) (fs_rest fs) lr'" "lr_file lr' = Some fs" "buffered lr' = []"
        "delimiter_byte lr' = ?d" "put_delimiter_in_line lr' = ?keep" using consumed by blast
      have "?d \<notin> set (acc @ q)" using False less.prems(2) by simp
      from refilled [OF lr'(2,4,3,5,6) this] lr'(1) True_def q(3) \<open>int (last_read_index lr) < read_size lr\<close>
      show ?thesis by (subst read_loop.simps) simp
    qed
  next
    case False
    then have "buffered lr = []" by (simp add: buffered_def)
    then have "reader_ok mult acc (fs_rest fs) lr" "q = []" using less.prems(1) q by auto
    from refilled [OF this(1) \<open>buffered lr = []\<close> q(1) refl refl less.prems(2)] False q(3) \<open>q = []\<close>
    show ?thesis by (subst read_loop.simps) simp
  qed
qed

lemma read_next_ok:
  assumes "\<forall>n. alloc n" "reader_ok mult [] p lr"
  shows "\<exists>res. read_next mult alloc lr = Some (Val res) \<and>
    line_read mult (delimiter_byte lr) (put_delimiter_in_line lr) p res"
proof -
  note ok = assms(2) [unfolded reader_ok_def]
  obtain a where a: "poke 0 [Some NUL] (line_buff lr) = Val a" "buffer_ok a (line_buff_size lr)"
    using poke_ok [of "line_buff lr" "line_buff_size lr" 0 "[Some NUL]"] ok by auto
  let ?lr = "lr\<lparr> line_buff := a \<rparr>"
  have "reader_ok mult [] p ?lr" using ok a(2) by (auto simp: reader_ok_def buffered_def)
  from read_loop_ok [OF assms(1) this] obtain res where
    res: "read_loop mult alloc 0 ?lr = Some (Val res)" "line_read mult (delimiter_byte lr) (put_delimiter_in_line lr) p res"
    by (auto simp: delimiter_byte_def)
  moreover have "buf_ptr (line_buff lr) \<noteq> None" "buf_ptr (read_buff lr) \<noteq> None" using ok by (simp_all add: buffer_ok_def)
  then have "read_next mult alloc lr = read_loop mult alloc 0 ?lr" by (auto simp: read_next_def a(1))
  ultimately show ?thesis by simp
qed

lemma open_reader_ok:
  assumes "\<forall>n. alloc n" "0 < rb" "room mult (rb + 1)" "room mult (lb + 1)" "room mult (length s + 1)"
  shows "\<exists>lr. open_reader mult alloc (Some \<lparr> fs_rest = s, fs_eof = False, fs_broken = False \<rparr>) (new_LineReader rb lb keep delim) = Val (True, lr) \<and>
    reader_ok mult [] s lr \<and> delimiter_byte lr = char_of (delim mod 256) \<and> put_delimiter_in_line lr = keep"
proof -
  obtain l where l: "arr_reserve mult alloc NUL (lb + 1) new_Array = Val (True, l)" "buffer_ok l lb"
    using reserve_cells [of new_Array mult lb alloc] assms(1,4) by (auto simp: new_Array_ok)
  obtain r where r: "arr_reserve mult alloc NUL (rb + 1) new_Array = Val (True, r)" "buffer_ok r rb"
    using reserve_cells [of new_Array mult rb alloc] assms(1,3) by (auto simp: new_Array_ok)
  obtain l2 where l2: "poke 0 [Some NUL] l = Val l2" "buffer_ok l2 lb" using poke_ok [OF l(2), of 0 "[Some NUL]"] by auto
  obtain r2 where r2: "poke 0 [Some NUL] r = Val r2" "buffer_ok r2 rb" using poke_ok [OF r(2), of 0 "[Some NUL]"] by auto
  let ?lr = "(new_LineReader rb lb keep delim)\<lparr> line_buff := l2, read_buff := r2,
    lr_file := Some \<lparr> fs_rest = s, fs_eof = False, fs_broken = False \<rparr> \<rparr>"
  have "buf_ptr l \<noteq> None" "buf_ptr r \<noteq> None" using l(2) r(2) by (simp_all add: buffer_ok_def)
  then have "open_reader mult alloc (Some \<lparr> fs_rest = s, fs_eof = False, fs_broken = False \<rparr>) (new_LineReader rb lb keep delim) = Val (True, ?lr)"
    using l r l2 r2
    by (simp add: new_Array_ok open_reader_def init_reader_def new_LineReader_def allocate_line_def allocate_read_buffer_def reset_reader_def Let_def)
  moreover have "reader_ok mult [] s ?lr"
    using l2 r2 assms(2,5) by (simp add: reader_ok_def new_LineReader_def buffered_def)
  ultimately show ?thesis by (intro exI [of _ ?lr]) (simp add: delimiter_byte_def new_LineReader_def)
qed

text \<open>Reading until there is nothing more; the first argument after the memory bounds the number of calls.\<close>

fun read_all :: "nat \<Rightarrow> (nat \<Rightarrow> bool) \<Rightarrow> nat \<Rightarrow> LineReader \<Rightarrow> char option list list option" where
  "read_all mult alloc 0 lr = None"
| "read_all mult alloc (Suc n) lr =
     (case read_next mult alloc lr of
        Some (Val (True, lr)) \<Rightarrow> map_option ((#) (get_read_data lr)) (read_all mult alloc n lr)
      | Some (Val (False, lr)) \<Rightarrow> (if lr_error lr then None else Some [])
      | _ \<Rightarrow> None)"

lemma read_all_ok:
  assumes "\<forall>n. alloc n"
  shows "reader_ok mult [] p lr \<Longrightarrow> length p < n \<Longrightarrow>
    read_all mult alloc n lr = Some (map (map Some) (text_lines (delimiter_byte lr) (put_delimiter_in_line lr) p))"
proof (induction n arbitrary: p lr)
  case (Suc n)
  let ?d = "delimiter_byte lr" and ?keep = "put_delimiter_in_line lr"
  obtain r lr' where r: "read_next mult alloc lr = Some (Val (r, lr'))" "line_read mult ?d ?keep p (r, lr')"
    using read_next_ok [OF assms Suc.prems(1)] by auto
  show ?case
  proof (cases "next_line ?d ?keep p")
    case None
    with r show ?thesis by (auto simp: line_read_def reader_ok_def text_lines.simps [of _ _ p])
  next
    case (Some lw)
    then obtain l rest where n: "next_line ?d ?keep p = Some (l, rest)" by (cases lw) auto
    have "read_all mult alloc n lr' = Some (map (map Some) (text_lines ?d ?keep rest))"
      using Suc.IH [of rest lr'] next_line_shorter [OF n] r(2) Suc.prems(2) n by (auto simp: line_read_def)
    then show ?thesis using r n by (auto simp: line_read_def text_lines.simps [of _ _ p])
  qed
qed simp

lemma concat_text_lines: "concat (text_lines d True p) = p"
proof (induction d True p rule: text_lines.induct)
  case (1 d p)
  show ?case
  proof (cases "next_line d True p")
    case None
    then show ?thesis by (simp add: text_lines.simps [of _ _ p]) (auto simp: next_line_def split: if_splits)
  next
    case (Some lw)
    then obtain l r where n: "next_line d True p = Some (l, r)" by (cases lw) auto
    moreover have "l @ r = p"
    proof (cases "d \<in> set p")
      case True
      then obtain a q where "p = a @ d # q" "d \<notin> set a" by (meson split_list_first)
      with n show ?thesis by (simp add: next_line_found)
    qed (use n in \<open>auto simp: next_line_def split: if_splits\<close>)
    ultimately show ?thesis using 1 by (simp add: text_lines.simps [of _ _ p])
  qed
qed

text \<open>C36. However small the buffers are, opening a text and reading until \<open>read_next\<close> returns false
  gives the lines of the text: every call returns, none writes behind a buffer, and no byte is
  lost, put twice or out of order (with the delimiter kept, the lines joined are the text).\<close>

theorem reader_gives_lines:
  assumes "\<forall>n. alloc n" "0 < rb" "room mult (rb + 1)" "room mult (lb + 1)" "room mult (length s + 1)"
  shows "\<exists>lr. open_reader mult alloc (Some \<lparr> fs_rest = s, fs_eof = False, fs_broken = False \<rparr>) (new_LineReader rb lb keep delim) = Val (True, lr) \<and>
    (\<forall>n > length s. read_all mult alloc n lr = Some (map (map Some) (text_lines (char_of (delim mod 256)) keep s))) \<and>
    concat (text_lines (char_of (delim mod 256)) True s) = s"
proof -
  obtain lr where lr: "open_reader mult alloc (Some \<lparr> fs_rest = s, fs_eof = False, fs_broken = False \<rparr>) (new_LineReader rb lb keep delim) = Val (True, lr)"
    "reader_ok mult [] s lr" "delimiter_byte lr = char_of (delim mod 256)" "put_delimiter_in_line lr = keep"
    using open_reader_ok [OF assms, of keep delim] by blast
  moreover have "read_all mult alloc n lr = Some (map (map Some) (text_lines (char_of (delim mod 256)) keep s))" if "n > length s" for n
    using read_all_ok [OF assms(1) lr(2) that] lr(3,4) by simp
  ultimately show ?thesis using concat_text_lines by blast
qed

theorem reader_gives_lines_witness:
  "\<exists>lr. open_reader 2 (\<lambda>_. True) (Some \<lparr> fs_rest = ''ab,c,'', fs_eof = False, fs_broken = False \<rparr>) (new_LineReader 2 1 False 44) = Val (True, lr) \<and>
    read_all 2 (\<lambda>_. True) 6 lr = Some [map Some ''ab'', map Some ''c'']"
proof -
  have "char_of (of_char (CHR '','') :: int) = CHR '',''" by (rule char_of_char)
  then have c: "char_of (44 mod 256 :: int) = CHR '',''" by simp
  have "text_lines (CHR '','') False ''ab,c,'' = [''ab'', ''c'']" by (simp add: text_lines.simps next_line_def)
  with reader_gives_lines [of "\<lambda>_. True" 2 2 1 "''ab,c,''" False 44] c show ?thesis by (auto simp: room_def)
qed

end
