(* ===== verification/Sihd_Url.thy ===== *)
theory Sihd_Url
  imports Sihd_StrNum Sihd_Splitter "HOL-Library.List_Lexorder"
begin

text \<open>
  The URI parser and builder (Url.cpp): percent-encoding, decoding of a text into its components
  and encoding of components into a text, with the proof that decoding undoes encoding. A
  \<open>std::map\<close> from strings is a list of entries with ascending keys.
\<close>

section \<open>Ordered maps\<close>

text \<open>\<open>m[k] = v\<close> of \<open>std::map\<close>.\<close>

fun map_assign :: "('k::linorder \<times> 'v) list \<Rightarrow> 'k \<Rightarrow> 'v \<Rightarrow> ('k \<times> 'v) list" where
  "map_assign [] k v = [(k, v)]"
| "map_assign ((k', v') # m) k v =
     (if k < k' then (k, v) # (k', v') # m
      else if k = k' then (k, v) # m
      else (k', v') # map_assign m k v)"

definition sorted_map :: "('k::linorder \<times> 'v) list \<Rightarrow> bool" where
  "sorted_map m \<longleftrightarrow> sorted_wrt (<) (map fst m)"

lemma map_of_map_assign [simp]: "map_of (map_assign m k v) = (map_of m)(k \<mapsto> v)"
  by (induction m k v rule: map_assign.induct) auto

lemma keys_map_assign: "fst ` set (map_assign m k v) = insert k (fst ` set m)"
  by (induction m k v rule: map_assign.induct) auto

lemma sorted_map_assign: "sorted_map m \<Longrightarrow> sorted_map (map_assign m k v)"
proof (induction m k v rule: map_assign.induct)
  case (2 k' v' m k v)
  then have "\<forall>x \<in> fst ` set m. k' < x" and "sorted_map m" by (auto simp: sorted_map_def)
  with 2 keys_map_assign [of m k v] show ?case
    by (auto simp: sorted_map_def simp flip: set_map)
qed (simp add: sorted_map_def)

lemma map_assign_above: "\<forall>x \<in> fst ` set m. x < k \<Longrightarrow> map_assign m k v = m @ [(k, v)]"
  by (induction m k v rule: map_assign.induct) auto


section \<open>Percent-encoding\<close>

definition is_unreserved :: "char \<Rightarrow> bool" where
  "is_unreserved c \<longleftrightarrow> 65 \<le> cv c \<and> cv c \<le> 90 \<or> 97 \<le> cv c \<and> cv c \<le> 122 \<or> 48 \<le> cv c \<and> cv c \<le> 57
     \<or> c = CHR ''-'' \<or> c = CHR ''_'' \<or> c = CHR ''.'' \<or> c = CHR ''~''"

definition hex_chars :: string where
  "hex_chars = ''0123456789ABCDEF''"

fun str_encode :: "string \<Rightarrow> string" where
  "str_encode [] = []"
| "str_encode (c # cs) =
     (if is_unreserved c then [c]
      else [CHR ''%'', hex_chars ! (cv c div 16), hex_chars ! (cv c mod 16)]) @ str_encode cs"

text \<open>\<open>from_hex\<close>; \<open>None\<close> is -1.\<close>

definition from_hex :: "char \<Rightarrow> nat option" where
  "from_hex c =
     (if 48 \<le> cv c \<and> cv c \<le> 57 then Some (cv c - 48)
      else if 65 \<le> cv c \<and> cv c \<le> 70 then Some (cv c - 65 + 10)
      else if 97 \<le> cv c \<and> cv c \<le> 102 then Some (cv c - 97 + 10)
      else None)"

text \<open>The loop over \<open>i\<close>: the argument is the text from \<open>i\<close> on.\<close>

fun str_decode :: "string \<Rightarrow> string" where
  "str_decode (c # a # b # cs) =
     (case (if c = CHR ''%'' then (from_hex a, from_hex b) else (None, None)) of
        (Some hi, Some lo) \<Rightarrow> char_of (hi * 16 + lo) # str_decode cs
      | _ \<Rightarrow> c # str_decode (a # b # cs))"
| "str_decode (c # cs) = c # str_decode cs"
| "str_decode [] = []"


section \<open>Decoding\<close>

record Url =
  url_scheme :: string
  url_userinfo :: string
  url_host :: string
  url_port :: int
  url_path :: string
  url_query_params :: "(string \<times> string) list"
  url_fragment :: string
  url_has_authority :: bool

definition new_Url :: Url where
  "new_Url = \<lparr> url_scheme = [], url_userinfo = [], url_host = [], url_port = 0, url_path = [],
     url_query_params = [], url_fragment = [], url_has_authority = False \<rparr>"

definition is_alpha :: "char \<Rightarrow> bool" where
  "is_alpha c \<longleftrightarrow> 65 \<le> cv c \<and> cv c \<le> 90 \<or> 97 \<le> cv c \<and> cv c \<le> 122"

definition is_scheme_char :: "char \<Rightarrow> bool" where
  "is_scheme_char c \<longleftrightarrow> is_alpha c \<or> 48 \<le> cv c \<and> cv c \<le> 57 \<or> c = CHR ''+'' \<or> c = CHR ''-'' \<or> c = CHR ''.''"

definition valid_scheme :: "string \<Rightarrow> bool" where
  "valid_scheme potential \<longleftrightarrow> is_alpha (potential ! 0) \<and> list_all is_scheme_char (tl potential)"

text \<open>The first step: the url so far and what remains.\<close>

definition parse_scheme :: "string \<Rightarrow> Url \<Rightarrow> Url \<times> string" where
  "parse_scheme remainder u =
     (case find_char remainder (CHR '':'') 0 of
        None \<Rightarrow> (u, remainder)
      | Some colon \<Rightarrow>
          if colon > 0 \<and> valid_scheme (take colon remainder)
          then (u\<lparr> url_scheme := take colon remainder \<rparr>, drop (colon + 1) remainder)
          else (u, remainder))"

text \<open>\<open>static_cast<int>\<close> of the long.\<close>

definition to_port :: "string \<Rightarrow> int option cxx" where
  "to_port s = cxx_bind (convert_from_string (TSigned 64) s 10) (\<lambda>r. Val (map_option (signed_take_bit 31) r))"

definition parse_host_port :: "string \<Rightarrow> Url \<Rightarrow> Url cxx" where
  "parse_host_port authority u =
     (if authority \<noteq> [] \<and> authority ! 0 = CHR ''['' then
        (case find_char authority (CHR '']'') 0 of
           None \<Rightarrow> Val u
         | Some bracket \<Rightarrow>
             let u = u\<lparr> url_host := take (bracket - 1) (drop 1 authority) \<rparr>;
                 authority = drop (bracket + 1) authority in
             if authority \<noteq> [] \<and> authority ! 0 = CHR '':'' then
               cxx_bind (to_port (drop 1 authority)) (\<lambda>p.
                 Val (case p of Some p \<Rightarrow> u\<lparr> url_port := p \<rparr> | None \<Rightarrow> u))
             else Val u)
      else
        (case rfind_char authority (CHR '':'') (length authority) of
           None \<Rightarrow> Val (u\<lparr> url_host := authority \<rparr>)
         | Some port_colon \<Rightarrow>
             cxx_bind (to_port (drop (port_colon + 1) authority)) (\<lambda>p.
               Val (case p of
                 Some p \<Rightarrow> u\<lparr> url_host := take port_colon authority, url_port := p \<rparr>
               | None \<Rightarrow> u\<lparr> url_host := authority \<rparr>))))"

definition parse_authority :: "string \<Rightarrow> Url \<Rightarrow> (Url \<times> string) cxx" where
  "parse_authority remainder u =
     (if length remainder \<ge> 2 \<and> remainder ! 0 = CHR ''/'' \<and> remainder ! 1 = CHR ''/'' then
        let u = u\<lparr> url_has_authority := True \<rparr>;
            remainder = drop 2 remainder;
            auth_end = find_first_of remainder ''/?#'' 0;
            authority = (case auth_end of Some e \<Rightarrow> take e remainder | None \<Rightarrow> remainder);
            remainder = (case auth_end of Some e \<Rightarrow> drop e remainder | None \<Rightarrow> []);
            (u, authority) = (case rfind_char authority (CHR ''@'') (length authority) of
                 Some at \<Rightarrow> (u\<lparr> url_userinfo := take at authority \<rparr>, drop (at + 1) authority)
               | None \<Rightarrow> (u, authority)) in
        cxx_bind (parse_host_port authority u) (\<lambda>u. Val (u, remainder))
      else Val (u, remainder))"

fun parse_params :: "string list \<Rightarrow> Url \<Rightarrow> Url cxx" where
  "parse_params [] u = Val u"
| "parse_params (param # params) u =
     cxx_bind (split_pair param ''='') (\<lambda>(key, v).
       parse_params params
         (if key \<noteq> [] then u\<lparr> url_query_params := map_assign (url_query_params u) (str_decode key) (str_decode v) \<rparr>
          else u))"

text \<open>The view of the query ends where the fragment begins, its buffer does not.\<close>

definition parse_path :: "string \<Rightarrow> Url \<Rightarrow> Url cxx" where
  "parse_path buffer u =
     (if buffer \<noteq> [] then
        let (u, remainder) = (case find_char buffer (CHR ''#'') 0 of
               Some frag_pos \<Rightarrow> (u\<lparr> url_fragment := drop (frag_pos + 1) buffer \<rparr>, take frag_pos buffer)
             | None \<Rightarrow> (u, buffer)) in
        (case find_char remainder (CHR ''?'') 0 of
           Some query_pos \<Rightarrow>
             parse_params
               (str_split (drop (query_pos + 1) buffer) (length remainder - (query_pos + 1)) ''&'')
               (u\<lparr> url_path := take query_pos remainder \<rparr>)
         | None \<Rightarrow> Val (u\<lparr> url_path := remainder \<rparr>))
      else Val u)"

definition default_path :: "Url \<Rightarrow> Url" where
  "default_path u = (if url_has_authority u \<and> url_path u = [] then u\<lparr> url_path := ''/'' \<rparr> else u)"

definition url_decode :: "string \<Rightarrow> Url cxx" where
  "url_decode url =
     (case parse_scheme url new_Url of (u, remainder) \<Rightarrow>
        cxx_bind (parse_authority remainder u) (\<lambda>(u, remainder).
          cxx_bind (parse_path remainder u) (\<lambda>u. Val (default_path u))))"


section \<open>Encoding\<close>

text \<open>\<open>std::to_string\<close> of an integer.\<close>

definition std_to_string :: "int \<Rightarrow> string" where
  "std_to_string i = (if i < 0 then CHR ''-'' # to_chars (nat (- i)) 10 else to_chars (nat i) 10)"

fun encode_params :: "(string \<times> string) list \<Rightarrow> bool \<Rightarrow> string \<Rightarrow> string" where
  "encode_params [] first result = result"
| "encode_params ((key, v) # params) first result =
     encode_params params False
       (result @ (if first then [] else ''&'') @ str_encode key @ ''='' @ str_encode v)"

definition encode_authority :: "Url \<Rightarrow> string" where
  "encode_authority u =
     (if url_userinfo u \<noteq> [] then url_userinfo u @ ''@'' else []) @
     (if find_char (url_host u) (CHR '':'') 0 \<noteq> None then ''['' @ url_host u @ '']'' else url_host u) @
     (if url_port u \<noteq> 0 then CHR '':'' # std_to_string (url_port u) else [])"

definition url_encode :: "Url \<Rightarrow> string" where
  "url_encode u =
     (let result = (if url_scheme u \<noteq> [] then url_scheme u @ '':'' else []);
          result = (if url_has_authority u then result @ ''//'' @ encode_authority u else result);
          result = result @ url_path u;
          result = (if url_query_params u \<noteq> [] then encode_params (url_query_params u) True (result @ ''?'') else result) in
      if url_fragment u \<noteq> [] then result @ ''#'' @ url_fragment u else result)"

section \<open>Percent-decoding undoes encoding\<close>

lemma str_decode_plain [simp]: "c \<noteq> CHR ''%'' \<Longrightarrow> str_decode (c # cs) = c # str_decode cs"
proof (cases cs)
  case (Cons a as)
  then show "c \<noteq> CHR ''%'' \<Longrightarrow> ?thesis" by (cases as) simp_all
qed simp

lemma hex_chars_digits:
  "list_all (\<lambda>n. from_hex (hex_chars ! n) = Some n \<and> is_unreserved (hex_chars ! n)) [0..<16]"
  by code_simp

lemma hex_chars_nth: "n < 16 \<Longrightarrow> from_hex (hex_chars ! n) = Some n \<and> is_unreserved (hex_chars ! n)"
  using hex_chars_digits by (auto simp: list_all_iff)

lemma not_unreserved:
  "\<not> is_unreserved (CHR ''%'')" "\<not> is_unreserved (CHR ''&'')" "\<not> is_unreserved (CHR ''='')"
  "\<not> is_unreserved (CHR ''#'')" "\<not> is_unreserved (CHR ''?'')" "\<not> is_unreserved (CHR '':'')"
  "\<not> is_unreserved NUL"
  by code_simp+

lemma str_decode_encode [simp]: "str_decode (str_encode s) = s"
proof (induction s)
  case (Cons c s)
  have "cv c div 16 < 16" using cv_less [of c] by (simp add: less_mult_imp_div_less del: cv_less)
  moreover have "c \<noteq> CHR ''%''" if "is_unreserved c" using not_unreserved(1) that by blast
  ultimately show ?case using Cons hex_chars_nth [of "cv c div 16"] hex_chars_nth [of "cv c mod 16"]
    by (cases "is_unreserved c") (auto simp: mult.commute [of _ 16])
qed simp

lemma str_encode_Nil [simp]: "str_encode s = [] \<longleftrightarrow> s = []"
  by (cases s) auto

lemma set_str_encode: "c \<in> set (str_encode s) \<Longrightarrow> is_unreserved c \<or> c = CHR ''%''"
proof (induction s)
  case (Cons x s)
  have "cv x div 16 < 16" using cv_less [of x] by (simp add: less_mult_imp_div_less del: cv_less)
  with Cons hex_chars_nth [of "cv x div 16"] hex_chars_nth [of "cv x mod 16"] show ?case
    by (auto split: if_splits)
qed simp

lemma str_encode_avoids:
  "CHR ''&'' \<notin> set (str_encode s)" "CHR ''='' \<notin> set (str_encode s)" "CHR ''#'' \<notin> set (str_encode s)"
  "CHR ''?'' \<notin> set (str_encode s)" "CHR '':'' \<notin> set (str_encode s)" "no_nul (str_encode s)"
  using set_str_encode not_unreserved by (auto simp: no_nul_def dest: set_str_encode)


section \<open>Decoding undoes encoding\<close>

subsection \<open>The query\<close>

definition param_text :: "string \<times> string \<Rightarrow> string" where
  "param_text kv = str_encode (fst kv) @ ''='' @ str_encode (snd kv)"

lemma encode_params_join:
  "encode_params kvs first result =
     result @ (if first \<or> kvs = [] then [] else ''&'') @ join (map param_text kvs) ''&''"
proof (induction kvs first result rule: encode_params.induct)
  case (2 key v kvs first result)
  then show ?case by (cases kvs) (auto simp: param_text_def)
qed simp

lemma parse_params_texts:
  "\<forall>kv \<in> set kvs. fst kv \<noteq> [] \<Longrightarrow> sorted_map (url_query_params u @ kvs) \<Longrightarrow>
    parse_params (map param_text kvs) u = Val (u\<lparr> url_query_params := url_query_params u @ kvs \<rparr>)"
proof (induction kvs arbitrary: u)
  case (Cons kv kvs)
  obtain k v where kv: "kv = (k, v)" by (cases kv)
  have "split_pair (param_text kv) ''='' = Val (str_encode k, str_encode v)"
    using split_pair_entry [of "str_encode k" "CHR ''=''" "str_encode v"] Cons.prems(1) kv
    by (simp add: param_text_def str_encode_avoids)
  moreover have "map_assign (url_query_params u) k v = url_query_params u @ [kv]"
    using Cons.prems(2) kv by (intro map_assign_above [where k = k, THEN trans])
      (auto simp: sorted_map_def sorted_wrt_append)
  ultimately show ?case using Cons kv by simp
qed simp

lemma split_params:
  assumes "kvs \<noteq> []"
  shows "str_split (join (map param_text kvs) ''&'' @ z) (length (join (map param_text kvs) ''&'')) ''&'' = map param_text kvs"
  using assms by (intro str_split_join) (auto simp: param_text_def str_encode_avoids)

lemma params_avoid:
  "CHR ''#'' \<notin> set (join (map param_text kvs) ''&'')" "CHR '':'' \<notin> set (join (map param_text kvs) ''&'')"
  by (auto simp: param_text_def str_encode_avoids dest!: set_joinD)

subsection \<open>The port\<close>

lemma to_port_nat:
  "n < 2 ^ 63 \<Longrightarrow> to_signed (to_chars n 10) 10 = Val (Some (int n)) \<and>
    to_signed (CHR ''-'' # to_chars n 10) 10 = Val (Some (- int n))"
  by (simp add: to_signed_def resolve_base_prefix_to_chars from_chars_signed_to_chars)

lemma to_port_text: "- (2 ^ 31) \<le> i \<Longrightarrow> i < 2 ^ 31 \<Longrightarrow> to_port (std_to_string i) = Val (Some i)"
proof -
  assume i: "- (2 ^ 31) \<le> i" "i < 2 ^ 31"
  have "to_signed (std_to_string i) 10 = Val (Some i)"
    using to_port_nat [of "nat i"] to_port_nat [of "nat (- i)"] i by (simp add: std_to_string_def)
  moreover have "signed_take_bit 63 i = i" "signed_take_bit 31 i = i"
    using i by (simp_all add: signed_take_bit_int_eq_self)
  ultimately show ?thesis by (simp add: to_port_def convert_from_string_def)
qed

lemma digits_avoid:
  assumes "\<not> (48 \<le> cv c \<and> cv c \<le> 57)" "c \<noteq> CHR ''-''"
  shows "c \<notin> set (std_to_string i)"
proof -
  have "48 \<le> cv x \<and> cv x \<le> 57" if "x \<in> set (to_chars n 10)" for x n
    using to_chars_digits [OF _ _ that] by (auto simp: std_digit_def)
  with assms show ?thesis by (auto simp: std_to_string_def)
qed


subsection \<open>The authority\<close>

lemma rfind_char_prefix: "n \<le> length s \<Longrightarrow> rfind_char (s @ ys) c n = rfind_char s c n"
  by (induction n) (auto simp: nth_append)

lemma rfind_char_append: "c \<notin> set ys \<Longrightarrow> rfind_char (xs @ c # ys) c (length (xs @ c # ys)) = Some (length xs)"
proof (induction ys rule: rev_induct)
  case (snoc y ys)
  let ?s = "xs @ c # ys"
  have "rfind_char (?s @ [y]) c (Suc (length ?s)) = rfind_char (?s @ [y]) c (length ?s)"
    unfolding rfind_char.simps nth_append_length using snoc.prems by auto
  with snoc show ?case by (simp add: rfind_char_prefix [of "length ?s" ?s "[y]", simplified])
qed simp

lemma rfind_char_none: "c \<notin> set s \<Longrightarrow> n \<le> length s \<Longrightarrow> rfind_char s c n = None"
  by (induction n) auto

text \<open>What a url must satisfy to be told apart from its text.\<close>

definition authority_ok :: "Url \<Rightarrow> bool" where
  "authority_ok u \<longleftrightarrow>
     list_all (\<lambda>c. c \<notin> set ''/?#'') (url_userinfo u @ url_host u) \<and> CHR ''@'' \<notin> set (url_host u) \<and>
     (if CHR '':'' \<in> set (url_host u) then CHR '']'' \<notin> set (url_host u)
      else url_host u = [] \<or> hd (url_host u) \<noteq> CHR ''['') \<and>
     - (2 ^ 31) \<le> url_port u \<and> url_port u < 2 ^ 31"

definition host_port_text :: "Url \<Rightarrow> string" where
  "host_port_text u =
     (if CHR '':'' \<in> set (url_host u) then ''['' @ url_host u @ '']'' else url_host u) @
     (if url_port u \<noteq> 0 then CHR '':'' # std_to_string (url_port u) else [])"

lemma find_char_iff: "find_char s c 0 = None \<longleftrightarrow> c \<notin> set s"
proof
  assume "find_char s c 0 = None"
  from find_if_from_NoneD [OF this] show "c \<notin> set s" by (auto simp: in_set_conv_nth)
next
  assume "c \<notin> set s"
  then show "find_char s c 0 = None" by (intro find_if_from_none) auto
qed

lemma parse_host_port_text:
  assumes "authority_ok u" "url_host v = []" "url_port v = 0"
  shows "parse_host_port (host_port_text u) v = Val (v\<lparr> url_host := url_host u, url_port := url_port u \<rparr>)"
proof -
  have port: "to_port (std_to_string (url_port u)) = Val (Some (url_port u))"
    using assms(1) by (intro to_port_text) (simp_all add: authority_ok_def)
  have [simp]: "v\<lparr> url_host := h, url_port := 0 \<rparr> = v\<lparr> url_host := h \<rparr>" for h using assms(3) by (cases v) simp
  show ?thesis
  proof (cases "CHR '':'' \<in> set (url_host u)")
    case True
    then have f: "find_char (''['' @ url_host u @ '']'' @ r) (CHR '']'') 0 = Some (Suc (length (url_host u)))" for r
      using find_if_from_append [of "''['' @ url_host u" "\<lambda>x. x = CHR '']''" "CHR '']''" r] assms(1)
      by (auto simp: authority_ok_def)
    show ?thesis
      using True f [of "[]"] f [of "CHR '':'' # std_to_string (url_port u)"] port
      by (simp add: parse_host_port_def host_port_text_def)
  next
    case False
    then have "\<not> (host_port_text u \<noteq> [] \<and> host_port_text u ! 0 = CHR ''['')"
      using assms(1) by (cases "url_host u") (auto simp: authority_ok_def host_port_text_def)
    moreover have "CHR '':'' \<notin> set (std_to_string (url_port u))" by (rule digits_avoid) simp_all
    then have "rfind_char (host_port_text u) (CHR '':'') (length (host_port_text u)) =
        (if url_port u \<noteq> 0 then Some (length (url_host u)) else None)"
      using False rfind_char_append [of "CHR '':''" "std_to_string (url_port u)" "url_host u"]
      by (simp add: host_port_text_def rfind_char_none)
    ultimately show ?thesis
      unfolding parse_host_port_def if_not_P [OF \<open>\<not> (host_port_text u \<noteq> [] \<and> _)\<close>]
      using port False by (cases "url_port u = 0") (simp_all add: host_port_text_def)
  qed
qed

lemma encode_authority_eq:
  "encode_authority u = (if url_userinfo u \<noteq> [] then url_userinfo u @ ''@'' else []) @ host_port_text u"
  by (simp add: encode_authority_def host_port_text_def find_char_iff)

lemma parse_authority_text:
  assumes "authority_ok u" "url_host v = []" "url_port v = 0" "url_userinfo v = []"
    and "rest = [] \<or> hd rest \<in> set ''/?#''"
  shows "parse_authority (''//'' @ encode_authority u @ rest) v =
    Val (v\<lparr> url_has_authority := True, url_userinfo := url_userinfo u, url_host := url_host u,
      url_port := url_port u \<rparr>, rest)"
proof -
  let ?a = "encode_authority u"
  have digits: "c \<notin> set (std_to_string (url_port u))" if "c \<in> set ''/?#@''" for c
    using that by (intro digits_avoid) auto
  have a: "\<forall>c \<in> set ?a. c \<notin> set ''/?#''"
    using assms(1) digits
    by (auto simp: encode_authority_eq host_port_text_def authority_ok_def list_all_iff split: if_splits)
  have at: "CHR ''@'' \<notin> set (host_port_text u)"
    using assms(1) digits by (auto simp: host_port_text_def authority_ok_def)
  have e: "find_first_of (?a @ rest) ''/?#'' 0 = (if rest = [] then None else Some (length ?a))"
  proof (cases rest)
    case Nil
    with a show ?thesis by (simp add: find_if_from_none)
  next
    case (Cons c cs)
    with find_if_from_append [OF a, of c cs] assms(5) show ?thesis by simp
  qed
  let ?v = "v\<lparr> url_has_authority := True \<rparr>"
  have [simp]: "?v\<lparr> url_userinfo := [] \<rparr> = ?v" using assms(4) by (cases v) simp
  have r: "(case rfind_char ?a (CHR ''@'') (length ?a) of
       Some at \<Rightarrow> (?v\<lparr> url_userinfo := take at ?a \<rparr>, drop (at + 1) ?a)
     | None \<Rightarrow> (?v, ?a)) = (?v\<lparr> url_userinfo := url_userinfo u \<rparr>, host_port_text u)"
  proof (cases "url_userinfo u = []")
    case True
    with at show ?thesis by (simp add: encode_authority_eq rfind_char_none)
  next
    case False
    with rfind_char_append [OF at, of "url_userinfo u"] show ?thesis by (simp add: encode_authority_eq)
  qed
  have "(case find_first_of (?a @ rest) ''/?#'' 0 of Some e \<Rightarrow> take e (?a @ rest) | None \<Rightarrow> ?a @ rest) = ?a"
    "(case find_first_of (?a @ rest) ''/?#'' 0 of Some e \<Rightarrow> drop e (?a @ rest) | None \<Rightarrow> []) = rest"
    unfolding e by simp_all
  note steps = this r
  have "drop 2 (''//'' @ ?a @ rest) = ?a @ rest" "2 \<le> length (''//'' @ ?a @ rest) \<and>
      (''//'' @ ?a @ rest) ! 0 = CHR ''/'' \<and> (''//'' @ ?a @ rest) ! 1 = CHR ''/''" by simp_all
  then show ?thesis
    using parse_host_port_text [OF assms(1), of "?v\<lparr> url_userinfo := url_userinfo u \<rparr>"] assms(2,3)
    unfolding parse_authority_def by (simp only: Let_def steps) simp
qed

subsection \<open>The path, the query and the fragment\<close>

definition query_text :: "Url \<Rightarrow> string" where
  "query_text u = (if url_query_params u \<noteq> [] then ''?'' @ join (map param_text (url_query_params u)) ''&'' else [])"

definition fragment_text :: "Url \<Rightarrow> string" where
  "fragment_text u = (if url_fragment u \<noteq> [] then ''#'' @ url_fragment u else [])"

definition path_ok :: "Url \<Rightarrow> bool" where
  "path_ok u \<longleftrightarrow> CHR ''?'' \<notin> set (url_path u) \<and> CHR ''#'' \<notin> set (url_path u) \<and>
     list_all (\<lambda>kv. fst kv \<noteq> []) (url_query_params u) \<and> sorted_map (url_query_params u)"

lemma query_text_avoids:
  "CHR ''#'' \<notin> set (query_text u)" "CHR '':'' \<notin> set (query_text u)"
  by (auto simp: query_text_def params_avoid)

lemma split_fragment:
  assumes "CHR ''#'' \<notin> set s" "url_fragment v = []"
  shows "(case find_char (s @ fragment_text u) (CHR ''#'') 0 of
      Some frag_pos \<Rightarrow> (v\<lparr> url_fragment := drop (frag_pos + 1) (s @ fragment_text u) \<rparr>, take frag_pos (s @ fragment_text u))
    | None \<Rightarrow> (v, s @ fragment_text u)) = (v\<lparr> url_fragment := url_fragment u \<rparr>, s)"
proof (cases "url_fragment u = []")
  case True
  moreover have "find_char s (CHR ''#'') 0 = None" using assms(1) by (simp add: find_char_iff)
  ultimately show ?thesis using assms(2) by (cases v) (simp add: fragment_text_def)
next
  case False
  have "find_char (s @ CHR ''#'' # url_fragment u) (CHR ''#'') 0 = Some (length s)"
    by (rule find_if_from_append) (use assms(1) in auto)
  with False show ?thesis by (simp add: fragment_text_def)
qed

lemma parse_query_text:
  assumes "path_ok u" "url_query_params v = []" "buffer = url_path u @ query_text u @ z"
  shows "(case find_char (url_path u @ query_text u) (CHR ''?'') 0 of
      Some query_pos \<Rightarrow>
        parse_params (str_split (drop (query_pos + 1) buffer) (length (url_path u @ query_text u) - (query_pos + 1)) ''&'')
          (v\<lparr> url_path := take query_pos (url_path u @ query_text u) \<rparr>)
    | None \<Rightarrow> Val (v\<lparr> url_path := url_path u @ query_text u \<rparr>)) =
    Val (v\<lparr> url_path := url_path u, url_query_params := url_query_params u \<rparr>)"
proof (cases "url_query_params u = []")
  case True
  then have "find_char (url_path u @ query_text u) (CHR ''?'') 0 = None" and q: "query_text u = []"
    using assms(1) by (simp_all add: query_text_def find_char_iff path_ok_def)
  moreover have "v\<lparr> url_path := p, url_query_params := [] \<rparr> = v\<lparr> url_path := p \<rparr>" for p
    using assms(2) by (cases v) simp
  ultimately show ?thesis using True by simp
next
  case False
  let ?q = "join (map param_text (url_query_params u)) ''&''"
  have q: "query_text u = CHR ''?'' # ?q" using False by (simp add: query_text_def)
  have "find_char (url_path u @ CHR ''?'' # ?q) (CHR ''?'') 0 = Some (length (url_path u))"
    by (rule find_if_from_append) (use assms(1) in \<open>auto simp: path_ok_def\<close>)
  moreover have "parse_params (map param_text (url_query_params u)) (v\<lparr> url_path := url_path u \<rparr>) =
      Val (v\<lparr> url_path := url_path u, url_query_params := url_query_params u \<rparr>)"
    using parse_params_texts [of "url_query_params u" "v\<lparr> url_path := url_path u \<rparr>"] assms(1,2)
    by (simp add: path_ok_def list_all_iff)
  ultimately show ?thesis using split_params [OF False, of z] assms(3) by (simp add: q)
qed

lemma parse_path_text:
  assumes "path_ok u" "url_query_params v = []" "url_fragment v = []" "url_path v = []"
  shows "parse_path (url_path u @ query_text u @ fragment_text u) v =
    Val (v\<lparr> url_fragment := url_fragment u, url_path := url_path u, url_query_params := url_query_params u \<rparr>)"
proof (cases "url_path u @ query_text u @ fragment_text u = []")
  case True
  then show ?thesis using assms(2-4)
    by (cases v) (auto simp: parse_path_def query_text_def fragment_text_def split: if_splits)
next
  case False
  have "CHR ''#'' \<notin> set (url_path u @ query_text u)"
    using assms(1) query_text_avoids by (simp add: path_ok_def)
  note frag = split_fragment [OF this assms(3), of u, simplified append_assoc]
  have [simp]: "url_query_params (v\<lparr> url_fragment := f \<rparr>) = []" for f using assms(2) by simp
  show ?thesis unfolding parse_path_def if_P [OF False] Let_def frag prod.case
    using parse_query_text [OF assms(1) _ refl, of "v\<lparr> url_fragment := url_fragment u \<rparr>" "fragment_text u"] by simp
qed


subsection \<open>The scheme\<close>

lemma valid_scheme_chars: "valid_scheme s \<Longrightarrow> s \<noteq> [] \<Longrightarrow> c \<in> set s \<Longrightarrow> is_scheme_char c"
  by (cases s) (auto simp: valid_scheme_def is_scheme_char_def list_all_iff)

lemma not_scheme_char: "\<not> is_scheme_char (CHR '':'')" "\<not> is_scheme_char (CHR ''/'')" "\<not> is_scheme_char (CHR ''#'')"
  by code_simp+

lemma parse_scheme_text:
  "s \<noteq> [] \<Longrightarrow> valid_scheme s \<Longrightarrow> parse_scheme (s @ CHR '':'' # r) v = (v\<lparr> url_scheme := s \<rparr>, r)"
proof -
  assume s: "s \<noteq> []" "valid_scheme s"
  then have "find_char (s @ CHR '':'' # r) (CHR '':'') 0 = Some (length s)"
    using valid_scheme_chars [OF s(2,1)] not_scheme_char(1) by (intro find_if_from_append) auto
  with s show ?thesis by (simp add: parse_scheme_def)
qed

text \<open>A slash or a number sign before the first colon makes it no scheme.\<close>

lemma parse_no_scheme:
  assumes "CHR '':'' \<notin> set a" "c \<in> set ''/#''"
  shows "parse_scheme (a @ c # r) v = (v, a @ c # r)"
proof (cases "find_char (a @ c # r) (CHR '':'') 0")
  case None
  then show ?thesis by (simp add: parse_scheme_def)
next
  case (Some i)
  from find_if_from_SomeD [OF Some] have colon: "(a @ c # r) ! i = CHR '':''" by simp
  have "length a < i"
  proof (rule ccontr)
    assume "\<not> length a < i"
    then consider "i < length a" | "i = length a" by linarith
    then show False using colon assms nth_mem [of i a] by cases (auto simp: nth_append)
  qed
  then have i: "c \<in> set (take i (a @ c # r))" "take i (a @ c # r) \<noteq> []"
    by (simp_all add: take_Cons')
  have "\<not> is_scheme_char c" using assms(2) not_scheme_char by auto
  then have "\<not> valid_scheme (take i (a @ c # r))" using valid_scheme_chars i by blast
  with Some show ?thesis by (simp add: parse_scheme_def)
qed

lemma parse_colonless: "CHR '':'' \<notin> set s \<Longrightarrow> parse_scheme s v = (v, s)"
  using iffD2 [OF find_char_iff] by (simp add: parse_scheme_def)


subsection \<open>The whole url\<close>

definition url_ok :: "Url \<Rightarrow> bool" where
  "url_ok u \<longleftrightarrow>
     (url_scheme u = [] \<or> valid_scheme (url_scheme u)) \<and> path_ok u \<and>
     (if url_has_authority u then authority_ok u \<and> url_path u \<noteq> [] \<and> hd (url_path u) = CHR ''/''
      else url_userinfo u = [] \<and> url_host u = [] \<and> url_port u = 0 \<and> \<not> prefix ''//'' (url_path u) \<and>
        (url_scheme u = [] \<longrightarrow> CHR '':'' \<notin> set (url_path u)))"

lemma url_encode_eq:
  "url_encode u = (if url_scheme u \<noteq> [] then url_scheme u @ '':'' else []) @
     (if url_has_authority u then ''//'' @ encode_authority u else []) @
     url_path u @ query_text u @ fragment_text u"
  by (simp add: url_encode_def query_text_def fragment_text_def encode_params_join Let_def)

lemma parse_scheme_encoded:
  assumes "url_ok u"
  shows "parse_scheme (url_encode u) new_Url = (new_Url\<lparr> url_scheme := url_scheme u \<rparr>,
    (if url_has_authority u then ''//'' @ encode_authority u else []) @ url_path u @ query_text u @ fragment_text u)"
proof (cases "url_scheme u = []")
  case False
  with assms parse_scheme_text show ?thesis by (simp add: url_encode_eq url_ok_def)
next
  case True
  have new: "new_Url\<lparr> url_scheme := [] \<rparr> = new_Url" by (simp add: new_Url_def)
  show ?thesis
  proof (cases "url_has_authority u")
    case True
    with parse_no_scheme [of "[]" "CHR ''/''"] new \<open>url_scheme u = []\<close> show ?thesis
      by (simp add: url_encode_eq)
  next
    case False
    with assms True have c: "CHR '':'' \<notin> set (url_path u @ query_text u)"
      using query_text_avoids by (simp add: url_ok_def)
    show ?thesis
    proof (cases "url_fragment u = []")
      case e: True
      with c parse_colonless False new True show ?thesis by (simp add: url_encode_eq fragment_text_def)
    next
      case e: False
      with parse_no_scheme [OF c, of "CHR ''#''" "url_fragment u"] False new True show ?thesis
        by (simp add: url_encode_eq fragment_text_def)
    qed
  qed
qed

lemma parse_authority_encoded:
  assumes "url_ok u"
  shows "parse_authority ((if url_has_authority u then ''//'' @ encode_authority u else []) @ url_path u @ query_text u @ fragment_text u)
      (new_Url\<lparr> url_scheme := url_scheme u \<rparr>) =
    Val (new_Url\<lparr> url_scheme := url_scheme u, url_has_authority := url_has_authority u, url_userinfo := url_userinfo u,
      url_host := url_host u, url_port := url_port u \<rparr>, url_path u @ query_text u @ fragment_text u)"
proof (cases "url_has_authority u")
  case True
  with assms parse_authority_text [of u "new_Url\<lparr> url_scheme := url_scheme u \<rparr>" "url_path u @ query_text u @ fragment_text u"]
  show ?thesis by (simp add: url_ok_def new_Url_def)
next
  case False
  let ?r = "url_path u @ query_text u @ fragment_text u"
  have n: "\<not> (length ?r \<ge> 2 \<and> ?r ! 0 = CHR ''/'' \<and> ?r ! 1 = CHR ''/'')"
  proof
    assume r: "length ?r \<ge> 2 \<and> ?r ! 0 = CHR ''/'' \<and> ?r ! 1 = CHR ''/''"
    obtain s where s: "query_text u @ fragment_text u = s" and "s = [] \<or> hd s \<in> set ''?#''"
      by (auto simp: query_text_def fragment_text_def)
    with r False assms show False
      by (cases "url_path u"; cases "tl (url_path u)"; cases s) (auto simp: url_ok_def)
  qed
  have "parse_authority ?r v = Val (v, ?r)" for v unfolding parse_authority_def by (rule if_not_P [OF n])
  then show ?thesis unfolding if_not_P [OF False] append_Nil
    using False assms by (simp add: url_ok_def new_Url_def)
qed

text \<open>A parameter without an equals sign is lost.\<close>

lemma param_without_value_is_lost: "parse_params [''flag''] u = Val u"
  by (simp add: split_pair_def split_pair_view_def find_if_from.simps)

text \<open>C37. Decoding the text of a url gives the url back, whatever bytes the keys and values of its query hold,
  for every url whose components can be told apart in its text.\<close>

theorem url_roundtrip:
  assumes "url_ok u"
  shows "url_decode (url_encode u) = Val u"
proof -
  let ?v = "new_Url\<lparr> url_scheme := url_scheme u, url_has_authority := url_has_authority u, url_userinfo := url_userinfo u,
      url_host := url_host u, url_port := url_port u \<rparr>"
  have "parse_path (url_path u @ query_text u @ fragment_text u) ?v =
      Val (?v\<lparr> url_fragment := url_fragment u, url_path := url_path u, url_query_params := url_query_params u \<rparr>)"
    using assms by (intro parse_path_text) (simp_all add: url_ok_def new_Url_def)
  also have "?v\<lparr> url_fragment := url_fragment u, url_path := url_path u, url_query_params := url_query_params u \<rparr> = u"
    by (simp add: new_Url_def)
  finally show ?thesis
    using parse_scheme_encoded [OF assms] parse_authority_encoded [OF assms] assms
    by (auto simp: url_decode_def default_path_def url_ok_def)
qed


theorem url_roundtrip_witness:
  "let u = \<lparr> url_scheme = ''https'', url_userinfo = ''me:pw'', url_host = ''::1'', url_port = 8042, url_path = ''/a'',
      url_query_params = [(''k'', ''=&%''), (''q'', [])], url_fragment = ''x:y'', url_has_authority = True \<rparr> in
   url_decode (url_encode u) = Val u"
  unfolding Let_def
proof (rule url_roundtrip, unfold url_ok_def path_ok_def authority_ok_def Url.simps, intro conjI)
  show "''https'' = [] \<or> valid_scheme ''https''" by code_simp
  show "sorted_map [(''k'', ''=&%''), (''q'', [])]" by (simp add: sorted_map_def less_char_def)
qed (simp_all)

end
