(* ===== verification/Sihd_Robots.thy ===== *)
theory Sihd_Robots
  imports Sihd_StrNum Sihd_Splitter
begin

text \<open>
  The robots.txt rules of the navigator (RobotsTxt.cpp): parsing line by line into rules per
  agent, and the decision whether an agent may fetch a path, which is shown to be the one of
  RFC 9309 (the longest matching rule, allow winning a tie) on the groups of the file. The answer
  of the server is an argument of \<open>fetch\<close>, the steady clock a number of nanoseconds.
\<close>

section \<open>State\<close>

record Rule =
  rule_allow :: bool
  rule_path :: string

record AgentRules =
  ar_rules :: "Rule list"
  ar_crawl_delay_s :: "int option"

record RobotsTxt =
  rt_agents :: "string \<rightharpoonup> AgentRules"
  rt_ttl :: int
  rt_fetched_at :: int
  rt_fetched :: bool

definition new_AgentRules :: AgentRules where
  "new_AgentRules = \<lparr> ar_rules = [], ar_crawl_delay_s = None \<rparr>"



section \<open>Parsing\<close>

text \<open>The variables of the loop: the agents, the agents of the current block, and whether it has rules.\<close>

record parse_state =
  ps_agents :: "string \<rightharpoonup> AgentRules"
  ps_current :: "string list"
  ps_in_block :: bool

definition strip_line :: "string \<Rightarrow> string" where
  "strip_line line_buf =
     (let line = trim line_buf;
          line = (case find_char line (CHR ''#'') 0 of Some comment \<Rightarrow> take comment line | None \<Rightarrow> line) in
      trim line)"

text \<open>\<open>emplace\<close> keeps an entry that is there; \<open>_agents[a]\<close> makes one that is not.\<close>

definition ensure_agent :: "string \<Rightarrow> (string \<rightharpoonup> AgentRules) \<Rightarrow> (string \<rightharpoonup> AgentRules)" where
  "ensure_agent a agents = emplace agents a new_AgentRules"

definition change_agent :: "(AgentRules \<Rightarrow> AgentRules) \<Rightarrow> string \<Rightarrow> (string \<rightharpoonup> AgentRules) \<Rightarrow> (string \<rightharpoonup> AgentRules)" where
  "change_agent f a agents = agents(a \<mapsto> f (case agents a of Some ar \<Rightarrow> ar | None \<Rightarrow> new_AgentRules))"

definition add_rule :: "Rule \<Rightarrow> AgentRules \<Rightarrow> AgentRules" where
  "add_rule rule ar = ar\<lparr> ar_rules := ar_rules ar @ [rule] \<rparr>"

definition on_user_agent :: "string \<Rightarrow> parse_state \<Rightarrow> parse_state" where
  "on_user_agent value ps =
     (let current = (if ps_in_block ps then [] else ps_current ps) @ [to_lower value] in
      ps\<lparr> ps_current := current, ps_agents := fold ensure_agent current (ps_agents ps) \<rparr>)"

definition on_rule :: "bool \<Rightarrow> string \<Rightarrow> parse_state \<Rightarrow> parse_state" where
  "on_rule allow value ps =
     (if ps_current ps \<noteq> [] then
        ps\<lparr> ps_in_block := True,
            ps_agents := fold (change_agent (add_rule \<lparr> rule_allow = allow, rule_path = value \<rparr>)) (ps_current ps) (ps_agents ps) \<rparr>
      else ps)"

definition on_crawl_delay :: "string \<Rightarrow> parse_state \<Rightarrow> parse_state cxx" where
  "on_crawl_delay value ps =
     (if ps_current ps \<noteq> [] then
        cxx_bind (convert_from_string (TSigned 64) value 10) (\<lambda>delay.
          Val (case delay of
            Some d \<Rightarrow> ps\<lparr> ps_agents := fold (change_agent (ar_crawl_delay_s_update (\<lambda>_. Some d))) (ps_current ps) (ps_agents ps) \<rparr>
          | None \<Rightarrow> ps))
      else Val ps)"

definition parse_line :: "string \<Rightarrow> parse_state \<Rightarrow> parse_state cxx" where
  "parse_line line_buf ps =
     (let line = strip_line line_buf in
      if line = [] then Val (ps\<lparr> ps_current := [], ps_in_block := False \<rparr>)
      else case find_char line (CHR '':'') 0 of
        None \<Rightarrow> Val ps
      | Some colon \<Rightarrow>
          let key = to_lower (trim (take colon line)); value = trim (drop (colon + 1) line) in
          if key = ''user-agent'' then Val (on_user_agent value ps)
          else if key = ''disallow'' \<or> key = ''allow'' then Val (on_rule (key = ''allow'') value ps)
          else if key = ''crawl-delay'' then on_crawl_delay value ps
          else Val ps)"

fun parse_lines :: "string list \<Rightarrow> parse_state \<Rightarrow> parse_state cxx" where
  "parse_lines [] ps = Val ps"
| "parse_lines (l # ls) ps = cxx_bind (parse_line l ps) (parse_lines ls)"

definition robots_parse :: "string \<Rightarrow> RobotsTxt \<Rightarrow> RobotsTxt cxx" where
  "robots_parse content rt =
     cxx_bind (parse_lines (str_split content (length content) [CHR 0x0A])
         \<lparr> ps_agents = Map.empty, ps_current = [], ps_in_block = False \<rparr>)
       (\<lambda>ps. Val (rt\<lparr> rt_agents := ps_agents ps \<rparr>))"


section \<open>Queries\<close>

definition robots_clear :: "RobotsTxt \<Rightarrow> RobotsTxt" where
  "robots_clear rt = rt\<lparr> rt_agents := Map.empty, rt_fetched := False \<rparr>"

definition find_rules :: "RobotsTxt \<Rightarrow> string \<Rightarrow> AgentRules option" where
  "find_rules rt user_agent =
     (case rt_agents rt (to_lower user_agent) of
        Some ar \<Rightarrow> Some ar
      | None \<Rightarrow> rt_agents rt ''*'')"



definition crawl_delay :: "RobotsTxt \<Rightarrow> string \<Rightarrow> int option" where
  "crawl_delay rt user_agent =
     (case find_rules rt user_agent of None \<Rightarrow> None | Some rules \<Rightarrow> ar_crawl_delay_s rules)"

definition robots_is_valid :: "RobotsTxt \<Rightarrow> int \<Rightarrow> bool" where
  "robots_is_valid rt now = (if \<not> rt_fetched rt then False else now - rt_fetched_at rt < rt_ttl rt * 10 ^ 9)"

definition robots_set_ttl :: "RobotsTxt \<Rightarrow> int \<Rightarrow> RobotsTxt" where
  "robots_set_ttl rt ttl = rt\<lparr> rt_ttl := ttl \<rparr>"

text \<open>\<open>resp\<close> is what \<open>nav.get\<close> answers: the status and the content.\<close>

definition robots_fetch :: "RobotsTxt \<Rightarrow> (string \<Rightarrow> (int \<times> string) option) \<Rightarrow> int \<Rightarrow> string \<Rightarrow> (bool \<times> RobotsTxt) cxx" where
  "robots_fetch rt nav_get now base_url =
     (if rt_fetched rt \<and> robots_is_valid rt now then Val (True, rt)
      else case nav_get (base_url @ ''/robots.txt'') of
        None \<Rightarrow> Val (False, rt)
      | Some (status, content) \<Rightarrow>
          if status \<noteq> 200 then Val (False, rt)
          else cxx_bind (robots_parse content rt) (\<lambda>rt.
            Val (True, rt\<lparr> rt_fetched := True, rt_fetched_at := now \<rparr>)))"


section \<open>The decision of RFC 9309\<close>












section \<open>Files of groups\<close>

text \<open>A group names agents and gives their rules, one line each.\<close>

type_synonym robots_group = "string list \<times> Rule list"

definition key_line :: "string \<Rightarrow> string \<Rightarrow> string" where
  "key_line k v = k @ '': '' @ v"

definition rule_line :: "Rule \<Rightarrow> string" where
  "rule_line r = key_line (if rule_allow r then ''Allow'' else ''Disallow'') (rule_path r)"

definition group_lines :: "robots_group \<Rightarrow> string list" where
  "group_lines g = map (key_line ''User-agent'') (fst g) @ map rule_line (snd g)"


text \<open>Values that are not changed by trimming and do not end their line.\<close>

definition plain_value :: "string \<Rightarrow> bool" where
  "plain_value v \<longleftrightarrow> (v = [] \<or> \<not> c_isspace (hd v) \<and> \<not> c_isspace (last v)) \<and>
     no_nul v \<and> CHR ''#'' \<notin> set v \<and> CHR 0x0A \<notin> set v"



subsection \<open>A line\<close>

lemma trim_plain: "v = [] \<or> \<not> c_isspace (hd v) \<and> \<not> c_isspace (last v) \<Longrightarrow> trim v = v"
proof (cases v)
  case (Cons c cs)
  assume "v = [] \<or> \<not> c_isspace (hd v) \<and> \<not> c_isspace (last v)"
  then have "\<not> c_isspace (hd v)" "\<not> c_isspace (hd (rev v))" using Cons by (simp_all only: hd_rev) simp_all
  then have "dropWhile c_isspace v = v" "dropWhile c_isspace (rev v) = rev v"
    by (simp_all add: dropWhile_eq_self_iff)
  then show ?thesis by (simp add: trim_eq)
qed (simp add: trim_eq)

lemma spaces: "c_isspace (CHR '' '')" "\<not> c_isspace (CHR '':'')"
  by code_simp+

definition key_ok :: "string \<Rightarrow> bool" where
  "key_ok k \<longleftrightarrow> k \<noteq> [] \<and> \<not> c_isspace (hd k) \<and> \<not> c_isspace (last k) \<and> CHR ''#'' \<notin> set k \<and> CHR '':'' \<notin> set k \<and>
     CHR 0x0A \<notin> set k \<and> no_nul k"

lemma keys_ok: "key_ok ''User-agent''" "key_ok ''Allow''" "key_ok ''Disallow''"
  by code_simp+

lemma strip_key_line:
  assumes "key_ok k" "plain_value v"
  shows "strip_line (key_line k v) = k @ '':'' @ (if v = [] then [] else CHR '' '' # v)"
proof -
  let ?l = "k @ '':'' @ (if v = [] then [] else CHR '' '' # v)"
  have l: "hd ?l = hd k" "last ?l = (if v = [] then CHR '':'' else last v)"
    using assms(1) by (simp_all add: key_ok_def)
  then have "trim ?l = ?l" using assms spaces by (intro trim_plain) (auto simp: key_ok_def plain_value_def)
  moreover have "trim (key_line k v) = ?l"
  proof (cases "v = []")
    case True
    have "dropWhile c_isspace (k @ '': '') = k @ '': ''"
      using assms(1) by (cases k) (simp_all add: key_ok_def)
    with True spaces show ?thesis by (simp add: key_line_def trim_eq)
  next
    case False
    with \<open>trim ?l = ?l\<close> show ?thesis by (simp add: key_line_def)
  qed
  moreover have "find_char ?l (CHR ''#'') 0 = None"
    using assms by (intro find_if_from_none) (auto simp: key_ok_def plain_value_def)
  ultimately show ?thesis by (simp only: strip_line_def Let_def option.case)
qed

lemma parse_key_line:
  assumes "key_ok k" "plain_value v"
  shows "parse_line (key_line k v) ps =
    (if to_lower k = ''user-agent'' then Val (on_user_agent v ps)
     else if to_lower k = ''disallow'' \<or> to_lower k = ''allow'' then Val (on_rule (to_lower k = ''allow'') v ps)
     else if to_lower k = ''crawl-delay'' then on_crawl_delay v ps
     else Val ps)"
proof -
  let ?l = "k @ '':'' @ (if v = [] then [] else CHR '' '' # v)"
  have "find_char (k @ CHR '':'' # (if v = [] then [] else CHR '' '' # v)) (CHR '':'') 0 = Some (length k)"
    using assms(1) by (intro find_if_from_append) (auto simp: key_ok_def)
  then have colon: "find_char ?l (CHR '':'') 0 = Some (length k)" by simp
  have "trim (CHR '' '' # v) = v"
    using trim_plain [of v] assms(2) spaces(1) by (simp add: trim_eq plain_value_def)
  then have v: "trim (drop (length k + 1) ?l) = v" by (simp add: trim_eq)
  have k: "trim (take (length k) ?l) = k" using assms(1) trim_plain [of k] by (simp add: key_ok_def)
  have "?l \<noteq> []" by simp
  then show ?thesis
    unfolding parse_line_def strip_key_line [OF assms] Let_def colon option.case k v by (rule if_not_P)
qed

lemma lower_keys: "to_lower ''User-agent'' = ''user-agent''" "to_lower ''Allow'' = ''allow''" "to_lower ''Disallow'' = ''disallow''"
  by code_simp+

lemma parse_agent_line: "plain_value a \<Longrightarrow> parse_line (key_line ''User-agent'' a) ps = Val (on_user_agent a ps)"
  by (simp add: parse_key_line keys_ok lower_keys)

lemma parse_rule_line: "plain_value (rule_path r) \<Longrightarrow> parse_line (rule_line r) ps = Val (on_rule (rule_allow r) (rule_path r) ps)"
  by (simp add: rule_line_def parse_key_line keys_ok lower_keys)

subsection \<open>A group\<close>

definition rules_at :: "(string \<rightharpoonup> AgentRules) \<Rightarrow> string \<Rightarrow> Rule set" where
  "rules_at m a = (case m a of None \<Rightarrow> {} | Some ar \<Rightarrow> set (ar_rules ar))"

lemma rules_at_None [simp]: "m a = None \<Longrightarrow> rules_at m a = {}"
  by (simp add: rules_at_def)

lemma ensure_agents:
  "dom (fold ensure_agent cs m) = dom m \<union> set cs \<and> rules_at (fold ensure_agent cs m) = rules_at m"
proof (induction cs arbitrary: m)
  case (Cons c cs)
  have "dom (ensure_agent c m) = insert c (dom m)" "rules_at (ensure_agent c m) = rules_at m"
    by (auto simp: ensure_agent_def emplace_def rules_at_def new_AgentRules_def fun_eq_iff)
  with Cons show ?case by auto
qed simp

lemma add_rules:
  "dom (fold (change_agent (add_rule r)) cs m) = dom m \<union> set cs \<and>
   rules_at (fold (change_agent (add_rule r)) cs m) a = rules_at m a \<union> (if a \<in> set cs then {r} else {})"
proof (induction cs arbitrary: m)
  case (Cons c cs)
  let ?m = "change_agent (add_rule r) c m"
  have "dom ?m = insert c (dom m)" "rules_at ?m a = rules_at m a \<union> (if a = c then {r} else {})"
    by (auto simp: change_agent_def add_rule_def rules_at_def new_AgentRules_def split: option.splits)
  with Cons.IH [of ?m] show ?case by auto
qed simp






subsection \<open>The file\<close>







text \<open>With several agents in a later group, only the last of them gets its rules.\<close>

lemma later_group_loses_agents:
  assumes "ps_in_block ps" "a \<noteq> b" "ps_agents ps a = None" "to_lower a = a" "to_lower b = b" "plain_value a" "plain_value b"
    and "plain_value (rule_path r)"
  shows "\<exists>ps'. parse_lines (group_lines ([a, b], [r])) ps = Val ps' \<and> rules_at (ps_agents ps') a = {}"
proof -
  let ?ps = "on_user_agent b (on_user_agent a ps)"
  have c: "ps_current ?ps = [b]" using assms(1,5) by (simp add: on_user_agent_def)
  have "rules_at (ps_agents ?ps) = rules_at (ps_agents ps)"
    using ensure_agents [of "[a]" "ps_agents ps"] ensure_agents [of "[b]" "ensure_agent a (ps_agents ps)"] assms(1,4,5)
    by (simp add: on_user_agent_def)
  then have "rules_at (ps_agents ?ps) a = {}" using assms(3) by simp
  moreover have "parse_lines (group_lines ([a, b], [r])) ps = Val (on_rule (rule_allow r) (rule_path r) ?ps)"
    using assms by (simp add: group_lines_def parse_agent_line parse_rule_line)
  ultimately show ?thesis
    using add_rules [of r "[b]" "ps_agents ?ps" a] assms(2) c
    by (cases r) (simp add: on_rule_def)
qed

end
