(* ===== verification/Sihd_Http.thy ===== *)
theory Sihd_Http
  imports Sihd_Array Sihd_StrNum Sihd_Splitter
begin

text \<open>
  HTTP messages as text: the headers (HttpHeader.cpp), the media types (Mime.cpp), the status
  texts (HttpStatus.hpp), and the parsing and printing of requests (HttpRequest.cpp) and responses
  (HttpResponse.cpp). Bodies are arrays of bytes; the growth factor of the arrays and whether a
  size can be allocated are the arguments \<open>mult\<close> and \<open>alloc\<close>. The order in which an
  \<open>unordered_map\<close> is iterated is not specified: its entries are an argument of the printers.
\<close>

section \<open>Headers\<close>

type_synonym HeaderMap = "string \<rightharpoonup> string"

definition format_hdr_name :: "string \<Rightarrow> string" where
  "format_hdr_name entry = to_lower (if ends_with entry '':'' [] then entry else entry @ '':'')"

definition remove_header :: "string \<Rightarrow> HeaderMap \<Rightarrow> HeaderMap" where
  "remove_header name h = h(name := None)"

definition set_header :: "string \<Rightarrow> string \<Rightarrow> HeaderMap \<Rightarrow> HeaderMap" where
  "set_header header_name value h = emplace h (format_hdr_name header_name) value"

definition set_server :: "string \<Rightarrow> HeaderMap \<Rightarrow> HeaderMap" where
  "set_server name h = set_header ''server:'' name h"

definition set_content_type :: "string \<Rightarrow> HeaderMap \<Rightarrow> HeaderMap" where
  "set_content_type ty h = set_header ''content-type:'' ty h"

definition set_content_type_charset :: "string \<Rightarrow> string \<Rightarrow> HeaderMap \<Rightarrow> HeaderMap" where
  "set_content_type_charset ty charset h = set_content_type (ty @ ''; charset='' @ charset) h"

definition set_accept_charset :: "string \<Rightarrow> HeaderMap \<Rightarrow> HeaderMap" where
  "set_accept_charset charset h = set_header ''accept-charset:'' charset h"

definition set_content_length :: "nat \<Rightarrow> HeaderMap \<Rightarrow> HeaderMap" where
  "set_content_length len h = set_header ''content-length:'' (to_chars len 10) h"

definition set_accept :: "string \<Rightarrow> HeaderMap \<Rightarrow> HeaderMap" where
  "set_accept mime_type h = set_header ''accept:'' mime_type h"

definition header_or_empty :: "HeaderMap \<Rightarrow> string \<Rightarrow> string" where
  "header_or_empty h key = (case h key of Some v \<Rightarrow> v | None \<Rightarrow> [])"

definition content_length :: "HeaderMap \<Rightarrow> nat cxx" where
  "content_length h =
     cxx_bind (convert_from_string (TUnsigned 64) (header_or_empty h ''content-length:'') 10)
       (\<lambda>v. Val (case v of None \<Rightarrow> 0 | Some n \<Rightarrow> nat n))"

definition accept_charset :: "HeaderMap \<Rightarrow> string" where
  "accept_charset h = header_or_empty h ''accept-charset:''"

definition content_type :: "HeaderMap \<Rightarrow> string" where
  "content_type h = header_or_empty h ''content-type:''"

definition server :: "HeaderMap \<Rightarrow> string" where
  "server h = header_or_empty h ''server:''"

text \<open>\<open>find_first_of\<close> finds a colon or a space.\<close>

definition add_header_from_str :: "string \<Rightarrow> HeaderMap \<Rightarrow> bool \<times> HeaderMap" where
  "add_header_from_str header h =
     (let header = (if ends_with header [CHR 0x0A] [] then butlast header else header) in
      case find_first_of header '': '' 0 of
        None \<Rightarrow> (False, h)
      | Some pos_before \<Rightarrow>
          let pos_after = pos_before + 2 in
          if pos_after \<ge> length header then (False, h)
          else (True, set_header (take pos_before header) (drop pos_after header) h))"

fun set_headers :: "(string \<times> string) list \<Rightarrow> HeaderMap \<Rightarrow> HeaderMap" where
  "set_headers [] h = h"
| "set_headers ((name, value) # entries) h = set_headers entries (set_header name value h)"

definition header_get :: "string \<Rightarrow> HeaderMap \<Rightarrow> string cxx" where
  "header_get header_name h = (case h (format_hdr_name header_name) of Some v \<Rightarrow> Val v | None \<Rightarrow> Raise OutOfRange)"

definition header_find :: "string \<Rightarrow> HeaderMap \<Rightarrow> string" where
  "header_find header_name h = (case h (format_hdr_name header_name) of Some v \<Rightarrow> v | None \<Rightarrow> [])"


section \<open>Media types and status texts\<close>

definition new_Mime :: "string \<rightharpoonup> string" where
  "new_Mime = [''jpg'' \<mapsto> ''image/jpeg'', ''jpeg'' \<mapsto> ''image/jpeg'', ''png'' \<mapsto> ''image/png'', ''gif'' \<mapsto> ''image/gif'',
     ''js'' \<mapsto> ''application/javascript'', ''json'' \<mapsto> ''application/json'', ''tar'' \<mapsto> ''application/x-tar'',
     ''css'' \<mapsto> ''text/css'', ''csv'' \<mapsto> ''text/csv'', ''htm'' \<mapsto> ''text/html'', ''html'' \<mapsto> ''text/html'',
     ''svg'' \<mapsto> ''image/svg+xml'', ''ico'' \<mapsto> ''image/vnd.microsoft.icon'',
     ''otf'' \<mapsto> ''application/x-font-otf'', ''ttf'' \<mapsto> ''application/x-font-ttf'']"

definition mime_get :: "string \<Rightarrow> (string \<rightharpoonup> string) \<Rightarrow> string" where
  "mime_get ext types = (case types ext of Some m \<Rightarrow> m | None \<Rightarrow> ''text/'' @ ext)"

definition mime_add :: "string \<Rightarrow> string \<Rightarrow> (string \<rightharpoonup> string) \<Rightarrow> (string \<rightharpoonup> string)" where
  "mime_add ext ty types = types(ext \<mapsto> ty)"

definition status_to_string :: "nat \<Rightarrow> string" where
  "status_to_string code =
     (if code = 100 then ''Continue'' else if code = 101 then ''Switching Protocols''
      else if code = 200 then ''OK'' else if code = 201 then ''Created'' else if code = 202 then ''Accepted''
      else if code = 204 then ''No Content'' else if code = 301 then ''Moved Permanently''
      else if code = 302 then ''Found'' else if code = 303 then ''See Other'' else if code = 304 then ''Not Modified''
      else if code = 307 then ''Temporary Redirect'' else if code = 308 then ''Permanent Redirect''
      else if code = 400 then ''Bad Request'' else if code = 401 then ''Unauthorized'' else if code = 403 then ''Forbidden''
      else if code = 404 then ''Not Found'' else if code = 405 then ''Method Not Allowed''
      else if code = 408 then ''Request Timeout'' else if code = 409 then ''Conflict'' else if code = 410 then ''Gone''
      else if code = 429 then ''Too Many Requests'' else if code = 500 then ''Internal Server Error''
      else if code = 501 then ''Not Implemented'' else if code = 502 then ''Bad Gateway''
      else if code = 503 then ''Service Unavailable'' else ''Unknown'')"

definition is_redirect :: "nat \<Rightarrow> bool" where
  "is_redirect code \<longleftrightarrow> code = 301 \<or> code = 302 \<or> code = 303 \<or> code = 307 \<or> code = 308"

definition is_post_downgrade :: "nat \<Rightarrow> bool" where
  "is_post_downgrade code \<longleftrightarrow> code = 301 \<or> code = 302 \<or> code = 303"

definition is_rate_limit :: "nat \<Rightarrow> bool" where
  "is_rate_limit code \<longleftrightarrow> code = 429 \<or> code = 503"


section \<open>Requests\<close>

datatype RequestType = NoRequest | Post | Get | Put | Delete | Options | Patch | Head



record HttpRequest =
  req_type :: RequestType
  req_url :: string
  req_uri_args :: "string list"
  req_path_params :: "string \<rightharpoonup> string"
  req_query_params :: "string \<rightharpoonup> string"
  req_ip :: string
  req_auth_user :: string
  req_auth_token :: string
  req_cookies :: "string \<rightharpoonup> string"
  req_header :: HeaderMap
  req_array :: "char Array"

definition new_HttpRequest :: "string \<Rightarrow> RequestType \<Rightarrow> HttpRequest" where
  "new_HttpRequest url ty = \<lparr> req_type = ty, req_url = url, req_uri_args = [], req_path_params = Map.empty,
     req_query_params = Map.empty, req_ip = [], req_auth_user = [], req_auth_token = [],
     req_cookies = Map.empty, req_header = Map.empty, req_array = new_Array \<rparr>"

definition new_HttpRequest_args :: "string \<Rightarrow> string list \<Rightarrow> RequestType \<Rightarrow> HttpRequest" where
  "new_HttpRequest_args url uri_args ty = (new_HttpRequest url ty)\<lparr> req_uri_args := uri_args \<rparr>"


definition req_set_cookie :: "string \<Rightarrow> string \<Rightarrow> HttpRequest \<Rightarrow> HttpRequest" where
  "req_set_cookie name value r = r\<lparr> req_cookies := emplace (req_cookies r) name value \<rparr>"

definition req_path_param :: "string \<Rightarrow> HttpRequest \<Rightarrow> string option" where
  "req_path_param name r = req_path_params r name"

definition req_query_param :: "string \<Rightarrow> HttpRequest \<Rightarrow> string option" where
  "req_query_param name r = req_query_params r name"

definition req_cookie :: "string \<Rightarrow> HttpRequest \<Rightarrow> string option" where
  "req_cookie name r = req_cookies r name"

definition req_has_content :: "HttpRequest \<Rightarrow> bool" where
  "req_has_content r \<longleftrightarrow> buf_ptr (req_array r) \<noteq> None"

definition req_is_authenticated :: "HttpRequest \<Rightarrow> bool" where
  "req_is_authenticated r \<longleftrightarrow> req_auth_user r \<noteq> [] \<or> req_auth_token r \<noteq> []"


abbreviation crlf :: string where "crlf \<equiv> [CHR 0x0D, CHR 0x0A]"




text \<open>The headers as they are printed, without the colon of the key.\<close>

fun header_loop :: "(string \<times> string) list \<Rightarrow> string \<Rightarrow> string" where
  "header_loop [] result = result"
| "header_loop ((name, value) # kvs) result =
     header_loop kvs (result @ (if ends_with name '':'' [] then butlast name else name) @ '': '' @ value @ crlf)"

text \<open>\<open>append\<close> of the buffer: reading cells that were never written is undefined.\<close>

definition array_bytes :: "char Array \<Rightarrow> string cxx" where
  "array_bytes a = (if None \<in> set (elements a) then Undef else Val (map the (elements a)))"



section \<open>Responses\<close>

text \<open>Of the stream provider only whether there is one; the types are those of the server, if it has any.\<close>

record HttpResponse =
  resp_status :: nat
  resp_header :: HeaderMap
  resp_array :: "char Array"
  resp_mime :: "(string \<rightharpoonup> string) option"
  resp_streaming :: bool
  resp_cookies :: "string list"

definition new_HttpResponse :: "(string \<rightharpoonup> string) option \<Rightarrow> HttpResponse" where
  "new_HttpResponse mimes = \<lparr> resp_status = 200, resp_header = set_accept_charset ''utf-8'' Map.empty,
     resp_array = new_Array, resp_mime = mimes, resp_streaming = False, resp_cookies = [] \<rparr>"

definition resp_set_content_type :: "string \<Rightarrow> HttpResponse \<Rightarrow> HttpResponse" where
  "resp_set_content_type mime_type r = r\<lparr> resp_header := set_content_type_charset mime_type ''utf-8'' (resp_header r) \<rparr>"

definition set_content_type_from_extension :: "string \<Rightarrow> HttpResponse \<Rightarrow> HttpResponse" where
  "set_content_type_from_extension ty r =
     (case resp_mime r of Some m \<Rightarrow> resp_set_content_type (mime_get ty m) r | None \<Rightarrow> r)"

definition set_mime_type_if_not_set :: "string \<Rightarrow> HttpResponse \<Rightarrow> HttpResponse" where
  "set_mime_type_if_not_set ty r = (if content_type (resp_header r) = [] then resp_set_content_type ty r else r)"

definition resp_set_content :: "nat \<Rightarrow> (nat \<Rightarrow> bool) \<Rightarrow> string \<Rightarrow> HttpResponse \<Rightarrow> (bool \<times> HttpResponse) cxx" where
  "resp_set_content mult alloc data r =
     cxx_bind (arr_resize mult alloc NUL (length data) (resp_array r)) (\<lambda>(ok, a).
       if \<not> ok then Val (False, r\<lparr> resp_array := a \<rparr>)
       else cxx_bind (copy_from_bytes (map Some data) \<lparr> sl_from = 0, sl_to = -1 \<rparr> a) (\<lambda>(_, a).
         Val (True, r\<lparr> resp_array := a \<rparr>)))"

definition set_plain_content :: "nat \<Rightarrow> (nat \<Rightarrow> bool) \<Rightarrow> string \<Rightarrow> HttpResponse \<Rightarrow> (bool \<times> HttpResponse) cxx" where
  "set_plain_content mult alloc str r = resp_set_content mult alloc str (set_mime_type_if_not_set ''text/plain'' r)"

definition set_byte_content :: "nat \<Rightarrow> (nat \<Rightarrow> bool) \<Rightarrow> string \<Rightarrow> HttpResponse \<Rightarrow> (bool \<times> HttpResponse) cxx" where
  "set_byte_content mult alloc data r =
     resp_set_content mult alloc data (set_mime_type_if_not_set ''application/octet-stream'' r)"

text \<open>\<open>json\<close> is what \<open>data.dump()\<close> gives.\<close>

definition set_json_content :: "nat \<Rightarrow> (nat \<Rightarrow> bool) \<Rightarrow> string \<Rightarrow> HttpResponse \<Rightarrow> (bool \<times> HttpResponse) cxx" where
  "set_json_content mult alloc json r =
     resp_set_content mult alloc json (set_mime_type_if_not_set ''application/json'' r)"

definition resp_set_cookie :: "string \<Rightarrow> string \<Rightarrow> string \<Rightarrow> HttpResponse \<Rightarrow> HttpResponse" where
  "resp_set_cookie name value opts r =
     r\<lparr> resp_cookies := resp_cookies r @ [name @ ''='' @ value @ (if opts \<noteq> [] then ''; '' @ opts else [])] \<rparr>"

text \<open>A line of the header section after the first.\<close>

definition response_line :: "string \<Rightarrow> HttpResponse \<Rightarrow> HttpResponse cxx" where
  "response_line l r =
     cxx_bind (starts_with l ''Set-Cookie: '' []) (\<lambda>upper.
     cxx_bind (if upper then Val True else starts_with l ''set-cookie: '' []) (\<lambda>cookie.
       if cookie then
         Val (r\<lparr> resp_cookies := resp_cookies r @ [drop (case find_str l '': '' 0 of Some i \<Rightarrow> i + 2 | None \<Rightarrow> 1) l] \<rparr>)
       else Val (r\<lparr> resp_header := snd (add_header_from_str l (resp_header r)) \<rparr>)))"

fun response_lines :: "string list \<Rightarrow> HttpResponse \<Rightarrow> HttpResponse cxx" where
  "response_lines [] r = Val r"
| "response_lines (l # ls) r = cxx_bind (response_line l r) (response_lines ls)"

definition response_from_string :: "nat \<Rightarrow> (nat \<Rightarrow> bool) \<Rightarrow> string \<Rightarrow> HttpResponse option cxx" where
  "response_from_string mult alloc raw =
     (case find_str raw (crlf @ crlf) 0 of
        None \<Rightarrow> Val None
      | Some header_end \<Rightarrow>
          let body = drop (header_end + 4) raw;
              lines = str_split raw header_end crlf in
          if lines = [] then Val None
          else
            let status_parts = str_split (lines ! 0) (length (lines ! 0)) '' '' in
            if length status_parts < 2 then Val None
            else
              cxx_bind (starts_with (status_parts ! 0) ''HTTP/1.'' []) (\<lambda>http.
              if \<not> http then Val None
              else
                cxx_bind (convert_from_string (TUnsigned 32) (status_parts ! 1) 10) (\<lambda>status.
                case status of
                  None \<Rightarrow> Val None
                | Some status \<Rightarrow>
                    cxx_bind (response_lines (tl lines) ((new_HttpResponse None)\<lparr> resp_status := nat status \<rparr>)) (\<lambda>resp.
                    if body = [] then Val (Some resp)
                    else
                      cxx_bind (arr_resize mult alloc NUL (length body) (resp_array resp)) (\<lambda>(_, a).
                      cxx_bind (copy_from_bytes (map Some body) \<lparr> sl_from = 0, sl_to = -1 \<rparr> a) (\<lambda>(_, a).
                      Val (Some (resp\<lparr> resp_array := a \<rparr>))))))))"

fun cookie_loop :: "string list \<Rightarrow> string \<Rightarrow> string" where
  "cookie_loop [] result = result"
| "cookie_loop (c # cs) result = cookie_loop cs (result @ ''Set-Cookie: '' @ c @ crlf)"

definition response_to_string :: "(string \<times> string) list \<Rightarrow> HttpResponse \<Rightarrow> string cxx" where
  "response_to_string header_entries r =
     (let result = ''HTTP/1.1 '' @ to_chars (resp_status r) 10 @ '' '' @ status_to_string (resp_status r) @ crlf;
          result = cookie_loop (resp_cookies r) (header_loop header_entries result) @ crlf in
      if size_of (resp_array r) > 0 then cxx_bind (array_bytes (resp_array r)) (\<lambda>b. Val (result @ b)) else Val result)"


section \<open>Header lines\<close>

text \<open>Entries that a header line can carry: a lower-case name and a value that is not empty and ends no line.\<close>

definition header_ok :: "string \<times> string \<Rightarrow> bool" where
  "header_ok e \<longleftrightarrow> fst e \<noteq> [] \<and> last (fst e) = CHR '':'' \<and> to_lower (butlast (fst e)) = butlast (fst e) \<and>
     list_all (\<lambda>c. c \<notin> set '': '' \<and> c \<noteq> CHR 0x0D) (butlast (fst e)) \<and> no_nul (fst e @ snd e) \<and>
     snd e \<noteq> [] \<and> CHR 0x0D \<notin> set (snd e) \<and> last (snd e) \<noteq> CHR 0x0A"

definition header_line :: "string \<times> string \<Rightarrow> string" where
  "header_line e = butlast (fst e) @ '': '' @ snd e"

lemma header_loop_lines:
  "list_all header_ok kvs \<Longrightarrow> header_loop kvs result = result @ concat (map (\<lambda>e. header_line e @ crlf) kvs)"
proof (induction kvs arbitrary: result)
  case (Cons e kvs)
  then show ?case by (cases e) (simp add: header_ok_def header_line_def ends_with_char)
qed simp

lemma format_hdr_name_plain:
  "no_nul n \<Longrightarrow> CHR '':'' \<notin> set n \<Longrightarrow> to_lower n = n \<Longrightarrow> format_hdr_name n = n @ '':''"
proof -
  assume n: "no_nul n" "CHR '':'' \<notin> set n" "to_lower n = n"
  have "\<not> ends_with n '':'' []" using n(2) last_in_set by (fastforce simp: ends_with_char)
  moreover have "c_tolower (CHR '':'') = CHR '':''" by code_simp
  ultimately show ?thesis using n by (simp add: format_hdr_name_def to_lower_def map_until_nul_no_nul)
qed

lemma add_header_plain:
  assumes "no_nul n" "\<forall>c \<in> set n. c \<notin> set '': ''" "to_lower n = n" "v \<noteq> []" "last v \<noteq> CHR 0x0A"
  shows "add_header_from_str (n @ '': '' @ v) h = (True, emplace h (n @ '':'') v)"
proof -
  have "find_first_of (n @ CHR '':'' # '' '' @ v) '': '' 0 = Some (length n)"
    by (rule find_if_from_append) (use assms in auto)
  moreover have "\<not> ends_with (n @ '': '' @ v) [CHR 0x0A] []" using assms(4,5) by (simp add: ends_with_char)
  moreover have "format_hdr_name n = n @ '':''" using assms by (intro format_hdr_name_plain) auto
  ultimately show ?thesis using assms(4) by (simp add: add_header_from_str_def set_header_def Let_def)
qed

lemma add_header_line: "header_ok e \<Longrightarrow> add_header_from_str (header_line e) h = (True, emplace h (fst e) (snd e))"
proof -
  assume e: "header_ok e"
  then have name: "butlast (fst e) @ '':'' = fst e"
    using append_butlast_last_id [of "fst e"] by (simp add: header_ok_def)
  then have "no_nul (butlast (fst e))" using e by (metis header_ok_def no_nul_simps(3))
  with e name show ?thesis
    using add_header_plain [of "butlast (fst e)" "snd e" h] by (simp add: header_line_def header_ok_def list_all_iff)
qed



section \<open>The header section\<close>

text \<open>The blank line is the first place where the line ends come twice.\<close>

lemma crlf_prefix: "\<not> prefix (crlf @ crlf) (crlf @ s)" if "s = [] \<or> hd s \<noteq> CHR 0x0D"
  using that by (cases s) auto

lemma find_blank_line:
  assumes "\<forall>l \<in> set ls. l \<noteq> [] \<and> CHR 0x0D \<notin> set l" "ls \<noteq> []"
  shows "find_str (join ls crlf @ crlf @ crlf @ body) (crlf @ crlf) 0 = Some (length (join ls crlf))"
  using assms
proof (induction ls crlf rule: join.induct)
  case (2 t)
  have "find_str (t @ crlf @ crlf @ body) (crlf @ crlf) 0 =
      map_option ((+) (length t)) (find_str (crlf @ crlf @ body) (crlf @ crlf) 0)"
    using 2 by (intro find_str_skip) simp_all
  also have "find_str (crlf @ crlf @ body) (crlf @ crlf) 0 = Some 0" by (rule find_str_here) simp
  finally show ?case by simp
next
  case (3 t u ts)
  let ?r = "join (u # ts) crlf @ crlf @ crlf @ body"
  have "hd ?r \<noteq> CHR 0x0D" using "3.prems" by (cases ts; cases u) auto
  then have np: "\<not> prefix (crlf @ crlf) (crlf @ ?r)" by (intro crlf_prefix) simp
  have "find_str (crlf @ ?r) (crlf @ crlf) 0 = map_option Suc (find_str (CHR 0x0A # ?r) (crlf @ crlf) 0)"
    using np by (simp add: find_str_not_here)
  also have "find_str (CHR 0x0A # ?r) (crlf @ crlf) 0 = map_option Suc (find_str ?r (crlf @ crlf) 0)"
    by (rule find_str_not_here) simp
  also have "find_str ?r (crlf @ crlf) 0 = Some (length (join (u # ts) crlf))"
    using 3 by simp
  finally have "find_str (crlf @ ?r) (crlf @ crlf) 0 = Some (length crlf + length (join (u # ts) crlf))" by simp
  moreover have "find_str (t @ crlf @ ?r) (crlf @ crlf) 0 = map_option ((+) (length t)) (find_str (crlf @ ?r) (crlf @ crlf) 0)"
    using "3.prems" by (intro find_str_skip) simp_all
  ultimately show ?case by simp
qed simp

lemma split_header_section:
  assumes "\<forall>l \<in> set ls. l \<noteq> [] \<and> no_nul l \<and> CHR 0x0D \<notin> set l" "ls \<noteq> []"
  shows "str_split (join ls crlf @ crlf @ crlf @ body) (length (join ls crlf)) crlf = ls"
  using assms by (intro str_split_join) auto

lemma concat_lines: "concat (map (\<lambda>l. l @ d) ls) = (if ls = [] then [] else join ls d @ d)"
  by (induction ls d rule: join.induct) auto


section \<open>Requests are read back\<close>














lemma header_line_ok: "header_ok e \<Longrightarrow> header_line e \<noteq> [] \<and> no_nul (header_line e) \<and> CHR 0x0D \<notin> set (header_line e)"
proof -
  assume e: "header_ok e"
  then have "no_nul (butlast (fst e))" by (auto simp: header_ok_def no_nul_def dest: in_set_butlastD)
  with e show ?thesis by (auto simp: header_ok_def header_line_def list_all_iff)
qed





lemma starts_with_http: "starts_with ''HTTP/1.1'' ''HTTP/1.'' [] = Val True"
  by code_simp




section \<open>Responses are read back\<close>

lemma prefix_same_name:
  "CHR '':'' \<notin> set a \<Longrightarrow> CHR '':'' \<notin> set n \<Longrightarrow> prefix (a @ CHR '':'' # x) (n @ CHR '':'' # y) \<Longrightarrow> a = n"
proof (induction a arbitrary: n)
  case Nil
  then show ?case by (cases n) auto
next
  case (Cons c a)
  then show ?case by (cases n) auto
qed

text \<open>Names that a response keeps as headers.\<close>

definition response_header_ok :: "string \<times> string \<Rightarrow> bool" where
  "response_header_ok e \<longleftrightarrow> header_ok e \<and> butlast (fst e) \<noteq> ''set-cookie''"

lemma not_a_cookie:
  assumes "response_header_ok e"
  shows "\<not> prefix ''Set-Cookie: '' (header_line e)" "\<not> prefix ''set-cookie: '' (header_line e)"
proof -
  have n: "CHR '':'' \<notin> set (butlast (fst e))" "to_lower (butlast (fst e)) = butlast (fst e)" "butlast (fst e) \<noteq> ''set-cookie''"
    using assms by (auto simp: response_header_ok_def header_ok_def list_all_iff)
  have "to_lower ''Set-Cookie'' \<noteq> ''Set-Cookie''" by code_simp
  then have "butlast (fst e) \<noteq> ''Set-Cookie''" using n(2) by metis
  then show "\<not> prefix ''Set-Cookie: '' (header_line e)"
    using prefix_same_name [of "''Set-Cookie''" "butlast (fst e)" "'' ''" "'' '' @ snd e"] n(1) by (auto simp: header_line_def)
  show "\<not> prefix ''set-cookie: '' (header_line e)"
    using prefix_same_name [of "''set-cookie''" "butlast (fst e)" "'' ''" "'' '' @ snd e"] n by (auto simp: header_line_def)
qed

definition cookie_ok :: "string \<Rightarrow> bool" where
  "cookie_ok c \<longleftrightarrow> no_nul c \<and> CHR 0x0D \<notin> set c"

definition cookie_line :: "string \<Rightarrow> string" where
  "cookie_line c = ''Set-Cookie: '' @ c"

lemma response_line_header:
  "response_header_ok e \<Longrightarrow> response_line (header_line e) r = Val (r\<lparr> resp_header := emplace (resp_header r) (fst e) (snd e) \<rparr>)"
  using not_a_cookie [of e] add_header_line [of e "resp_header r"]
  by (simp add: response_line_def starts_with_prefix response_header_ok_def)

lemma response_line_cookie: "response_line (cookie_line c) r = Val (r\<lparr> resp_cookies := resp_cookies r @ [c] \<rparr>)"
proof -
  have "find_str (''Set-Cookie'' @ '': '' @ c) '': '' 0 = map_option ((+) (length ''Set-Cookie'')) (find_str ('': '' @ c) '': '' 0)"
    by (rule find_str_skip) simp_all
  moreover have "find_str ('': '' @ c) '': '' 0 = Some 0" by (rule find_str_here) simp
  ultimately have "find_str (''Set-Cookie: '' @ c) '': '' 0 = Some 10" by simp
  then show ?thesis by (simp add: response_line_def cookie_line_def starts_with_prefix)
qed

lemma response_lines_append: "response_lines (xs @ ys) r = cxx_bind (response_lines xs r) (response_lines ys)"
proof (induction xs arbitrary: r)
  case (Cons x xs)
  then show ?case by (cases "response_line x r") simp_all
qed simp

lemma response_lines_headers:
  "list_all response_header_ok hs \<Longrightarrow>
    response_lines (map header_line hs) r = Val (r\<lparr> resp_header := fold (\<lambda>e h. emplace h (fst e) (snd e)) hs (resp_header r) \<rparr>)"
  by (induction hs arbitrary: r) (simp_all add: response_line_header)

lemma response_lines_cookies:
  "response_lines (map cookie_line cs) r = Val (r\<lparr> resp_cookies := resp_cookies r @ cs \<rparr>)"
  by (induction cs arbitrary: r) (simp_all add: response_line_cookie)

text \<open>The headers read on top of those a new response has: those win.\<close>

lemma emplace_all:
  "distinct (map fst hs) \<Longrightarrow> fold (\<lambda>e h. emplace h (fst e) (snd e)) hs h = map_of hs ++ h"
proof (induction hs arbitrary: h)
  case (Cons e hs)
  have "map_of hs ++ emplace h (fst e) (snd e) = map_of (e # hs) ++ h"
    using Cons.prems by (cases e) (auto simp: emplace_def map_add_def fun_eq_iff map_of_eq_None_iff split: option.splits)
  moreover have "fold (\<lambda>e h. emplace h (fst e) (snd e)) hs (emplace h (fst e) (snd e)) = map_of hs ++ emplace h (fst e) (snd e)"
    using Cons by simp
  ultimately show ?case by (simp only: fold.simps o_apply)
qed simp

definition status_line :: "HttpResponse \<Rightarrow> string" where
  "status_line r = ''HTTP/1.1 '' @ to_chars (resp_status r) 10 @ '' '' @ status_to_string (resp_status r)"

definition response_all_lines :: "HttpResponse \<Rightarrow> (string \<times> string) list \<Rightarrow> string list" where
  "response_all_lines r hs = status_line r # map header_line hs @ map cookie_line (resp_cookies r)"

definition response_ok :: "HttpResponse \<Rightarrow> (string \<times> string) list \<Rightarrow> bool" where
  "response_ok r hs \<longleftrightarrow>
     resp_status r < 2 ^ 32 \<and> list_all response_header_ok hs \<and> distinct (map fst hs) \<and>
     resp_header r = map_of hs \<and> resp_header r ''accept-charset:'' = Some ''utf-8'' \<and>
     list_all cookie_ok (resp_cookies r) \<and>
     array_ok (resp_array r) \<and> None \<notin> set (elements (resp_array r))"

lemma status_text_chars: "no_nul (status_to_string n) \<and> CHR 0x0D \<notin> set (status_to_string n)"
  by (simp add: status_to_string_def)

lemma digit_chars: "c \<in> set (to_chars n 10) \<Longrightarrow> 48 \<le> cv c \<and> cv c \<le> 57"
  using to_chars_digits [of 10 c n] by (auto simp: std_digit_def)

lemma digits_plain: "no_nul (to_chars n 10) \<and> CHR 0x0D \<notin> set (to_chars n 10) \<and> CHR '' '' \<notin> set (to_chars n 10)"
  using digit_chars [of _ n] by (fastforce simp: no_nul_def)

lemma response_lines_ok:
  assumes "response_ok r hs"
  shows "\<forall>l \<in> set (response_all_lines r hs). l \<noteq> [] \<and> no_nul l \<and> CHR 0x0D \<notin> set l"
proof -
  have "\<forall>l \<in> set (map header_line hs). l \<noteq> [] \<and> no_nul l \<and> CHR 0x0D \<notin> set l"
    using assms header_line_ok by (simp add: response_ok_def list_all_iff response_header_ok_def)
  moreover have "\<forall>l \<in> set (map cookie_line (resp_cookies r)). l \<noteq> [] \<and> no_nul l \<and> CHR 0x0D \<notin> set l"
    using assms by (simp add: response_ok_def cookie_line_def cookie_ok_def list_all_iff)
  moreover have "status_line r \<noteq> [] \<and> no_nul (status_line r) \<and> CHR 0x0D \<notin> set (status_line r)"
    using digits_plain [of "resp_status r"] status_text_chars [of "resp_status r"] by (simp add: status_line_def)
  ultimately show ?thesis unfolding response_all_lines_def by auto
qed

lemma cookie_loop_lines: "cookie_loop cs result = result @ concat (map (\<lambda>c. cookie_line c @ crlf) cs)"
  by (induction cs arbitrary: result) (simp_all add: cookie_line_def)

lemma response_text_lines:
  assumes "response_ok r hs"
  shows "response_to_string hs r =
    Val (join (response_all_lines r hs) crlf @ crlf @ crlf @ map the (elements (resp_array r)))"
proof -
  have "concat (map (\<lambda>l. l @ crlf) (response_all_lines r hs)) = join (response_all_lines r hs) crlf @ crlf"
    unfolding concat_lines by (simp add: response_all_lines_def)
  moreover have "concat (map (\<lambda>l. l @ crlf) (response_all_lines r hs)) =
      (status_line r @ crlf) @ concat (map (\<lambda>e. header_line e @ crlf) hs) @
      concat (map (\<lambda>c. cookie_line c @ crlf) (resp_cookies r))"
    by (simp add: response_all_lines_def o_def)
  ultimately have "join (response_all_lines r hs) crlf @ crlf =
      (status_line r @ crlf) @ concat (map (\<lambda>e. header_line e @ crlf) hs) @
      concat (map (\<lambda>c. cookie_line c @ crlf) (resp_cookies r))" by simp
  note printed = this
  have hs: "list_all header_ok hs" using assms by (auto simp: response_ok_def response_header_ok_def list_all_iff)
  have "elements (resp_array r) = []" if "size_of (resp_array r) = 0"
    using that assms elements_length [of "resp_array r"] by (simp add: response_ok_def)
  then show ?thesis using assms printed
    by (auto simp: response_to_string_def response_ok_def header_loop_lines [OF hs] cookie_loop_lines array_bytes_def
        status_line_def Let_def)
qed

text \<open>The status is the second word of its line; the words after it do not matter.\<close>

lemma status_convert: "n < 2 ^ 32 \<Longrightarrow> convert_from_string (TUnsigned 32) (to_chars n 10) 10 = Val (Some (int n))"
proof -
  assume n: "n < 2 ^ 32"
  then have "take_bit 32 (int n) = int n" by (simp add: take_bit_int_eq_self)
  with n show ?thesis
    by (simp add: convert_from_string_def to_unsigned_def resolve_base_prefix_to_chars from_chars_unsigned_to_chars)
qed

definition status_words :: "string list list" where
  "status_words = [[''Continue''], [''Switching'', ''Protocols''], [''OK''], [''Created''], [''Accepted''], [''No'',
    ''Content''], [''Moved'', ''Permanently''], [''Found''], [''See'', ''Other''], [''Not'',
    ''Modified''], [''Temporary'', ''Redirect''], [''Permanent'', ''Redirect''], [''Bad'', ''Request''],
    [''Unauthorized''], [''Forbidden''], [''Not'', ''Found''], [''Method'', ''Not'', ''Allowed''],
    [''Request'', ''Timeout''], [''Conflict''], [''Gone''], [''Too'', ''Many'', ''Requests''],
    [''Internal'', ''Server'', ''Error''], [''Not'', ''Implemented''], [''Bad'', ''Gateway''],
    [''Service'', ''Unavailable''], [''Unknown'']]"

lemma status_text_words: "\<exists>ws \<in> set status_words. status_to_string n = join ws '' ''"
proof -
  have "status_to_string n \<in> set (map (\<lambda>ws. join ws '' '') status_words)"
    unfolding status_to_string_def status_words_def by simp
  then show ?thesis by auto
qed

lemma status_words_plain: "list_all (\<lambda>ws. ws \<noteq> [] \<and> list_all (\<lambda>w. w \<noteq> [] \<and> no_nul w \<and> CHR '' '' \<notin> set w) ws) status_words"
  unfolding status_words_def by simp

lemma status_line_parts:
  "\<exists>ws. str_split (status_line r) (length (status_line r)) '' '' = ''HTTP/1.1'' # to_chars (resp_status r) 10 # ws"
proof -
  obtain ws where ws: "ws \<in> set status_words" "status_to_string (resp_status r) = join ws '' ''"
    using status_text_words by blast
  then have plain: "ws \<noteq> []" "\<forall>w \<in> set ws. w \<noteq> [] \<and> no_nul w \<and> hd '' '' \<notin> set w"
    using status_words_plain by (auto simp: list_all_iff)
  let ?ws = "''HTTP/1.1'' # to_chars (resp_status r) 10 # ws"
  have "status_line r = join ?ws '' ''" using ws(2) plain(1) by (cases ws) (simp_all add: status_line_def)
  moreover have "\<forall>w \<in> set ?ws. w \<noteq> [] \<and> no_nul w \<and> hd '' '' \<notin> set w"
    using plain(2) digits_plain [of "resp_status r"] by simp
  from str_split_join [OF _ _ _ this, of "[]"] have "str_split (join ?ws '' '') (length (join ?ws '' '')) '' '' = ?ws"
    by (simp del: join.simps)
  ultimately show ?thesis by metis
qed

text \<open>The body of a new response.\<close>

lemma resize_and_copy:
  assumes "room mult (length body)" "\<forall>n. alloc n" "body \<noteq> []"
  shows "\<exists>a1 ok a2. arr_resize mult alloc NUL (length body) new_Array = Val (True, a1) \<and>
    copy_from_bytes (map Some body) \<lparr> sl_from = 0, sl_to = -1 \<rparr> a1 = Val (ok, a2) \<and> elements a2 = map Some body"
proof -
  obtain a1 where a1: "internal_resize mult alloc NUL (length body) True new_Array = Val (True, a1)" "array_ok a1"
    "size_of a1 = length body" "buf_ptr a1 \<noteq> None"
    using internal_resize_ok [of new_Array mult "length body" alloc NUL True] assms by (auto simp: new_Array_ok)
  then obtain b where b: "buf_ptr a1 = Some b" "length body \<le> length b" by (auto simp: array_ok_def)
  have "resolve \<lparr> sl_from = 0, sl_to = -1 \<rparr> (size_of a1) = \<lparr> rg_from = 0, rg_to = length body \<rparr>"
    using a1(3) assms(3) by (simp add: resolve_def clamp_def Let_def)
  then have "copy_from_bytes (map Some body) \<lparr> sl_from = 0, sl_to = -1 \<rparr> a1 =
      Val (True, a1\<lparr> buf_ptr := Some (map Some body @ drop (length body) b) \<rparr>)"
    using a1(3) b assms(3) by (simp add: copy_from_bytes_def range_empty_def write_cells_ok Let_def)
  with a1 show ?thesis by (auto simp: arr_resize_def elements_def)
qed

lemma response_lines_parsed:
  assumes "response_ok r hs"
  shows "response_lines (tl (response_all_lines r hs)) ((new_HttpResponse None)\<lparr> resp_status := resp_status r \<rparr>) =
    Val ((new_HttpResponse None)\<lparr> resp_status := resp_status r, resp_header := resp_header r, resp_cookies := resp_cookies r \<rparr>)"
proof -
  have "format_hdr_name ''accept-charset:'' = ''accept-charset:''" by code_simp
  then have new: "resp_header (new_HttpResponse None) = [''accept-charset:'' \<mapsto> ''utf-8'']"
    by (simp add: new_HttpResponse_def set_accept_charset_def set_header_def emplace_def)
  have "map_of hs ++ [''accept-charset:'' \<mapsto> ''utf-8''] = resp_header r"
    using assms by (auto simp: response_ok_def fun_eq_iff map_add_def)
  then show ?thesis using assms
    by (simp add: response_all_lines_def response_lines_append response_lines_headers response_lines_cookies
        response_ok_def emplace_all new) (simp add: new_HttpResponse_def)
qed

text \<open>A response with the character set of every response that is printed and parsed again is the same.\<close>

lemma http_response_roundtrip:
  assumes "response_ok r hs" and "room mult (length (elements (resp_array r)))" and "\<forall>n. alloc n"
  shows "\<exists>raw r'. response_to_string hs r = Val raw \<and> response_from_string mult alloc raw = Val (Some r') \<and>
    resp_status r' = resp_status r \<and> resp_header r' = resp_header r \<and> resp_cookies r' = resp_cookies r \<and>
    elements (resp_array r') = elements (resp_array r)"
proof -
  let ?ls = "response_all_lines r hs" and ?body = "map the (elements (resp_array r))"
  let ?raw = "join ?ls crlf @ crlf @ crlf @ ?body"
  let ?r = "(new_HttpResponse None)\<lparr> resp_status := resp_status r, resp_header := resp_header r, resp_cookies := resp_cookies r \<rparr>"
  note lines = response_lines_ok [OF assms(1)]
  have ne: "?ls \<noteq> []" by (simp add: response_all_lines_def)
  have find: "find_str ?raw (crlf @ crlf) 0 = Some (length (join ?ls crlf))"
    using lines ne by (intro find_blank_line) auto
  note split = split_header_section [OF lines ne, of ?body]
  obtain ws where ws: "str_split (?ls ! 0) (length (?ls ! 0)) '' '' = ''HTTP/1.1'' # to_chars (resp_status r) 10 # ws"
    using status_line_parts [of r] by (auto simp: response_all_lines_def)
  have status: "convert_from_string (TUnsigned 32) (to_chars (resp_status r) 10) 10 = Val (Some (int (resp_status r)))"
    using assms(1) by (intro status_convert) (simp add: response_ok_def)
  have body: "drop (length (join ?ls crlf) + 4) ?raw = ?body" by simp
  let ?finish = "\<lambda>resp. if ?body = [] then Val (Some resp)
     else cxx_bind (arr_resize mult alloc NUL (length ?body) (resp_array resp)) (\<lambda>(_, a).
          cxx_bind (copy_from_bytes (map Some ?body) \<lparr> sl_from = 0, sl_to = -1 \<rparr> a) (\<lambda>(_, a).
          Val (Some (resp\<lparr> resp_array := a \<rparr>))))"
  have "response_from_string mult alloc ?raw = ?finish ?r"
    unfolding response_from_string_def find option.case Let_def split body ws
    using ne status starts_with_http response_lines_parsed [OF assms(1)] by simp
  moreover have "map Some ?body = elements (resp_array r)"
    using assms(1) by (auto simp: response_ok_def intro!: map_idI) (metis option.collapse)
  moreover have "resp_array ?r = new_Array" by (simp add: new_HttpResponse_def)
  ultimately have "\<exists>r'. response_from_string mult alloc ?raw = Val (Some r') \<and>
      resp_status r' = resp_status r \<and> resp_header r' = resp_header r \<and> resp_cookies r' = resp_cookies r \<and>
      elements (resp_array r') = elements (resp_array r)"
    using resize_and_copy [of mult ?body alloc] assms(2,3)
    by (cases "?body = []") (auto simp: new_Array_ok)
  then show ?thesis using response_text_lines [OF assms(1)] by auto
qed

text \<open>A header with an empty value is not read back, nor is the first byte of a value that no space precedes.\<close>

lemma empty_value_is_lost: "add_header_from_str ''host: '' h = (False, h)"
  by (simp add: add_header_from_str_def ends_with_char find_if_from.simps)

lemma value_without_space: "add_header_from_str ''host:me'' h = (True, set_header ''host'' ''e'' h)"
  by (simp add: add_header_from_str_def ends_with_char find_if_from.simps)

text \<open>Setting a header that is set keeps the old value; removing looks for the name as it is given.\<close>

lemma set_header_keeps: "h (format_hdr_name n) = Some v \<Longrightarrow> set_header n w h = h"
  by (simp add: set_header_def emplace_def)

lemma remove_header_not_normalised: "remove_header ''Host'' (set_header ''Host'' v Map.empty) \<noteq> Map.empty"
proof -
  have "format_hdr_name ''Host'' = ''host:''" by code_simp
  then show ?thesis by (auto simp: remove_header_def set_header_def emplace_def fun_eq_iff)
qed

end
