(* ===== verification/Sihd_Route.thy ===== *)
theory Sihd_Route
  imports Sihd_Url Sihd_Http "HOL-Library.Product_Lexorder"
begin

text \<open>
  The routes of the http server (Route.cpp): patterns with literal segments, parameters and a
  catch-all, matching a path against them, and the table that finds the handler of a request.
  Handlers are of any type. The table is shown to choose the first of the most specific routes
  that match.
\<close>

section \<open>Paths\<close>

definition hex_digit :: "char \<Rightarrow> int" where
  "hex_digit c =
     (if 48 \<le> cv c \<and> cv c \<le> 57 then int (cv c) - 48
      else if 97 \<le> cv c \<and> cv c \<le> 102 then 10 + (int (cv c) - 97)
      else if 65 \<le> cv c \<and> cv c \<le> 70 then 10 + (int (cv c) - 65)
      else -1)"

text \<open>The argument is the text from \<open>i\<close> on.\<close>

fun decode_segment :: "string \<Rightarrow> string" where
  "decode_segment (c # a # b # cs) =
     (if c = CHR ''%'' \<and> hex_digit a \<ge> 0 \<and> hex_digit b \<ge> 0
      then char_of (nat (hex_digit a) * 16 + nat (hex_digit b)) # decode_segment cs
      else c # decode_segment (a # b # cs))"
| "decode_segment (c # cs) = c # decode_segment cs"
| "decode_segment [] = []"

definition split_slashes :: "string \<Rightarrow> string list" where
  "split_slashes str =
     split (set_delimiter_char \<lparr> sp_escape_char = escape_char, sp_empty_delimitations = False, sp_delimiter = [],
       sp_open_sequences = [], sp_compare_method = None \<rparr> (c_int (CHR ''/''))) str (length str)"

definition normalize_path :: "string \<Rightarrow> string" where
  "normalize_path raw =
     (let segments = split_slashes raw in
      if segments = [] then [] else join (map decode_segment segments) ''/'')"


section \<open>Routes\<close>

record Segment =
  seg_value :: string
  seg_is_param :: bool
  seg_is_catch_all :: bool

record 'h Route =
  rt_pattern :: string
  rt_segments :: "Segment list"
  rt_has_params :: bool
  rt_has_catch_all :: bool
  rt_specificity :: nat
  rt_handler :: 'h

text \<open>One part of the pattern.\<close>

definition add_part :: "string \<Rightarrow> 'h Route \<Rightarrow> 'h Route" where
  "add_part part r =
     (if length part \<ge> 3 \<and> hd part = CHR ''{'' \<and> last part = CHR ''}'' then
        let name = take (length part - 2) (drop 1 part);
            catch_all = (length name \<ge> 4 \<and> ends_with name ''...'' []);
            name = (if catch_all then take (length name - 3) name else name) in
        r\<lparr> rt_has_catch_all := rt_has_catch_all r \<or> catch_all,
           rt_segments := rt_segments r @ [\<lparr> seg_value = name, seg_is_param = True, seg_is_catch_all = catch_all \<rparr>],
           rt_has_params := True \<rparr>
      else
        r\<lparr> rt_segments := rt_segments r @ [\<lparr> seg_value = part, seg_is_param = False, seg_is_catch_all = False \<rparr>],
           rt_specificity := rt_specificity r + 1 \<rparr>)"

definition new_Route :: "string \<Rightarrow> 'h \<Rightarrow> 'h Route" where
  "new_Route pattern handler =
     fold add_part (split_slashes pattern)
       \<lparr> rt_pattern = pattern, rt_segments = [], rt_has_params = False, rt_has_catch_all = False,
         rt_specificity = 0, rt_handler = handler \<rparr>"

text \<open>\<open>for (j = i; ...)\<close> over the remaining parts.\<close>

fun join_rest :: "string list \<Rightarrow> string \<Rightarrow> string" where
  "join_rest [] joined = joined"
| "join_rest (p # ps) joined = join_rest ps ((if joined \<noteq> [] then joined @ ''/'' else joined) @ decode_segment p)"

text \<open>The loop over the segments with the parts from \<open>i\<close> on; \<open>None\<close> is a match that failed.\<close>

fun match_segments :: "Segment list \<Rightarrow> string list \<Rightarrow> (string \<rightharpoonup> string) \<Rightarrow> (string \<rightharpoonup> string) option cxx" where
  "match_segments [] parts params = Val (Some params)"
| "match_segments (s # ss) parts params =
     (if seg_is_catch_all s then Val (Some (params(seg_value s \<mapsto> join_rest parts [])))
      else case parts of
        [] \<Rightarrow> Undef
      | p # ps \<Rightarrow>
          if seg_is_param s then match_segments ss ps (params(seg_value s \<mapsto> decode_segment p))
          else if seg_value s \<noteq> decode_segment p then Val None
          else match_segments ss ps params)"

definition route_match :: "'h Route \<Rightarrow> string \<Rightarrow> (string \<rightharpoonup> string) option cxx" where
  "route_match r path =
     (let parts = split_slashes path in
      if (if rt_has_catch_all r then length parts < length (rt_segments r) else length parts \<noteq> length (rt_segments r))
      then Val None
      else match_segments (rt_segments r) parts Map.empty)"


section \<open>The table\<close>

type_synonym 'h RouteTable = "RequestType \<rightharpoonup> 'h Route list"

definition table_add :: "string \<Rightarrow> 'h \<Rightarrow> RequestType \<Rightarrow> 'h RouteTable \<Rightarrow> 'h RouteTable" where
  "table_add pattern handler method t =
     t(method \<mapsto> (case t method of Some rs \<Rightarrow> rs | None \<Rightarrow> []) @ [new_Route pattern handler])"

text \<open>The first route of a list that matches.\<close>

fun first_match :: "'h Route list \<Rightarrow> string \<Rightarrow> ('h \<times> (string \<rightharpoonup> string)) option cxx" where
  "first_match [] path = Val None"
| "first_match (r # rs) path =
     cxx_bind (route_match r path) (\<lambda>m.
       case m of Some params \<Rightarrow> Val (Some (rt_handler r, params)) | None \<Rightarrow> first_match rs path)"

text \<open>\<open>stable_sort\<close>: routes without a catch-all first, then by literal segments, most first.\<close>

definition sort_params :: "'h Route list \<Rightarrow> 'h Route list" where
  "sort_params rs = sort_key (\<lambda>r. (rt_has_catch_all r, - int (rt_specificity r))) rs"

definition table_find :: "'h RouteTable \<Rightarrow> RequestType \<Rightarrow> string \<Rightarrow> ('h \<times> (string \<rightharpoonup> string)) option cxx" where
  "table_find t method path =
     (case t method of
        None \<Rightarrow> Val None
      | Some routes \<Rightarrow>
          let normalized = normalize_path path in
          cxx_bind (first_match (filter (\<lambda>r. \<not> rt_has_params r) routes) normalized) (\<lambda>m.
            if m \<noteq> None then Val m
            else first_match (sort_params (filter rt_has_params routes)) normalized))"


section \<open>The routes of a table\<close>

text \<open>What the constructor makes of a pattern.\<close>

definition route_ok :: "'h Route \<Rightarrow> bool" where
  "route_ok r \<longleftrightarrow>
     rt_has_params r = list_ex seg_is_param (rt_segments r) \<and>
     rt_has_catch_all r = list_ex seg_is_catch_all (rt_segments r) \<and>
     list_all (\<lambda>s. seg_is_catch_all s \<longrightarrow> seg_is_param s) (rt_segments r) \<and>
     rt_specificity r = length (filter (\<lambda>s. \<not> seg_is_param s) (rt_segments r))"

definition table_ok :: "'h RouteTable \<Rightarrow> bool" where
  "table_ok t \<longleftrightarrow> (\<forall>method routes. t method = Some routes \<longrightarrow> list_all route_ok routes)"

lemma add_part_ok: "route_ok r \<Longrightarrow> route_ok (add_part part r)"
  by (auto simp: route_ok_def add_part_def Let_def)

lemma new_Route_ok: "route_ok (new_Route pattern handler)"
proof -
  have "route_ok r \<Longrightarrow> route_ok (fold add_part parts r)" for parts :: "string list" and r :: "'a Route"
    by (induction parts arbitrary: r) (simp_all add: add_part_ok)
  then show ?thesis unfolding new_Route_def by (auto simp: route_ok_def)
qed

lemma table_add_ok: "table_ok t \<Longrightarrow> table_ok (table_add pattern handler method t)"
  by (auto simp: table_ok_def table_add_def new_Route_ok split: option.splits if_splits)

lemma match_segments_val:
  "(if list_ex seg_is_catch_all ss then length ss \<le> length parts else length parts = length ss) \<Longrightarrow>
    \<exists>m. match_segments ss parts params = Val m"
proof (induction ss arbitrary: parts params)
  case (Cons s ss)
  show ?case
  proof (cases "seg_is_catch_all s")
    case False
    with Cons.prems obtain p ps where p: "parts = p # ps" by (cases parts) (auto split: if_splits)
    with False Cons show ?thesis by (auto split: if_splits)
  qed simp
qed simp

lemma route_match_val: "route_ok r \<Longrightarrow> \<exists>m. route_match r path = Val m"
  using match_segments_val [of "rt_segments r" "split_slashes path" Map.empty]
  by (auto simp: route_match_def route_ok_def Let_def not_less)

definition matched :: "'h Route \<Rightarrow> string \<Rightarrow> (string \<rightharpoonup> string) option" where
  "matched r path = (case route_match r path of Val m \<Rightarrow> m | _ \<Rightarrow> None)"

lemma route_match_matched: "route_ok r \<Longrightarrow> route_match r path = Val (matched r path)"
  using route_match_val [of r path] by (auto simp: matched_def)

lemma first_match_eq:
  "list_all route_ok rs \<Longrightarrow> first_match rs path =
    Val (case filter (\<lambda>r. matched r path \<noteq> None) rs of [] \<Rightarrow> None | r # _ \<Rightarrow> Some (rt_handler r, the (matched r path)))"
  by (induction rs) (auto simp: route_match_matched split: option.splits)

text \<open>A route without parameters that matches has as many literal segments as the path has parts.\<close>

lemma literal_specificity:
  assumes "route_ok r" "\<not> rt_has_params r" "matched r path \<noteq> None"
  shows "\<not> rt_has_catch_all r \<and> rt_specificity r = length (split_slashes path)"
proof -
  have np: "list_all (\<lambda>s. \<not> seg_is_param s) (rt_segments r)"
    using assms(1,2) by (auto simp: route_ok_def list_ex_iff list_all_iff)
  then have "filter (\<lambda>s. \<not> seg_is_param s) (rt_segments r) = rt_segments r"
    by (auto simp: filter_id_conv list_all_iff)
  then have spec: "rt_specificity r = length (rt_segments r)" "\<not> rt_has_catch_all r"
    using assms(1) np by (auto simp: route_ok_def list_ex_iff list_all_iff)
  moreover have "length (split_slashes path) = length (rt_segments r)"
    using assms(3) spec(2) by (auto simp: matched_def route_match_def Let_def split: if_splits)
  ultimately show ?thesis by simp
qed


section \<open>The most specific route\<close>

text \<open>Smaller is more specific.\<close>

definition rank :: "'h Route \<Rightarrow> bool \<times> bool \<times> int" where
  "rank r = (rt_has_params r, rt_has_catch_all r, - int (rt_specificity r))"

text \<open>The first element of least key.\<close>

fun first_min :: "('a \<Rightarrow> 'k::linorder) \<Rightarrow> 'a list \<Rightarrow> 'a option" where
  "first_min f [] = None"
| "first_min f (x # xs) =
     (case first_min f xs of None \<Rightarrow> Some x | Some y \<Rightarrow> Some (if f x \<le> f y then x else y))"

lemma first_min_None [simp]: "first_min f xs = None \<longleftrightarrow> xs = []"
  by (cases xs) (auto split: option.splits)

lemma first_min_least: "first_min f xs = Some y \<Longrightarrow> y \<in> set xs \<and> (\<forall>x \<in> set xs. f y \<le> f x)"
  by (induction xs arbitrary: y) (fastforce split: option.splits if_splits)+

lemma hd_insort: "hd (insort_key f x ys) = (if ys = [] \<or> f x \<le> f (hd ys) then x else hd ys)"
  by (cases ys) auto

lemma hd_sort_key: "xs \<noteq> [] \<Longrightarrow> first_min f xs = Some (hd (sort_key f xs))"
proof (induction xs)
  case (Cons x xs)
  have "sort_key f xs \<noteq> [] \<longleftrightarrow> xs \<noteq> []" by (metis length_0_conv length_sort)
  with Cons show ?case by (cases "xs = []") (auto simp: hd_insort)
qed simp

lemma first_min_sort: "first_min f xs = (case sort_key f xs of [] \<Rightarrow> None | x # _ \<Rightarrow> Some x)"
proof (cases "sort_key f xs")
  case Nil
  then have "xs = []" by (metis length_0_conv length_sort)
  then show ?thesis by simp
next
  case (Cons y ys)
  then have "xs \<noteq> []" by auto
  from hd_sort_key [OF this, of f] Cons show ?thesis by simp
qed

lemma first_min_const: "\<forall>x \<in> set xs. f x = k \<Longrightarrow> first_min f xs = (case xs of [] \<Rightarrow> None | x # _ \<Rightarrow> Some x)"
proof (induction xs)
  case (Cons x xs)
  then show ?case using first_min_least [of f xs] by (auto split: option.splits list.splits)
qed simp

lemma first_min_partition:
  assumes "\<And>x y. x \<in> set xs \<Longrightarrow> y \<in> set xs \<Longrightarrow> \<not> P x \<Longrightarrow> P y \<Longrightarrow> f x < f y"
  shows "first_min f xs = (if filter (\<lambda>x. \<not> P x) xs \<noteq> [] then first_min f (filter (\<lambda>x. \<not> P x) xs) else first_min f (filter P xs))"
  using assms
proof (induction xs)
  case (Cons x xs)
  let ?l = "filter (\<lambda>x. \<not> P x) xs" and ?p = "filter P xs"
  have IH: "first_min f xs = (if ?l \<noteq> [] then first_min f ?l else first_min f ?p)"
    using Cons by simp
  show ?case
  proof (cases "P x")
    case True
    have "f y < f x" if "first_min f ?l = Some y" for y
      using first_min_least [OF that] Cons.prems [of y x] True by auto
    with True IH show ?thesis by (auto split: option.splits)
  next
    case False
    have "f x \<le> f y" if "first_min f ?p = Some y" for y
      using first_min_least [OF that] Cons.prems [of x y] False by (auto intro: less_imp_le)
    with False IH show ?thesis by (auto split: option.splits)
  qed
qed simp

text \<open>Sorting keeps the order of what a filter takes out.\<close>

lemma first_min_cong: "(\<And>x y. x \<in> set xs \<Longrightarrow> y \<in> set xs \<Longrightarrow> f x \<le> f y \<longleftrightarrow> g x \<le> g y) \<Longrightarrow> first_min f xs = first_min g xs"
proof (induction xs)
  case (Cons x xs)
  then have "first_min f xs = first_min g xs" by simp
  with Cons.prems show ?case using first_min_least [of g xs] by (auto split: option.splits)
qed simp


text \<open>C40. In a table whose routes were made from patterns, a request is given to the first of the most specific
  routes of its method that match the normalised path: literal routes before those with
  parameters, these before those with a catch-all, and among them by the number of literal
  segments. Nothing is found exactly when none matches.\<close>

theorem find_most_specific:
  assumes "table_ok t"
  shows "table_find t method path =
    Val (case t method of
        None \<Rightarrow> None
      | Some routes \<Rightarrow>
          map_option (\<lambda>r. (rt_handler r, the (matched r (normalize_path path))))
            (first_min rank (filter (\<lambda>r. matched r (normalize_path path) \<noteq> None) routes)))"
proof (cases "t method")
  case (Some routes)
  let ?p = "normalize_path path"
  let ?m = "\<lambda>r. matched r ?p \<noteq> None"
  let ?lit = "filter ?m (filter (\<lambda>r. \<not> rt_has_params r) routes)" and ?par = "filter ?m (filter rt_has_params routes)"
  have ok: "list_all route_ok routes" using assms Some by (simp add: table_ok_def)
  then have ok': "list_all route_ok (filter (\<lambda>r. \<not> rt_has_params r) routes)"
    "list_all route_ok (sort_params (filter rt_has_params routes))"
    by (auto simp: list_all_iff sort_params_def)
  have "first_min rank (filter ?m routes) = (if ?lit \<noteq> [] then first_min rank ?lit else first_min rank ?par)"
    using first_min_partition [of "filter ?m routes" rt_has_params rank]
    by (simp add: rank_def less_bool_def conj_commute)
  also have "first_min rank ?lit = (case ?lit of [] \<Rightarrow> None | r # _ \<Rightarrow> Some r)"
  proof (rule first_min_const, rule ballI)
    fix r assume "r \<in> set ?lit"
    then have "route_ok r" "\<not> rt_has_params r" "matched r ?p \<noteq> None" using ok by (simp_all add: list_all_iff)
    from literal_specificity [OF this] this(2) show "rank r = (False, False, - int (length (split_slashes ?p)))"
      by (simp add: rank_def)
  qed
  also have "first_min rank ?par = first_min (\<lambda>r. (rt_has_catch_all r, - int (rt_specificity r))) ?par"
  proof (rule first_min_cong)
    fix x y assume "x \<in> set ?par" "y \<in> set ?par"
    then have "rt_has_params x" "rt_has_params y" by simp_all
    then show "rank x \<le> rank y \<longleftrightarrow>
        (rt_has_catch_all x, - int (rt_specificity x)) \<le> (rt_has_catch_all y, - int (rt_specificity y))"
      unfolding rank_def by simp
  qed
  also have "\<dots> = (case sort_key (\<lambda>r. (rt_has_catch_all r, - int (rt_specificity r))) ?par of [] \<Rightarrow> None | r # _ \<Rightarrow> Some r)"
    by (rule first_min_sort)
  finally have best: "first_min rank (filter ?m routes) = (if ?lit \<noteq> [] then (case ?lit of [] \<Rightarrow> None | r # _ \<Rightarrow> Some r)
      else (case sort_key (\<lambda>r. (rt_has_catch_all r, - int (rt_specificity r))) ?par of [] \<Rightarrow> None | r # _ \<Rightarrow> Some r))" .
  show ?thesis unfolding table_find_def Some option.case Let_def first_match_eq [OF ok'(1)] first_match_eq [OF ok'(2)] best
    by (cases ?lit) (auto simp: sort_params_def filter_sort split: list.splits)
qed (simp add: table_find_def)

text \<open>Each address is decoded twice on its way to a parameter, and a decoded slash starts a new segment.\<close>

definition user_table :: "nat RouteTable" where
  "user_table = table_add ''/u/{id}'' 1 Get (table_add ''/u/me'' 2 Get (table_add ''/{all...}'' 3 Get Map.empty))"

lemma user_table_ok: "table_ok user_table"
  unfolding user_table_def by (intro table_add_ok) (simp add: table_ok_def)

lemma user_table_best:
  "map_option rt_handler (first_min rank (filter (\<lambda>r. matched r (normalize_path ''/u/me'') \<noteq> None) (the (user_table Get)))) = Some 2"
  by code_simp

theorem find_most_specific_witness:
  "\<exists>m. table_find user_table Get ''/u/me'' = Val (Some (2, m))"
proof -
  obtain routes where "user_table Get = Some routes" by (simp add: user_table_def table_add_def)
  with user_table_best find_most_specific [OF user_table_ok, of Get "''/u/me''"] show ?thesis by auto
qed

lemma decoded_twice: "decode_segment (decode_segment ''%2541'') = ''A''"
  by code_simp

lemma decoded_slash_splits: "split_slashes (normalize_path ''/u/a%2Fb'') = [''u'', ''a'', ''b'']"
  by code_simp


section \<open>Values in a path\<close>

lemma hex_digit_from_hex: "hex_digit c = (case from_hex c of None \<Rightarrow> -1 | Some n \<Rightarrow> int n)"
  by (auto simp: hex_digit_def from_hex_def)

text \<open>The decoding is the one of the urls.\<close>

lemma decode_segment_eq: "decode_segment s = str_decode s"
  by (induction s rule: decode_segment.induct) (auto simp: hex_digit_from_hex split: option.splits)

lemma str_encode_no_slash: "CHR ''/'' \<notin> set (str_encode s)"
proof -
  have "\<not> is_unreserved (CHR ''/'')" by code_simp
  then show ?thesis using set_str_encode by blast
qed

lemma split_slashes_join:
  assumes "\<forall>p \<in> set ps. p \<noteq> [] \<and> no_nul p \<and> CHR ''/'' \<notin> set p"
  shows "split_slashes (join ps ''/'') = ps"
proof -
  let ?sp = "set_delimiter_char \<lparr> sp_escape_char = escape_char, sp_empty_delimitations = False, sp_delimiter = [],
       sp_open_sequences = [], sp_compare_method = None \<rparr> (c_int (CHR ''/''))"
  have "char_of (c_int (CHR ''/'') mod 256) = CHR ''/''" by code_simp
  then have "?sp = set_delimiter \<lparr> sp_escape_char = escape_char, sp_empty_delimitations = False, sp_delimiter = [],
       sp_open_sequences = [], sp_compare_method = None \<rparr> ''/''"
    by (simp add: set_delimiter_def set_delimiter_char_def)
  then have "split_slashes s = str_split s (length s) ''/''" for s by (simp add: split_slashes_def str_split_def)
  with str_split_join [of ps "''/''" "[]"] assms str_split_Nil show ?thesis by (cases "ps = []") auto
qed

text \<open>A path made by filling in a pattern, every part percent-encoded.\<close>

definition filled :: "'h Route \<Rightarrow> (string \<Rightarrow> string) \<Rightarrow> string" where
  "filled r vals =
     join (map (\<lambda>s. str_encode (if seg_is_param s then vals (seg_value s) else seg_value s)) (rt_segments r)) ''/''"

lemma match_filled_segments:
  "list_all (\<lambda>s. \<not> seg_is_catch_all s) ss \<Longrightarrow>
    match_segments ss (map (\<lambda>s. str_encode (if seg_is_param s then vals (seg_value s) else seg_value s)) ss) params =
      Val (Some (\<lambda>n. if \<exists>s \<in> set ss. seg_is_param s \<and> seg_value s = n then Some (vals n) else params n))"
  by (induction ss arbitrary: params) (auto simp: decode_segment_eq fun_eq_iff)

text \<open>A route without a catch-all matches it and gives the values back.\<close>

lemma match_filled:
  assumes "route_ok r" "\<not> rt_has_catch_all r"
    and "\<forall>s \<in> set (rt_segments r). (if seg_is_param s then vals (seg_value s) else seg_value s) \<noteq> []"
  shows "matched r (filled r vals) =
    Some (\<lambda>n. if \<exists>s \<in> set (rt_segments r). seg_is_param s \<and> seg_value s = n then Some (vals n) else None)"
proof -
  let ?ps = "map (\<lambda>s. str_encode (if seg_is_param s then vals (seg_value s) else seg_value s)) (rt_segments r)"
  have "split_slashes (filled r vals) = ?ps"
    unfolding filled_def using assms(3) str_encode_no_slash by (intro split_slashes_join) (simp add: str_encode_avoids)
  moreover have "list_all (\<lambda>s. \<not> seg_is_catch_all s) (rt_segments r)"
    using assms(1,2) by (auto simp: route_ok_def list_ex_iff list_all_iff)
  ultimately show ?thesis
    using assms(2) match_filled_segments [of "rt_segments r" vals Map.empty] by (simp add: matched_def route_match_def)
qed

end
