(* ===== verification/Sihd_Message.thy ===== *)
theory Sihd_Message
  imports Sihd_Array
begin

text \<open>
  Messages: a record of typed fields over one buffer of bytes (util/Message.cpp and
  MessageField.cpp, type.cpp, array_utils.cpp), and messages whose fields are read one after the
  other under rules (DynMessage.cpp). Memory is a list of blocks of bytes, a freed block is
  absent; a pointer is a block and an offset, or null. Arrays are as in \<open>Sihd_Array\<close>, but on this
  memory, since fields share the buffer of their message. The children of a message are its fields
  in the order of their keys; the tree operations are those of \<open>Sihd_Node\<close>. A value of a type is
  its bytes. Sizes and indexes are below \<open>2 ^ 60\<close>.
\<close>

section \<open>Types\<close>

datatype Type = TYPE_NONE | TYPE_BOOL | TYPE_CHAR | TYPE_BYTE | TYPE_UBYTE | TYPE_SHORT | TYPE_USHORT
  | TYPE_INT | TYPE_UINT | TYPE_LONG | TYPE_ULONG | TYPE_FLOAT | TYPE_DOUBLE | TYPE_OBJECT

fun dt_size :: "Type \<Rightarrow> nat" where
  "dt_size TYPE_BOOL = 1"
| "dt_size TYPE_CHAR = 1"
| "dt_size TYPE_BYTE = 1"
| "dt_size TYPE_UBYTE = 1"
| "dt_size TYPE_SHORT = 2"
| "dt_size TYPE_USHORT = 2"
| "dt_size TYPE_INT = 4"
| "dt_size TYPE_UINT = 4"
| "dt_size TYPE_LONG = 8"
| "dt_size TYPE_ULONG = 8"
| "dt_size TYPE_FLOAT = 4"
| "dt_size TYPE_DOUBLE = 8"
| "dt_size _ = 0"

fun dt_str :: "Type \<Rightarrow> string" where
  "dt_str TYPE_NONE = ''none''"
| "dt_str TYPE_BOOL = ''bool''"
| "dt_str TYPE_CHAR = ''char''"
| "dt_str TYPE_BYTE = ''byte''"
| "dt_str TYPE_UBYTE = ''ubyte''"
| "dt_str TYPE_SHORT = ''short''"
| "dt_str TYPE_USHORT = ''ushort''"
| "dt_str TYPE_INT = ''int''"
| "dt_str TYPE_UINT = ''uint''"
| "dt_str TYPE_LONG = ''long''"
| "dt_str TYPE_ULONG = ''ulong''"
| "dt_str TYPE_FLOAT = ''float''"
| "dt_str TYPE_DOUBLE = ''double''"
| "dt_str TYPE_OBJECT = ''object''"

definition dt_from_str :: "string \<Rightarrow> Type" where
  "dt_from_str s = (case map_of
     [(''none'', TYPE_NONE), (''bool'', TYPE_BOOL), (''char'', TYPE_CHAR), (''byte'', TYPE_BYTE),
      (''ubyte'', TYPE_UBYTE), (''short'', TYPE_SHORT), (''ushort'', TYPE_USHORT), (''int'', TYPE_INT),
      (''uint'', TYPE_UINT), (''long'', TYPE_LONG), (''ulong'', TYPE_ULONG), (''float'', TYPE_FLOAT),
      (''double'', TYPE_DOUBLE), (''object'', TYPE_OBJECT)] s of
     None \<Rightarrow> TYPE_NONE
   | Some t \<Rightarrow> t)"

lemma dt_from_dt_str: "dt_from_str (dt_str t) = t"
  by (cases t) (simp_all add: dt_from_str_def)

section \<open>Memory\<close>

type_synonym mem = "u8 list option list"
type_synonym ptr = "(nat \<times> nat) option"

definition block :: "mem \<Rightarrow> nat \<Rightarrow> u8 list option" where
  "block m b = (if b < length m then m ! b else None)"

definition mem_free :: "mem \<Rightarrow> nat \<Rightarrow> mem cxx" where
  "mem_free m b = (if block m b = None then Undef else Val (m[b := None]))"

text \<open>Adding to a pointer is defined inside its block and one past the end.\<close>

definition ptr_add :: "mem \<Rightarrow> ptr \<Rightarrow> nat \<Rightarrow> ptr cxx" where
  "ptr_add m p k = (case p of
       None \<Rightarrow> if k = 0 then Val None else Undef
     | Some (b, off) \<Rightarrow>
         (case block m b of
            None \<Rightarrow> Undef
          | Some xs \<Rightarrow> if off + k \<le> length xs then Val (Some (b, off + k)) else Undef))"

definition mem_load :: "mem \<Rightarrow> ptr \<Rightarrow> nat \<Rightarrow> u8 list cxx" where
  "mem_load m p n = (if n = 0 then Val [] else case p of
       None \<Rightarrow> Undef
     | Some (b, off) \<Rightarrow>
         (case block m b of
            None \<Rightarrow> Undef
          | Some xs \<Rightarrow> if off + n \<le> length xs then Val (take n (drop off xs)) else Undef))"

definition mem_store :: "mem \<Rightarrow> ptr \<Rightarrow> u8 list \<Rightarrow> mem cxx" where
  "mem_store m p bs = (if bs = [] then Val m else case p of
       None \<Rightarrow> Undef
     | Some (b, off) \<Rightarrow>
         (case block m b of
            None \<Rightarrow> Undef
          | Some xs \<Rightarrow> cxx_bind (write_cells off bs xs) (\<lambda>xs. Val (m[b := Some xs]))))"

section \<open>Arrays in memory\<close>

record MArray =
  ma_type :: Type
  ma_ptr :: ptr
  ma_size :: nat
  ma_capacity :: nat
  ma_owner :: bool

definition new_MArray :: "Type \<Rightarrow> MArray" where
  "new_MArray t = \<lparr> ma_type = t, ma_ptr = None, ma_size = 0, ma_capacity = 0, ma_owner = False \<rparr>"

definition create_from_type :: "Type \<Rightarrow> MArray option" where
  "create_from_type t = (if t = TYPE_NONE \<or> t = TYPE_OBJECT then None else Some (new_MArray t))"

definition data_size :: "MArray \<Rightarrow> nat" where
  "data_size a = dt_size (ma_type a)"

definition ma_byte_size :: "MArray \<Rightarrow> nat" where
  "ma_byte_size a = ma_size a * data_size a"

definition ma_delete_buffer :: "mem \<Rightarrow> MArray \<Rightarrow> (mem \<times> MArray) cxx" where
  "ma_delete_buffer m a =
     cxx_bind (case ma_ptr a of None \<Rightarrow> Val m | Some (b, _) \<Rightarrow> if ma_owner a then mem_free m b else Val m)
       (\<lambda>m. Val (m, new_MArray (ma_type a)))"

definition ma_assign_bytes :: "ptr \<Rightarrow> nat \<Rightarrow> mem \<Rightarrow> MArray \<Rightarrow> (bool \<times> mem \<times> MArray) cxx" where
  "ma_assign_bytes p n m a =
     (if n mod data_size a \<noteq> 0 then Raise InvalidArgument
      else if p \<noteq> ma_ptr a then
        cxx_bind (ma_delete_buffer m a) (\<lambda>(m, a).
          Val (True, m, a\<lparr> ma_ptr := p, ma_size := n div data_size a, ma_capacity := n div data_size a, ma_owner := False \<rparr>))
      else Val (True, m, a))"

definition ma_copy_from_bytes :: "u8 list \<Rightarrow> Slice \<Rightarrow> mem \<Rightarrow> MArray \<Rightarrow> (bool \<times> mem) cxx" where
  "ma_copy_from_bytes bs s m a =
     (let r = resolve s (ma_byte_size a) in
      if range_empty r \<or> rg_from r + length bs > ma_byte_size a then Val (False, m)
      else cxx_bind (ptr_add m (ma_ptr a) (rg_from r)) (\<lambda>p.
           cxx_bind (mem_store m p bs) (\<lambda>m. Val (True, m))))"

definition ma_copy_to_bytes :: "Slice \<Rightarrow> mem \<Rightarrow> MArray \<Rightarrow> u8 list option cxx" where
  "ma_copy_to_bytes s m a =
     (let r = resolve s (ma_byte_size a) in
      if range_empty r then Val None
      else cxx_bind (ptr_add m (ma_ptr a) (rg_from r)) (\<lambda>p.
           cxx_bind (mem_load m p (range_size r)) (\<lambda>bs. Val (Some bs))))"

text \<open>Growing moves to a new block of zeroes behind the old content.\<close>

definition ma_reserve :: "nat \<Rightarrow> (nat \<Rightarrow> bool) \<Rightarrow> nat \<Rightarrow> mem \<Rightarrow> MArray \<Rightarrow> (mem \<times> MArray) cxx" where
  "ma_reserve mult alloc n m a =
     cxx_bind (new_capacity mult (ma_capacity a) n) (\<lambda>cap.
     if ma_ptr a \<noteq> None \<and> (\<not> ma_owner a \<or> cap = 0) then Undef
     else if \<not> alloc (cap * data_size a) then Val (m, a)
     else
       cxx_bind (mem_load m (ma_ptr a) (min (ma_capacity a) cap * data_size a)) (\<lambda>old.
       cxx_bind (case ma_ptr a of None \<Rightarrow> Val m | Some (b, _) \<Rightarrow> mem_free m b) (\<lambda>m.
         Val (m @ [Some (old @ replicate (cap * data_size a - length old) 0)],
              a\<lparr> ma_ptr := Some (length m, 0), ma_size := min (ma_size a) cap, ma_capacity := cap, ma_owner := True \<rparr>))))"

definition ma_resize :: "nat \<Rightarrow> (nat \<Rightarrow> bool) \<Rightarrow> nat \<Rightarrow> mem \<Rightarrow> MArray \<Rightarrow> (bool \<times> mem \<times> MArray) cxx" where
  "ma_resize mult alloc n m a =
     cxx_bind (if ma_ptr a = None \<or> n > ma_capacity a then ma_reserve mult alloc n m a else Val (m, a)) (\<lambda>(m, a).
       let a = (if ma_ptr a \<noteq> None \<and> n \<le> ma_capacity a then a\<lparr> ma_size := n \<rparr> else a) in
       Val (ma_size a = n, m, a))"

text \<open>
  \<open>array_utils::read\<close> copies what the range holds of the value; what it does not fill is
  uninitialised. \<open>n\<close> is \<open>sizeof(T)\<close>.
\<close>

definition array_read :: "nat \<Rightarrow> nat \<Rightarrow> mem \<Rightarrow> MArray \<Rightarrow> u8 list cxx" where
  "array_read n idx m a =
     cxx_bind (ma_copy_to_bytes (slice_from_size (idx * data_size a) n) m a) (\<lambda>r. case r of
       None \<Rightarrow> Raise InvalidArgument
     | Some bs \<Rightarrow> if length bs < n then Undef else Val bs)"

definition array_write :: "u8 list \<Rightarrow> nat \<Rightarrow> mem \<Rightarrow> MArray \<Rightarrow> (bool \<times> mem) cxx" where
  "array_write v idx m a = ma_copy_from_bytes v (slice_from_size (idx * data_size a) (length v)) m a"

text \<open>\<open>distribute_array\<close>: the arrays become consecutive parts of the buffer of the first one.\<close>

fun distribute_loop :: "ptr \<Rightarrow> nat \<Rightarrow> mem \<Rightarrow> (MArray \<times> nat) list \<Rightarrow> (bool \<times> mem \<times> MArray list) cxx" where
  "distribute_loop p pos m [] = Val (True, m, [])"
| "distribute_loop p pos m ((a, n) # as) =
     cxx_bind (ptr_add m p pos) (\<lambda>q.
     cxx_bind (ma_assign_bytes q (n * data_size a) m a) (\<lambda>(ok, m, a').
       if \<not> ok then Val (False, m, a' # map fst as)
       else cxx_bind (distribute_loop p (pos + n * data_size a) m as) (\<lambda>(ok, m, as'). Val (ok, m, a' # as'))))"

definition distribute_array :: "MArray \<Rightarrow> (MArray \<times> nat) list \<Rightarrow> nat \<Rightarrow> mem \<Rightarrow> (bool \<times> mem \<times> MArray list) cxx" where
  "distribute_array d as starting_offset m =
     (if starting_offset > ma_byte_size d then Raise InvalidArgument
      else if sum_list (map (\<lambda>(a, n). n * data_size a) as) + starting_offset > ma_byte_size d then Raise InvalidArgument
      else distribute_loop (ma_ptr d) starting_offset m as)"

section \<open>Fields\<close>

text \<open>Either a typed field, whose array is built or not, or a message with its fields by name.\<close>

datatype IMessageField =
    MessageField Type nat "MArray option"
  | Message MArray nat bool "(string \<times> IMessageField) list"

fun field_byte_size :: "IMessageField \<Rightarrow> nat" where
  "field_byte_size (MessageField dt n _) = n * dt_size dt"
| "field_byte_size (Message _ t _ _) = t"

fun field_size :: "IMessageField \<Rightarrow> nat" where
  "field_size (MessageField _ n _) = n"
| "field_size (Message _ _ _ _) = 1"

fun is_finished :: "IMessageField \<Rightarrow> bool" where
  "is_finished (MessageField _ _ a) \<longleftrightarrow> a \<noteq> None"
| "is_finished (Message _ _ fin _) \<longleftrightarrow> fin"

definition new_MessageField :: IMessageField where
  "new_MessageField = MessageField TYPE_NONE 0 None"

definition new_Message :: IMessageField where
  "new_Message = Message (new_MArray TYPE_BYTE) 0 False []"

text \<open>The array that the field had is deleted with its buffer.\<close>

definition build_array :: "Type \<Rightarrow> nat \<Rightarrow> MArray option \<Rightarrow> mem \<Rightarrow> (bool \<times> mem \<times> IMessageField) cxx" where
  "build_array dt n a m =
     cxx_bind (case a of None \<Rightarrow> Val m | Some a \<Rightarrow> cxx_bind (ma_delete_buffer m a) (\<lambda>(m, _). Val m)) (\<lambda>m.
       Val (create_from_type dt \<noteq> None, m, MessageField dt n (create_from_type dt)))"

text \<open>\<open>field_assign_buffer\<close>; the second function is the loop over the fields, \<open>pos\<close> is \<open>__assign_arr_at\<close>.\<close>

fun field_assign_buffer :: "ptr \<Rightarrow> mem \<Rightarrow> IMessageField \<Rightarrow> (bool \<times> mem \<times> IMessageField) cxx"
  and assign_fields :: "ptr \<Rightarrow> nat \<Rightarrow> nat \<Rightarrow> mem \<Rightarrow> (string \<times> IMessageField) list
        \<Rightarrow> (bool \<times> mem \<times> (string \<times> IMessageField) list) cxx" where
  "field_assign_buffer p m (MessageField dt n a) =
     (case a of
        None \<Rightarrow> Val (False, m, MessageField dt n a)
      | Some arr \<Rightarrow>
          if n = 0 \<or> dt = TYPE_NONE then Val (False, m, MessageField dt n a)
          else cxx_bind (ma_assign_bytes p (n * dt_size dt) m arr) (\<lambda>(ok, m, arr). Val (ok, m, MessageField dt n (Some arr))))"
| "field_assign_buffer p m (Message arr tot fin fs) =
     cxx_bind (ma_assign_bytes p tot m arr) (\<lambda>(ok, m, arr).
       if \<not> ok then Val (False, m, Message arr tot fin fs)
       else cxx_bind (assign_fields (ma_ptr arr) 0 tot m fs) (\<lambda>(ok, m, fs). Val (ok, m, Message arr tot fin fs)))"
| "assign_fields p pos tot m [] = Val (True, m, [])"
| "assign_fields p pos tot m ((name, f) # fs) =
     cxx_bind (ptr_add m p pos) (\<lambda>q.
     cxx_bind (field_assign_buffer q m f) (\<lambda>(ok, m, f').
       if \<not> ok \<or> pos + field_byte_size f > tot then Val (False, m, (name, f') # fs)
       else cxx_bind (assign_fields p (pos + field_byte_size f) tot m fs) (\<lambda>(ok, m, fs'). Val (ok, m, (name, f') # fs'))))"

fun field_finish :: "nat \<Rightarrow> (nat \<Rightarrow> bool) \<Rightarrow> mem \<Rightarrow> IMessageField \<Rightarrow> (bool \<times> mem \<times> IMessageField) cxx" where
  "field_finish mult alloc m (MessageField dt n a) = Val (a \<noteq> None, m, MessageField dt n a)"
| "field_finish mult alloc m (Message arr tot fin fs) =
     (if fin then Val (False, m, Message arr tot fin fs)
      else cxx_bind (ma_resize mult alloc tot m arr) (\<lambda>(_, m, arr).
           cxx_bind (field_assign_buffer (ma_ptr arr) m (Message arr tot fin fs)) (\<lambda>(ok, m, f).
             case f of
               Message arr tot _ fs \<Rightarrow> Val (ok, m, Message arr tot ok fs)
             | MessageField _ _ _ \<Rightarrow> Undef)))"

fun field_resize :: "nat \<Rightarrow> (nat \<Rightarrow> bool) \<Rightarrow> nat \<Rightarrow> mem \<Rightarrow> IMessageField \<Rightarrow> (bool \<times> mem \<times> IMessageField) cxx" where
  "field_resize mult alloc n m (MessageField dt k a) =
     (case a of
        None \<Rightarrow> Val (False, m, MessageField dt k a)
      | Some arr \<Rightarrow> cxx_bind (ma_resize mult alloc n m arr) (\<lambda>(ok, m, arr).
          Val (ok, m, MessageField dt (if ok then n else k) (Some arr))))"
| "field_resize mult alloc n m (Message arr tot fin fs) = Val (True, m, Message arr tot fin fs)"

text \<open>The bytes at the buffer that is read; what is written to a buffer.\<close>

fun field_read_from :: "u8 list \<Rightarrow> mem \<Rightarrow> IMessageField \<Rightarrow> (bool \<times> mem) cxx" where
  "field_read_from bs m (MessageField dt n a) =
     (case a of None \<Rightarrow> Val (False, m) | Some arr \<Rightarrow> ma_copy_from_bytes bs \<lparr> sl_from = 0, sl_to = -1 \<rparr> m arr)"
| "field_read_from bs m (Message arr tot fin fs) = ma_copy_from_bytes bs \<lparr> sl_from = 0, sl_to = -1 \<rparr> m arr"

fun field_write_to :: "nat \<Rightarrow> mem \<Rightarrow> IMessageField \<Rightarrow> (bool \<times> u8 list) cxx" where
  "field_write_to n m (MessageField dt k a) =
     (case a of
        None \<Rightarrow> Val (False, [])
      | Some arr \<Rightarrow> cxx_bind (mem_load m (ma_ptr arr) (min n (ma_byte_size arr))) (\<lambda>bs. Val (True, bs)))"
| "field_write_to n m (Message arr tot fin fs) =
     cxx_bind (mem_load m (ma_ptr arr) (min n (ma_size arr))) (\<lambda>bs. Val (True, bs))"

fun read_value :: "nat \<Rightarrow> nat \<Rightarrow> mem \<Rightarrow> MArray option \<Rightarrow> u8 list cxx" where
  "read_value n idx m None = Raise LogicError"
| "read_value n idx m (Some a) = array_read n idx m a"

fun write_value :: "u8 list \<Rightarrow> nat \<Rightarrow> mem \<Rightarrow> MArray option \<Rightarrow> (bool \<times> mem) cxx" where
  "write_value v idx m None = Raise LogicError"
| "write_value v idx m (Some a) = array_write v idx m a"

fun add_field :: "string \<Rightarrow> IMessageField \<Rightarrow> IMessageField \<Rightarrow> bool \<times> IMessageField" where
  "add_field name f (Message arr tot fin fs) =
     (if name \<in> fst ` set fs then (False, Message arr tot fin fs)
      else (True, Message arr (tot + field_byte_size f) fin (fs @ [(name, f)])))"
| "add_field name f (MessageField dt n a) = (False, MessageField dt n a)"

text \<open>A field that cannot be built stays, and its size is not counted.\<close>

fun add_typed_field :: "string \<Rightarrow> Type \<Rightarrow> nat \<Rightarrow> IMessageField \<Rightarrow> bool \<times> IMessageField" where
  "add_typed_field name dt n (Message arr tot fin fs) =
     (if name \<in> fst ` set fs then (False, Message arr tot fin fs)
      else let f = MessageField dt n (create_from_type dt) in
        if create_from_type dt = None then (False, Message arr tot fin (fs @ [(name, f)]))
        else (True, Message arr (tot + field_byte_size f) fin (fs @ [(name, f)])))"
| "add_typed_field name dt n (MessageField dt' k a) = (False, MessageField dt' k a)"

text \<open>Deleting a field frees the buffers it owns.\<close>

definition free_array :: "MArray \<Rightarrow> mem \<Rightarrow> mem cxx" where
  "free_array a m = cxx_bind (ma_delete_buffer m a) (\<lambda>(m, _). Val m)"

fun delete_field :: "IMessageField \<Rightarrow> mem \<Rightarrow> mem cxx" and delete_fields :: "(string \<times> IMessageField) list \<Rightarrow> mem \<Rightarrow> mem cxx" where
  "delete_field (MessageField dt n a) m = (case a of None \<Rightarrow> Val m | Some arr \<Rightarrow> free_array arr m)"
| "delete_field (Message arr tot fin fs) m = cxx_bind (free_array arr m) (\<lambda>m. delete_fields fs m)"
| "delete_fields [] m = Val m"
| "delete_fields ((name, f) # fs) m = cxx_bind (delete_field f m) (\<lambda>m. delete_fields fs m)"

text \<open>A copy with the same fields. The values are not copied.\<close>

fun field_clone :: "nat \<Rightarrow> (nat \<Rightarrow> bool) \<Rightarrow> mem \<Rightarrow> IMessageField \<Rightarrow> (mem \<times> IMessageField option) cxx"
  and clone_fields :: "nat \<Rightarrow> (nat \<Rightarrow> bool) \<Rightarrow> mem \<Rightarrow> (string \<times> IMessageField) list \<Rightarrow> IMessageField
        \<Rightarrow> (mem \<times> bool \<times> IMessageField) cxx" where
  "field_clone mult alloc m (MessageField dt n a) =
     (case a of
        None \<Rightarrow> Val (m, Some new_MessageField)
      | Some arr \<Rightarrow> cxx_bind (build_array (ma_type arr) (ma_size arr) None m) (\<lambda>(ok, m, f). Val (m, if ok then Some f else None)))"
| "field_clone mult alloc m (Message arr tot fin fs) =
     cxx_bind (clone_fields mult alloc m fs new_Message) (\<lambda>(m, ok, cloned).
     cxx_bind (if ok \<and> fin then field_finish mult alloc m cloned else Val (ok, m, cloned)) (\<lambda>(ok, m, cloned).
       if ok then Val (m, Some cloned) else cxx_bind (delete_field cloned m) (\<lambda>m. Val (m, None))))"
| "clone_fields mult alloc m [] cloned = Val (m, True, cloned)"
| "clone_fields mult alloc m ((name, f) # fs) cloned =
     cxx_bind (field_clone mult alloc m f) (\<lambda>(m, c). case c of
       None \<Rightarrow> Val (m, False, cloned)
     | Some f' \<Rightarrow> clone_fields mult alloc m fs (snd (add_field name f' cloned)))"

text \<open>\<open>remove_child\<close> of a message; its size is not lowered.\<close>

fun remove_field :: "string \<Rightarrow> mem \<Rightarrow> IMessageField \<Rightarrow> (bool \<times> mem \<times> IMessageField) cxx" where
  "remove_field name m (Message arr tot fin fs) =
     (case map_of fs name of
        None \<Rightarrow> Val (False, m, Message arr tot fin fs)
      | Some f \<Rightarrow> cxx_bind (delete_field f m) (\<lambda>m.
          Val (True, m, Message arr tot fin (filter (\<lambda>(n, _). n \<noteq> name) fs))))"
| "remove_field name m (MessageField dt n a) = Val (False, m, MessageField dt n a)"

section \<open>Access by name\<close>

fun message_get :: "nat \<Rightarrow> mem \<Rightarrow> IMessageField \<Rightarrow> string \<Rightarrow> nat \<Rightarrow> u8 list cxx" where
  "message_get n m (Message arr tot fin fs) name idx =
     (case map_of fs name of
        Some (MessageField dt k a) \<Rightarrow> read_value n idx m a
      | _ \<Rightarrow> Raise InvalidArgument)"
| "message_get n m (MessageField dt k a) name idx = Undef"

fun message_set :: "mem \<Rightarrow> IMessageField \<Rightarrow> string \<Rightarrow> u8 list \<Rightarrow> nat \<Rightarrow> (bool \<times> mem) cxx" where
  "message_set m (Message arr tot fin fs) name v idx =
     (case map_of fs name of
        Some (MessageField dt k a) \<Rightarrow> write_value v idx m a
      | _ \<Rightarrow> Val (False, m))"
| "message_set m (MessageField dt k a) name v idx = Undef"

definition message_to_bytes :: "mem \<Rightarrow> IMessageField \<Rightarrow> u8 list cxx" where
  "message_to_bytes m f = cxx_bind (field_write_to (field_byte_size f) m f) (\<lambda>(_, bs).
     Val (bs @ replicate (field_byte_size f - length bs) 0))"

definition message_from_bytes :: "u8 list \<Rightarrow> mem \<Rightarrow> IMessageField \<Rightarrow> (bool \<times> mem) cxx" where
  "message_from_bytes bs m f = field_read_from bs m f"

section \<open>Layout\<close>

text \<open>The message \<open>p\<close> names inside a message, and access to a field of it.\<close>

fun field_at :: "IMessageField \<Rightarrow> string list \<Rightarrow> IMessageField option" where
  "field_at f [] = Some f"
| "field_at (MessageField dt n a) (x # p) = None"
| "field_at (Message arr tot fin fs) (x # p) = (case map_of fs x of None \<Rightarrow> None | Some f \<Rightarrow> field_at f p)"

definition path_get :: "nat \<Rightarrow> mem \<Rightarrow> IMessageField \<Rightarrow> string list \<Rightarrow> nat \<Rightarrow> u8 list cxx" where
  "path_get n m f p idx = (case field_at f (butlast p) of None \<Rightarrow> Undef | Some s \<Rightarrow> message_get n m s (last p) idx)"

definition path_set :: "mem \<Rightarrow> IMessageField \<Rightarrow> string list \<Rightarrow> u8 list \<Rightarrow> nat \<Rightarrow> (bool \<times> mem) cxx" where
  "path_set m f p v idx = (case field_at f (butlast p) of None \<Rightarrow> Undef | Some s \<Rightarrow> message_set m s (last p) v idx)"

text \<open>Where a typed field is: its offset in the buffer of the message, its type and its size.\<close>

fun locate :: "IMessageField \<Rightarrow> string list \<Rightarrow> (nat \<times> Type \<times> nat) option"
  and locate_in :: "nat \<Rightarrow> (string \<times> IMessageField) list \<Rightarrow> string \<Rightarrow> string list \<Rightarrow> (nat \<times> Type \<times> nat) option" where
  "locate (MessageField dt n a) [] = Some (0, dt, n)"
| "locate (MessageField dt n a) (x # p) = None"
| "locate (Message arr tot fin fs) [] = None"
| "locate (Message arr tot fin fs) (x # p) = locate_in 0 fs x p"
| "locate_in pos [] x p = None"
| "locate_in pos ((name, f) # fs) x p =
     (if name = x then map_option (\<lambda>(off, dt, n). (pos + off, dt, n)) (locate f p)
      else locate_in (pos + field_byte_size f) fs x p)"

definition fields_size :: "(string \<times> IMessageField) list \<Rightarrow> nat" where
  "fields_size fs = sum_list (map (\<lambda>(_, f). field_byte_size f) fs)"

lemma fields_size_simps [simp]: "fields_size [] = 0" "fields_size ((x, f) # fs) = field_byte_size f + fields_size fs"
  by (simp_all add: fields_size_def)

text \<open>All fields are built and have elements, and the sizes of messages are those of their fields.\<close>

fun built :: "IMessageField \<Rightarrow> bool" and built_fields :: "(string \<times> IMessageField) list \<Rightarrow> bool" where
  "built (MessageField dt n a) \<longleftrightarrow> 0 < n \<and> dt_size dt \<noteq> 0 \<and> (case a of None \<Rightarrow> False | Some arr \<Rightarrow> ma_type arr = dt)"
| "built (Message arr tot fin fs) \<longleftrightarrow> ma_type arr = TYPE_BYTE \<and> tot = fields_size fs \<and> built_fields fs"
| "built_fields [] \<longleftrightarrow> True"
| "built_fields ((x, f) # fs) \<longleftrightarrow> x \<notin> fst ` set fs \<and> built f \<and> built_fields fs"

text \<open>Every array of a message is a part of one block that it does not own, one after the other.\<close>

fun laid_out :: "nat \<Rightarrow> nat \<Rightarrow> IMessageField \<Rightarrow> bool"
  and fields_laid_out :: "nat \<Rightarrow> nat \<Rightarrow> (string \<times> IMessageField) list \<Rightarrow> bool" where
  "laid_out b off (MessageField dt n a) \<longleftrightarrow> (case a of None \<Rightarrow> False | Some arr \<Rightarrow>
     ma_ptr arr = Some (b, off) \<and> ma_type arr = dt \<and> ma_size arr = n)"
| "laid_out b off (Message arr tot fin fs) \<longleftrightarrow>
     ma_ptr arr = Some (b, off) \<and> ma_type arr = TYPE_BYTE \<and> ma_size arr = tot \<and> fields_laid_out b off fs"
| "fields_laid_out b off [] \<longleftrightarrow> True"
| "fields_laid_out b off ((x, f) # fs) \<longleftrightarrow> laid_out b off f \<and> fields_laid_out b (off + field_byte_size f) fs"

lemma locate_field: "locate (MessageField dt n a) p = (if p = [] then Some (0, dt, n) else None)"
  by (cases p) auto

lemma locate_bound:
  "locate f p = Some (off, dt, n) \<Longrightarrow> built f \<Longrightarrow> off + n * dt_size dt \<le> field_byte_size f"
  "locate_in pos fs x p = Some (off, dt, n) \<Longrightarrow> built_fields fs \<Longrightarrow> pos \<le> off \<and> off + n * dt_size dt \<le> pos + fields_size fs"
proof (induction f p and pos fs x p arbitrary: off and off rule: locate_locate_in.induct)
  case (6 pos name f fs x p)
  show ?case
  proof (cases "name = x")
    case True
    then obtain o' where o: "locate f p = Some (o', dt, n)" "off = pos + o'"
      using 6 by (auto split: option.splits)
    show ?thesis
      using 6(1) [OF True o(1)] 6(4) o(2) by simp
  next
    case False
    then show ?thesis
      using 6 by fastforce
  qed
qed auto

lemma locate_type:
  "locate f p = Some (off, dt, n) \<Longrightarrow> built f \<Longrightarrow> dt_size dt \<noteq> 0"
  "locate_in pos fs x p = Some (off, dt, n) \<Longrightarrow> built_fields fs \<Longrightarrow> dt_size dt \<noteq> 0"
  by (induction f p and pos fs x p arbitrary: off and off rule: locate_locate_in.induct)
    (auto split: if_splits option.splits)

lemma locate_disjoint:
  "locate f p = Some (off, dt, n) \<Longrightarrow> locate f q = Some (off', dt', n') \<Longrightarrow> built f \<Longrightarrow> p \<noteq> q \<Longrightarrow>
   off + n * dt_size dt \<le> off' \<or> off' + n' * dt_size dt' \<le> off"
  "locate_in pos fs x p = Some (off, dt, n) \<Longrightarrow> locate_in pos fs y q = Some (off', dt', n') \<Longrightarrow> built_fields fs \<Longrightarrow>
   (x, p) \<noteq> (y, q) \<Longrightarrow> off + n * dt_size dt \<le> off' \<or> off' + n' * dt_size dt' \<le> off"
proof (induction f p and pos fs x p arbitrary: off q off' and off y q off' rule: locate_locate_in.induct)
  case (4 arr tot fin fs x p)
  then show ?case by (cases q) auto
next
  case (6 pos name f fs x p)
  note b = \<open>built_fields ((name, f) # fs)\<close>
  consider "name = x" "name = y" | "name = x" "name \<noteq> y" | "name \<noteq> x" "name = y" | "name \<noteq> x" "name \<noteq> y"
    by blast
  then show ?case
  proof cases
    case 1
    then obtain a a' where o: "locate f p = Some (a, dt, n)" "locate f q = Some (a', dt', n')" "off = pos + a" "off' = pos + a'"
      using 6(3,4) by (auto split: option.splits)
    show ?thesis
      using 6(1) [OF 1(1) o(1,2)] 6(6) b 1 o(3,4) by simp
  next
    case 2
    then obtain a where o: "locate f p = Some (a, dt, n)" "off = pos + a"
      using 6(3) by (auto split: option.splits)
    moreover have "locate_in (pos + field_byte_size f) fs y q = Some (off', dt', n')"
      using 6(4) 2 by simp
    ultimately show ?thesis
      using locate_bound(1) [OF o(1)] locate_bound(2) b by fastforce
  next
    case 3
    then obtain a where o: "locate f q = Some (a, dt', n')" "off' = pos + a"
      using 6(4) by (auto split: option.splits)
    moreover have "locate_in (pos + field_byte_size f) fs x p = Some (off, dt, n)"
      using 6(3) 3 by simp
    ultimately show ?thesis
      using locate_bound(1) [OF o(1)] locate_bound(2) b by fastforce
  next
    case 4
    then show ?thesis
      using 6(2) [OF 4(1)] 6(3-6) by simp
  qed
next
  case (1 dt n a)
  then show ?case by (cases q) auto
qed auto

lemma locate_leaf:
  "locate f p = Some (off, dt, n) \<Longrightarrow> laid_out b pos f \<Longrightarrow>
   \<exists>a. field_at f p = Some (MessageField dt n (Some a)) \<and> ma_ptr a = Some (b, pos + off) \<and> ma_type a = dt \<and> ma_size a = n"
  "locate_in k fs x p = Some (off, dt, n) \<Longrightarrow> fields_laid_out b (pos + k) fs \<Longrightarrow>
   \<exists>g a. map_of fs x = Some g \<and> field_at g p = Some (MessageField dt n (Some a)) \<and> ma_ptr a = Some (b, pos + off)
     \<and> ma_type a = dt \<and> ma_size a = n"
proof (induction f p and k fs x p arbitrary: off pos and off pos rule: locate_locate_in.induct)
  case (4 arr tot fin fs x p)
  then show ?case by (fastforce split: option.splits)
next
  case (6 k name f fs x p)
  show ?case
  proof (cases "name = x")
    case True
    then obtain a where o: "locate f p = Some (a, dt, n)" "off = k + a"
      using 6(3) by (auto split: option.splits)
    show ?thesis
      using 6(1) [OF True o(1), of "pos + k"] 6(4) True o(2) by (simp add: add.assoc)
  next
    case False
    then show ?thesis
      using 6(2) [OF False, of off pos] 6(3,4) by (simp add: add.assoc)
  qed
qed (auto split: option.splits)


text \<open>The arrays of a field and the blocks they own.\<close>

fun arrays :: "IMessageField \<Rightarrow> MArray list" and arrays_of :: "(string \<times> IMessageField) list \<Rightarrow> MArray list" where
  "arrays (MessageField dt n a) = (case a of None \<Rightarrow> [] | Some arr \<Rightarrow> [arr])"
| "arrays (Message arr tot fin fs) = arr # arrays_of fs"
| "arrays_of [] = []"
| "arrays_of ((x, f) # fs) = arrays f @ arrays_of fs"

definition owned_block :: "MArray \<Rightarrow> nat list" where
  "owned_block a = (case ma_ptr a of None \<Rightarrow> [] | Some (b, _) \<Rightarrow> if ma_owner a then [b] else [])"

definition owned_blocks :: "MArray list \<Rightarrow> nat list" where
  "owned_blocks as = concat (map owned_block as)"

definition freed :: "nat list \<Rightarrow> mem \<Rightarrow> mem" where
  "freed bs m = foldl (\<lambda>m b. m[b := None]) m bs"

text \<open>No array points into block \<open>nb\<close>; the blocks that are owned are owned once and not freed.\<close>

definition may_move :: "nat \<Rightarrow> mem \<Rightarrow> MArray list \<Rightarrow> bool" where
  "may_move nb m as \<longleftrightarrow> (\<forall>a \<in> set as. case ma_ptr a of None \<Rightarrow> True | Some (b, _) \<Rightarrow> b \<noteq> nb) \<and>
     distinct (owned_blocks as) \<and> (\<forall>b \<in> set (owned_blocks as). block m b \<noteq> None)"

lemma owned_blocks_simps [simp]:
  "owned_blocks [] = []" "owned_blocks (a # as) = owned_block a @ owned_blocks as"
  "owned_blocks (as @ as') = owned_blocks as @ owned_blocks as'"
  by (simp_all add: owned_blocks_def)

lemma freed_simps [simp]: "freed [] m = m" "freed (bs @ cs) m = freed cs (freed bs m)" "length (freed bs m) = length m"
proof -
  show "length (freed bs m) = length m"
    unfolding freed_def by (induction bs arbitrary: m) auto
qed (simp_all add: freed_def)

lemma freed_one: "freed [b] m = m[b := None]"
  by (simp add: freed_def)

lemma block_freed: "b \<notin> set bs \<Longrightarrow> block (freed bs m) b = block m b"
  unfolding freed_def by (induction bs arbitrary: m) (auto simp: block_def)

lemma owned_not_moved: "may_move nb m as \<Longrightarrow> nb \<notin> set (owned_blocks as)"
proof -
  assume "may_move nb m as"
  then have "nb \<notin> set (owned_block a)" if "a \<in> set as" for a
    using that by (cases "ma_ptr a") (auto simp: may_move_def owned_block_def)
  then show ?thesis
    by (auto simp: owned_blocks_def)
qed

lemma may_move_append:
  assumes "may_move nb m (as @ as')"
  shows "may_move nb m as" "may_move nb (freed (owned_blocks as) m) as'"
proof -
  show "may_move nb m as"
    using assms by (auto simp: may_move_def)
  have "block (freed (owned_blocks as) m) b \<noteq> None" if "b \<in> set (owned_blocks as')" for b
  proof -
    have "b \<notin> set (owned_blocks as)" "block m b \<noteq> None"
      using that assms by (auto simp: may_move_def)
    then show ?thesis
      by (simp add: block_freed)
  qed
  then show "may_move nb (freed (owned_blocks as) m) as'"
    using assms by (auto simp: may_move_def)
qed

lemmas may_move_Cons = may_move_append [where as = "[a]" for a, simplified]

lemma assign_array:
  assumes "may_move nb m [a]" and "n mod data_size a = 0"
  shows "ma_assign_bytes (Some (nb, off)) n m a = Val (True, freed (owned_block a) m,
     \<lparr> ma_type = ma_type a, ma_ptr = Some (nb, off), ma_size = n div data_size a,
       ma_capacity = n div data_size a, ma_owner = False \<rparr>)"
  using assms
  by (auto simp: may_move_def ma_assign_bytes_def ma_delete_buffer_def new_MArray_def mem_free_def owned_block_def
      owned_blocks_def data_size_def freed_one split: option.splits)

lemma ptr_add_inside: "block m b = Some xs \<Longrightarrow> off + k \<le> length xs \<Longrightarrow> ptr_add m (Some (b, off)) k = Val (Some (b, off + k))"
  by (simp add: ptr_add_def)

lemma assign_buffer_ok:
  "built f \<Longrightarrow> p = Some (nb, off) \<Longrightarrow> may_move nb m (arrays f) \<Longrightarrow> block m nb = Some xs \<Longrightarrow> off + field_byte_size f \<le> length xs \<Longrightarrow>
   \<exists>f'. field_assign_buffer p m f = Val (True, freed (owned_blocks (arrays f)) m, f') \<and> laid_out nb off f'
     \<and> (\<forall>q. locate f' q = locate f q) \<and> field_byte_size f' = field_byte_size f \<and> built f'"
  "built_fields fs \<Longrightarrow> p = Some (nb, off) \<Longrightarrow> may_move nb m (arrays_of fs) \<Longrightarrow> block m nb = Some xs \<Longrightarrow>
   off + pos + fields_size fs \<le> length xs \<Longrightarrow> pos + fields_size fs \<le> tot \<Longrightarrow>
   \<exists>fs'. assign_fields p pos tot m fs = Val (True, freed (owned_blocks (arrays_of fs)) m, fs') \<and> fields_laid_out nb (off + pos) fs'
     \<and> (\<forall>k x q. locate_in k fs' x q = locate_in k fs x q) \<and> fields_size fs' = fields_size fs \<and> built_fields fs' \<and> map fst fs' = map fst fs"
proof (induction p m f and p pos tot m fs arbitrary: off and off rule: field_assign_buffer_assign_fields.induct)
  case (1 p m dt n a)
  then obtain arr where a: "a = Some arr" "ma_type arr = dt" "0 < n" "dt_size dt \<noteq> 0"
    by (auto split: option.splits)
  then have "dt \<noteq> TYPE_NONE"
    by auto
  then show ?case
    using 1 a assign_array [of nb m arr "n * dt_size dt" off]
    by (auto simp: data_size_def locate_field)
next
  case (2 p m arr tot fin fs)
  have arr: "ma_type arr = TYPE_BYTE" "tot = fields_size fs" "built_fields fs"
    using 2 by auto
  note mv = may_move_Cons [OF 2(4) [simplified]]
  note step = assign_array [OF mv(1), of tot off]
  let ?m = "freed (owned_block arr) m"
  let ?a = "\<lparr> ma_type = TYPE_BYTE, ma_ptr = Some (nb, off), ma_size = tot, ma_capacity = tot, ma_owner = False \<rparr>"
  have s: "ma_assign_bytes p tot m arr = Val (True, ?m, ?a)"
    using step arr 2(3) by (simp add: data_size_def)
  have blk: "block ?m nb = Some xs"
    using 2(5) owned_not_moved [OF mv(1)] block_freed [of nb "owned_block arr" m] by simp
  obtain fs' where "assign_fields (Some (nb, off)) 0 tot ?m fs = Val (True, freed (owned_blocks (arrays_of fs)) ?m, fs')"
     "fields_laid_out nb off fs'" "\<forall>k x q. locate_in k fs' x q = locate_in k fs x q" "fields_size fs' = fields_size fs"
     "built_fields fs'" "map fst fs' = map fst fs"
    using 2(1) [of True ?a off ?m] arr mv(2) blk 2(6) by auto
  moreover from this have "locate (Message ?a tot fin fs') q = locate (Message arr tot fin fs) q" for q
    by (cases q) auto
  ultimately show ?case
    using s arr by auto
next
  case (4 p pos tot m x f fs)
  have b: "built f" "built_fields fs" "x \<notin> fst ` set fs"
    using 4 by auto
  note mv = may_move_append [OF 4(5) [simplified]]
  let ?m = "freed (owned_blocks (arrays f)) m"
  have q: "ptr_add m p pos = Val (Some (nb, off + pos))"
    using 4 by (simp add: ptr_add_inside)
  obtain f' where f': "field_assign_buffer (Some (nb, off + pos)) m f = Val (True, ?m, f')"
     "laid_out nb (off + pos) f'" "\<forall>q. locate f' q = locate f q" "field_byte_size f' = field_byte_size f" "built f'"
    using 4(1) [of "Some (nb, off + pos)" "off + pos"] b mv(1) 4(6,7) q by (auto simp: add.assoc)
  have blk: "block ?m nb = Some xs"
    using 4(6) owned_not_moved [OF mv(1)] block_freed by metis
  obtain fs' where fs': "assign_fields p (pos + field_byte_size f) tot ?m fs = Val (True, freed (owned_blocks (arrays_of fs)) ?m, fs')"
     "fields_laid_out nb (off + (pos + field_byte_size f)) fs'" "\<forall>k x q. locate_in k fs' x q = locate_in k fs x q" "fields_size fs' = fields_size fs"
     "built_fields fs'" "map fst fs' = map fst fs"
    using 4(2) [of True off ?m] b mv(2) blk 4(4,7,8) by (auto simp: add.assoc)
  have "x \<notin> fst ` set fs'"
    using b(3) fs'(6) by (metis set_map)
  then show ?case
    using q f' fs' 4(8) by (auto simp: add.assoc)
qed auto


lemma finish_ok:
  assumes "built (Message arr tot False fs)" "ma_ptr arr = None" "ma_capacity arr = 0"
    and "may_move (length m) m (arrays_of fs)" "alloc tot"
  shows "\<exists>g. field_finish mult alloc m (Message arr tot False fs)
      = Val (True, freed (owned_blocks (arrays_of fs)) (m @ [Some (replicate tot 0)]), g)
    \<and> laid_out (length m) 0 g \<and> (\<forall>q. locate g q = locate (Message arr tot False fs) q) \<and> built g
    \<and> is_finished g \<and> field_byte_size g = tot"
proof -
  let ?m = "m @ [Some (replicate tot 0)]"
  let ?arr = "arr\<lparr> ma_ptr := Some (length m, 0), ma_size := tot, ma_capacity := tot, ma_owner := True \<rparr>"
  have arr: "ma_type arr = TYPE_BYTE" "tot = fields_size fs" "built_fields fs"
    using assms(1) by auto
  have r: "ma_resize mult alloc tot m arr = Val (True, ?m, ?arr)"
    using arr assms by (simp add: ma_resize_def ma_reserve_def new_capacity_def data_size_def mem_load_def)
  have mv: "may_move (length m) ?m (arrays_of fs)"
    using assms(4) by (auto simp: may_move_def block_def nth_append split: if_splits)
  have blk: "block ?m (length m) = Some (replicate tot 0)"
    by (simp add: block_def)
  obtain fs' where "assign_fields (Some (length m, 0)) 0 tot ?m fs = Val (True, freed (owned_blocks (arrays_of fs)) ?m, fs')"
     "fields_laid_out (length m) 0 fs'" "\<forall>k x q. locate_in k fs' x q = locate_in k fs x q" "fields_size fs' = fields_size fs"
     "built_fields fs'"
    using assign_buffer_ok(2) [OF arr(3) refl mv blk, of 0 0 tot] arr by auto
  moreover from this have "locate (Message ?arr tot True fs') q = locate (Message arr tot False fs) q" for q
    by (cases q) auto
  ultimately show ?thesis
    using r arr by (auto simp: ma_assign_bytes_def data_size_def)
qed

section \<open>Cells\<close>

definition put_bytes :: "nat \<Rightarrow> u8 list \<Rightarrow> u8 list \<Rightarrow> u8 list" where
  "put_bytes k v xs = take k xs @ v @ drop (k + length v) xs"

definition get_bytes :: "nat \<Rightarrow> nat \<Rightarrow> u8 list \<Rightarrow> u8 list" where
  "get_bytes k n xs = take n (drop k xs)"

lemma length_put_bytes: "k + length v \<le> length xs \<Longrightarrow> length (put_bytes k v xs) = length xs"
  by (simp add: put_bytes_def)

lemma get_put_same: "k + length v \<le> length xs \<Longrightarrow> get_bytes k (length v) (put_bytes k v xs) = v"
  by (simp add: put_bytes_def get_bytes_def)

lemma get_put_other:
  assumes "k + length v \<le> j \<or> j + n \<le> k" and "k + length v \<le> length xs"
  shows "get_bytes j n (put_bytes k v xs) = get_bytes j n xs"
  using assms unfolding put_bytes_def get_bytes_def
  by (intro nth_equalityI) (auto simp: nth_append)

lemma resolve_inside: "k + d \<le> n \<Longrightarrow> 0 < d \<Longrightarrow> resolve (slice_from_size k d) n = \<lparr> rg_from = k, rg_to = k + d \<rparr>"
  by (auto simp: resolve_def slice_from_size_def clamp_def Let_def)

lemma resolve_all: "0 < n \<Longrightarrow> resolve \<lparr> sl_from = 0, sl_to = -1 \<rparr> n = \<lparr> rg_from = 0, rg_to = n \<rparr>"
  by (auto simp: resolve_def clamp_def Let_def)

lemma cell_bound: "i < n \<Longrightarrow> i * d + d \<le> n * (d::nat)"
  using mult_le_mono1 [of "Suc i" n d] by simp

lemma resolve_cell: "i < n \<Longrightarrow> 0 < d \<Longrightarrow> resolve (slice_from_size (i * d) d) (n * d) = \<lparr> rg_from = i * d, rg_to = i * d + d \<rparr>"
  by (intro resolve_inside cell_bound)

lemma cell_read:
  assumes "ma_ptr a = Some (b, off)" "block m b = Some xs" "off + ma_size a * data_size a \<le> length xs"
    and "i < ma_size a" "0 < data_size a"
  shows "array_read (data_size a) i m a = Val (get_bytes (off + i * data_size a) (data_size a) xs)"
  using assms cell_bound [of i "ma_size a" "data_size a"] resolve_cell [of i "ma_size a" "data_size a"]
  by (simp add: array_read_def ma_copy_to_bytes_def ma_byte_size_def range_empty_def range_size_def ptr_add_inside
      mem_load_def get_bytes_def)

lemma cell_write:
  assumes "ma_ptr a = Some (b, off)" "block m b = Some xs" "off + ma_size a * data_size a \<le> length xs"
    and "i < ma_size a" "0 < data_size a" "length v = data_size a"
  shows "array_write v i m a = Val (True, m[b := Some (put_bytes (off + i * data_size a) v xs)])"
  using assms cell_bound [of i "ma_size a" "data_size a"] resolve_cell [of i "ma_size a" "data_size a"]
  by (auto simp: array_write_def ma_copy_from_bytes_def ma_byte_size_def range_empty_def ptr_add_inside mem_store_def
      write_cells_def put_bytes_def)

lemma field_at_snoc:
  "p \<noteq> [] \<Longrightarrow> field_at f p = Some (MessageField dt n a) \<Longrightarrow>
   \<exists>arr tot fin fs. field_at f (butlast p) = Some (Message arr tot fin fs) \<and> map_of fs (last p) = Some (MessageField dt n a)"
proof (induction f p rule: field_at.induct)
  case (3 arr tot fin fs x p)
  then show ?case
    by (cases p) (auto split: option.splits)
qed auto

lemma path_access:
  assumes "laid_out b 0 f" "locate f p = Some (off, dt, n)" "p \<noteq> []" "built f" "block m b = Some xs"
    and "field_byte_size f \<le> length xs" "i < n"
  shows "path_get (dt_size dt) m f p i = Val (get_bytes (off + i * dt_size dt) (dt_size dt) xs)"
    and "length v = dt_size dt \<Longrightarrow> path_set m f p v i = Val (True, m[b := Some (put_bytes (off + i * dt_size dt) v xs)])"
proof -
  obtain a where a: "field_at f p = Some (MessageField dt n (Some a))" "ma_ptr a = Some (b, off)" "ma_type a = dt" "ma_size a = n"
    using locate_leaf(1) [OF assms(2,1)] by auto
  obtain arr tot fin fs where s: "field_at f (butlast p) = Some (Message arr tot fin fs)" "map_of fs (last p) = Some (MessageField dt n (Some a))"
    using field_at_snoc [OF assms(3) a(1)] by auto
  have le: "off + n * dt_size dt \<le> length xs"
    using locate_bound(1) [OF assms(2,4)] assms(6) by simp
  have pos: "0 < dt_size dt"
    using locate_type(1) [OF assms(2,4)] by simp
  show "path_get (dt_size dt) m f p i = Val (get_bytes (off + i * dt_size dt) (dt_size dt) xs)"
    using cell_read [OF a(2) assms(5)] s a le pos assms(7) by (simp add: path_get_def data_size_def)
  show "path_set m f p v i = Val (True, m[b := Some (put_bytes (off + i * dt_size dt) v xs)])" if "length v = dt_size dt"
    using cell_write [OF a(2) assms(5)] s a le pos assms(7) that by (simp add: path_set_def data_size_def)
qed


lemma block_update: "block m b = Some xs \<Longrightarrow> block (m[b := Some ys]) b = Some ys"
  by (simp add: block_def split: if_splits)

section \<open>Histories of accesses\<close>

text \<open>Writes given by path, value and index, and the value that is in a cell after them.\<close>

fun set_all :: "mem \<Rightarrow> IMessageField \<Rightarrow> (string list \<times> u8 list \<times> nat) list \<Rightarrow> (bool \<times> mem) cxx" where
  "set_all m f [] = Val (True, m)"
| "set_all m f ((p, v, i) # ws) = cxx_bind (path_set m f p v i) (\<lambda>(ok, m).
     if ok then set_all m f ws else Val (False, m))"

definition typed_write :: "IMessageField \<Rightarrow> string list \<times> u8 list \<times> nat \<Rightarrow> bool" where
  "typed_write f w = (case w of (p, v, i) \<Rightarrow> (case locate f p of
     None \<Rightarrow> False | Some (off, dt, n) \<Rightarrow> length v = dt_size dt \<and> i < n))"

definition last_value :: "u8 list \<Rightarrow> (string list \<times> u8 list \<times> nat) list \<Rightarrow> string list \<Rightarrow> nat \<Rightarrow> u8 list" where
  "last_value z ws p i = foldl (\<lambda>x (q, v, j). if q = p \<and> j = i then v else x) z ws"

lemma cells_apart:
  assumes "locate f p = Some (off, dt, n)" "locate f q = Some (off', dt', n')" "built f" "i < n" "j < n'" "\<not> (q = p \<and> j = i)"
  shows "off' + j * dt_size dt' + dt_size dt' \<le> off + i * dt_size dt \<or> off + i * dt_size dt + dt_size dt \<le> off' + j * dt_size dt'"
proof (cases "q = p")
  case True
  then have "j < i \<or> i < j" "dt' = dt" "off' = off"
    using assms by auto
  then show ?thesis
    using cell_bound [of j i "dt_size dt"] cell_bound [of i j "dt_size dt"] by auto
next
  case False
  then show ?thesis
    using locate_disjoint(1) [OF assms(1,2,3)] cell_bound [OF assms(4), of "dt_size dt"] cell_bound [OF assms(5), of "dt_size dt'"]
    by auto
qed

lemma set_all_ok:
  assumes "laid_out b 0 f" "built f" "\<forall>w \<in> set ws. typed_write f w" "\<not> (locate f [] \<noteq> None)"
  shows "block m b = Some xs \<Longrightarrow> field_byte_size f \<le> length xs \<Longrightarrow>
    \<exists>m' xs'. set_all m f ws = Val (True, m') \<and> block m' b = Some xs' \<and> length xs' = length xs \<and>
      (\<forall>p off dt n i. locate f p = Some (off, dt, n) \<longrightarrow> i < n \<longrightarrow>
         get_bytes (off + i * dt_size dt) (dt_size dt) xs' = last_value (get_bytes (off + i * dt_size dt) (dt_size dt) xs) ws p i)"
  using assms(3)
proof (induction ws arbitrary: m xs)
  case Nil
  then show ?case by (simp add: last_value_def)
next
  case (Cons w ws)
  obtain q v j where w: "w = (q, v, j)"
    by (cases w) auto
  obtain off' dt' n' where q: "locate f q = Some (off', dt', n')" "length v = dt_size dt'" "j < n'"
    using Cons(4) w by (auto simp: typed_write_def split: option.splits prod.splits)
  have "q \<noteq> []"
    using assms(4) q by auto
  note st = path_access(2) [OF assms(1) q(1) this assms(2) Cons(2,3) q(3,2)]
  let ?xs = "put_bytes (off' + j * dt_size dt') v xs"
  have fits: "off' + j * dt_size dt' + length v \<le> length xs"
    using locate_bound(1) [OF q(1) assms(2)] cell_bound [OF q(3), of "dt_size dt'"] q(2) Cons(3) by simp
  have len: "length ?xs = length xs"
    using fits by (rule length_put_bytes)
  have upd: "get_bytes (off + i * dt_size dt) (dt_size dt) ?xs
      = (if q = p \<and> j = i then v else get_bytes (off + i * dt_size dt) (dt_size dt) xs)"
    if "locate f p = Some (off, dt, n)" "i < n" for p off dt n i
    using cells_apart [OF that(1) q(1) assms(2) that(2) q(3)] get_put_other [OF _ fits, of "off + i * dt_size dt" "dt_size dt"]
      get_put_same [OF fits] q that by auto
  obtain m' xs' where "set_all (m[b := Some ?xs]) f ws = Val (True, m')" "block m' b = Some xs'" "length xs' = length xs"
    "\<forall>p off dt n i. locate f p = Some (off, dt, n) \<longrightarrow> i < n \<longrightarrow>
       get_bytes (off + i * dt_size dt) (dt_size dt) xs' = last_value (get_bytes (off + i * dt_size dt) (dt_size dt) ?xs) ws p i"
    using Cons(1) [OF block_update [OF Cons(2)], of ?xs] Cons(3,4) len by auto
  then show ?case
    using st w upd by (auto simp: last_value_def)
qed

text \<open>A message before \<open>finish\<close>, whose fields are built and own what they own alone.\<close>

fun ready :: "mem \<Rightarrow> IMessageField \<Rightarrow> bool" where
  "ready m (Message arr tot fin fs) \<longleftrightarrow> built (Message arr tot fin fs) \<and> \<not> fin \<and> ma_ptr arr = None \<and> ma_capacity arr = 0
     \<and> may_move (length m) m (arrays_of fs)"
| "ready m (MessageField dt n a) \<longleftrightarrow> False"

lemma to_bytes_laid_out:
  assumes "laid_out b 0 (Message arr tot fin fs)" "block m b = Some xs" "length xs = tot"
  shows "message_to_bytes m (Message arr tot fin fs) = Val xs"
  using assms by (auto simp: message_to_bytes_def mem_load_def)

text \<open>C11. A message whose fields are built becomes, by \<open>finish\<close>, a store of typed cells: after any
sequence of writes of values of the right type, through messages inside it as well, each cell holds the last
value that was written to it, or zeroes, and no write has an effect on another cell; the cell lies in the
bytes of the message at the offset that the fields before it determine.\<close>

theorem message_typed_access:
  assumes "ready m f" and "alloc (field_byte_size f)"
    and "\<forall>w \<in> set ws. typed_write f w" and "locate f p = Some (off, dt, n)" and "i < n"
  shows "\<exists>m1 g m2 bs. field_finish mult alloc m f = Val (True, m1, g) \<and> set_all m1 g ws = Val (True, m2) \<and>
    path_get (dt_size dt) m2 g p i = Val (last_value (replicate (dt_size dt) 0) ws p i) \<and>
    message_to_bytes m2 g = Val bs \<and> length bs = field_byte_size f \<and>
    get_bytes (off + i * dt_size dt) (dt_size dt) bs = last_value (replicate (dt_size dt) 0) ws p i"
proof -
  obtain arr tot fs where f: "f = Message arr tot False fs"
    using assms(1) by (cases f) auto
  then have r: "built f" "ma_ptr arr = None" "ma_capacity arr = 0" "may_move (length m) m (arrays_of fs)"
    using assms(1) by auto
  let ?b = "length m"
  let ?m1 = "freed (owned_blocks (arrays_of fs)) (m @ [Some (replicate tot 0)])"
  obtain g where g: "field_finish mult alloc m f = Val (True, ?m1, g)" "laid_out ?b 0 g" "\<And>q. locate g q = locate f q"
      "built g" "field_byte_size g = tot"
    using finish_ok [of arr tot fs m alloc mult] r assms(2) f by auto
  have blk: "block ?m1 ?b = Some (replicate tot 0)"
    using owned_not_moved [OF r(4)] by (simp add: block_freed) (simp add: block_def)
  have tw: "\<forall>w \<in> set ws. typed_write g w"
    using assms(3) g(3) by (simp add: typed_write_def)
  have noroot: "\<not> (locate g [] \<noteq> None)"
    using g(3) f by simp
  obtain m2 xs where s: "set_all ?m1 g ws = Val (True, m2)" "block m2 ?b = Some xs" "length xs = tot"
     "get_bytes (off + i * dt_size dt) (dt_size dt) xs = last_value (get_bytes (off + i * dt_size dt) (dt_size dt) (replicate tot 0)) ws p i"
    using set_all_ok [OF g(2,4) tw noroot blk] g(3,5) assms(4,5) by auto
  have "off + i * dt_size dt + dt_size dt \<le> tot"
    using locate_bound(1) [OF assms(4) r(1)] cell_bound [OF assms(5), of "dt_size dt"] f by simp
  then have z: "get_bytes (off + i * dt_size dt) (dt_size dt) (replicate tot 0) = replicate (dt_size dt) 0"
    by (simp add: get_bytes_def)
  have ne: "p \<noteq> []"
    using assms(4) f by auto
  obtain garr fin gs where gm: "g = Message garr tot fin gs"
    using g(3) [of "[]"] g(5) f by (cases g) (auto simp: locate_field)
  have get: "path_get (dt_size dt) m2 g p i = Val (get_bytes (off + i * dt_size dt) (dt_size dt) xs)"
    using path_access(1) [OF g(2) _ ne g(4) s(2) _ assms(5)] g(3,5) s(3) assms(4) by simp
  have "message_to_bytes m2 g = Val xs"
    using to_bytes_laid_out s(2,3) g(2) gm by blast
  then show ?thesis
    using g(1) s get z f by auto
qed


text \<open>A message that is read back from its bytes has them again.\<close>

lemma message_bytes_roundtrip:
  assumes "laid_out b 0 (Message arr tot fin fs)" "block m b = Some xs" "length xs = tot" "length bs = tot" "0 < tot"
  shows "\<exists>m'. message_from_bytes bs m (Message arr tot fin fs) = Val (True, m') \<and> message_to_bytes m' (Message arr tot fin fs) = Val bs"
proof -
  have "message_from_bytes bs m (Message arr tot fin fs) = Val (True, m[b := Some bs])"
    using assms by (auto simp: message_from_bytes_def ma_copy_from_bytes_def ma_byte_size_def data_size_def resolve_all
        range_empty_def ptr_add_def mem_store_def write_cells_def)
  then show ?thesis
    using to_bytes_laid_out [OF assms(1) block_update [OF assms(2)] assms(4)] by blast
qed

section \<open>Examples\<close>

definition point :: IMessageField where
  "point = snd (add_typed_field ''y'' TYPE_INT 1 (snd (add_typed_field ''x'' TYPE_SHORT 2 new_Message)))"

text \<open>A finished copy of \<open>point\<close> in a message with two more fields.\<close>

definition point_built :: "mem \<times> IMessageField" where
  "point_built = (case field_finish 2 (\<lambda>_. True) [] point of Val (_, m, f) \<Rightarrow> (m, f) | _ \<Rightarrow> ([], new_Message))"

definition shape :: IMessageField where
  "shape = snd (add_typed_field ''d'' TYPE_DOUBLE 1
     (snd (add_field ''at'' (snd point_built) (snd (add_typed_field ''on'' TYPE_BOOL 1 new_Message)))))"

lemma shape_ready: "ready (fst point_built) shape"
  by code_simp

lemma message_typed_access_witness:
  "\<exists>m1 g m2 bs. field_finish 2 (\<lambda>_. True) (fst point_built) shape = Val (True, m1, g) \<and>
    set_all m1 g [([''at'', ''x''], [1, 2], 1), ([''on''], [1], 0), ([''at'', ''y''], [9, 9, 9, 9], 0)] = Val (True, m2) \<and>
    path_get 2 m2 g [''at'', ''x''] 1 = Val [1, 2] \<and>
    message_to_bytes m2 g = Val bs \<and> length bs = 17 \<and> get_bytes 3 2 bs = [1, 2]"
proof -
  have w: "\<forall>w \<in> set [([''at'', ''x''], [1, 2], 1), ([''on''], [1], 0), ([''at'', ''y''], [9, 9, 9, 9], 0)]. typed_write shape w"
    by code_simp
  have l: "locate shape [''at'', ''x''] = Some (1, TYPE_SHORT, 2)"
    by code_simp
  have n: "field_byte_size shape = 17"
    by code_simp
  show ?thesis
    using message_typed_access [where alloc = "\<lambda>_. True" and mult = 2, OF shape_ready _ w l, of 1]
    by (simp add: n last_value_def numeral_3_eq_3 del: set_all.simps)
qed

text \<open>
  A value that does not fit behind its index is read in part: the rest of the result is
  uninitialised, and no exception is thrown.
\<close>

lemma read_past_the_end:
  "block m b = Some [1, 2] \<Longrightarrow>
   array_read 4 0 m \<lparr> ma_type = TYPE_SHORT, ma_ptr = Some (b, 0), ma_size = 1, ma_capacity = 1, ma_owner = True \<rparr> = Undef"
  by (simp add: array_read_def ma_copy_to_bytes_def ma_byte_size_def data_size_def resolve_def slice_from_size_def
      clamp_def range_empty_def range_size_def ptr_add_def mem_load_def Let_def)

text \<open>A message that is copied before \<open>finish\<close> loses the sizes of its fields, and its copy cannot be finished.\<close>

lemma clone_before_finish:
  "field_clone 2 (\<lambda>_. True) [] point = Val ([], Some (Message (new_MArray TYPE_BYTE) 0 False
     [(''x'', MessageField TYPE_SHORT 0 (Some (new_MArray TYPE_SHORT))), (''y'', MessageField TYPE_INT 0 (Some (new_MArray TYPE_INT)))]))"
  "field_finish 2 (\<lambda>_. True) [] (Message (new_MArray TYPE_BYTE) 0 False
     [(''x'', MessageField TYPE_SHORT 0 (Some (new_MArray TYPE_SHORT))), (''y'', MessageField TYPE_INT 0 (Some (new_MArray TYPE_INT)))])
   = Val (False, [Some []], Message \<lparr> ma_type = TYPE_BYTE, ma_ptr = Some (0, 0), ma_size = 0, ma_capacity = 0, ma_owner = True \<rparr> 0 False
     [(''x'', MessageField TYPE_SHORT 0 (Some (new_MArray TYPE_SHORT))), (''y'', MessageField TYPE_INT 0 (Some (new_MArray TYPE_INT)))])"
  by code_simp+

text \<open>A field whose type has no size is refused but stays, and the message cannot be finished.\<close>

lemma refused_field_stays:
  "add_typed_field ''o'' TYPE_OBJECT 1 new_Message = (False, Message (new_MArray TYPE_BYTE) 0 False [(''o'', MessageField TYPE_OBJECT 1 None)])"
  by code_simp

text \<open>The size of a field that is removed still counts.\<close>

lemma removed_field_counts:
  "remove_field ''y'' [] point = Val (True, [], Message (new_MArray TYPE_BYTE) 8 False [(''x'', MessageField TYPE_SHORT 2 (Some (new_MArray TYPE_SHORT)))])"
  by code_simp

end
