(* ===== verification/Sihd_DynMessage.thy ===== *)
theory Sihd_DynMessage
  imports Sihd_Message
begin

text \<open>
  Messages whose fields are read and written one after the other, some of them hidden
  (util/DynMessage.cpp). A rule is called when its field has been read and may change the message,
  for example hide or resize a later field. What a rule does is the argument \<open>run\<close>; a rule that
  changes the list of fields or of rules while they are walked through is undefined. A message with
  dynamic fields is not itself a field here.
\<close>

section \<open>State\<close>

record 'cb DynMessage =
  dm_fields :: "(string \<times> IMessageField) list"
  dm_total :: nat
  dm_finished :: bool
  dm_hidden :: "string set"
  dm_rules :: "string \<rightharpoonup> (nat \<times> 'cb) list"
  dm_next_rule_id :: nat
  dm_dyn_size :: nat

type_synonym 'cb rule_effect = "'cb \<Rightarrow> string \<Rightarrow> mem \<times> 'cb DynMessage \<Rightarrow> (mem \<times> 'cb DynMessage) cxx"

definition new_DynMessage :: "'cb DynMessage" where
  "new_DynMessage = \<lparr> dm_fields = [], dm_total = 0, dm_finished = False, dm_hidden = {}, dm_rules = Map.empty,
     dm_next_rule_id = 0, dm_dyn_size = 0 \<rparr>"

text \<open>\<open>add_field\<close> is that of \<open>Message\<close>.\<close>

definition dyn_add_field :: "string \<Rightarrow> IMessageField \<Rightarrow> 'cb DynMessage \<Rightarrow> bool \<times> 'cb DynMessage" where
  "dyn_add_field name f d =
     (if name \<in> fst ` set (dm_fields d) then (False, d)
      else (True, d\<lparr> dm_fields := dm_fields d @ [(name, f)], dm_total := dm_total d + field_byte_size f \<rparr>))"

definition dyn_add_rule :: "string \<Rightarrow> 'cb \<Rightarrow> 'cb DynMessage \<Rightarrow> nat option \<times> 'cb DynMessage" where
  "dyn_add_rule name callback d =
     (if name \<notin> fst ` set (dm_fields d) then (None, d)
      else let rid = dm_next_rule_id d in
        (Some rid, d\<lparr> dm_next_rule_id := rid + 1,
           dm_rules := (dm_rules d)(name \<mapsto> (case dm_rules d name of None \<Rightarrow> [] | Some rs \<Rightarrow> rs) @ [(rid, callback)]) \<rparr>))"

definition dyn_remove_rules :: "string \<Rightarrow> 'cb DynMessage \<Rightarrow> bool \<times> 'cb DynMessage" where
  "dyn_remove_rules name d = (dm_rules d name \<noteq> None, d\<lparr> dm_rules := (dm_rules d)(name := None) \<rparr>)"

fun erase_first :: "('a \<Rightarrow> bool) \<Rightarrow> 'a list \<Rightarrow> 'a list option" where
  "erase_first P [] = None"
| "erase_first P (x # xs) = (if P x then Some xs else map_option ((#) x) (erase_first P xs))"

definition dyn_remove_rule :: "string \<Rightarrow> nat \<Rightarrow> 'cb DynMessage \<Rightarrow> bool \<times> 'cb DynMessage" where
  "dyn_remove_rule name rule_id d =
     (case dm_rules d name of
        None \<Rightarrow> (False, d)
      | Some rs \<Rightarrow>
          (case erase_first (\<lambda>e. fst e = rule_id) rs of
             None \<Rightarrow> (False, d)
           | Some rs \<Rightarrow> (True, d\<lparr> dm_rules := (dm_rules d)(name \<mapsto> rs) \<rparr>)))"

definition dyn_reset :: "'cb DynMessage \<Rightarrow> 'cb DynMessage" where
  "dyn_reset d = d\<lparr> dm_dyn_size := 0, dm_hidden := {} \<rparr>"

definition hide_field :: "string \<Rightarrow> bool \<Rightarrow> 'cb DynMessage \<Rightarrow> bool \<times> 'cb DynMessage" where
  "hide_field name active d =
     (if name \<notin> fst ` set (dm_fields d) then (False, d)
      else if active then (name \<notin> dm_hidden d, d\<lparr> dm_hidden := insert name (dm_hidden d) \<rparr>)
      else (name \<in> dm_hidden d, d\<lparr> dm_hidden := dm_hidden d - {name} \<rparr>))"

text \<open>The results of \<open>field_resize\<close> are not looked at.\<close>

fun resize_fields :: "nat \<Rightarrow> (nat \<Rightarrow> bool) \<Rightarrow> mem \<Rightarrow> (string \<times> IMessageField) list \<Rightarrow> (mem \<times> (string \<times> IMessageField) list) cxx" where
  "resize_fields mult alloc m [] = Val (m, [])"
| "resize_fields mult alloc m ((name, f) # fs) =
     cxx_bind (field_resize mult alloc (field_size f) m f) (\<lambda>(_, m, f).
     cxx_bind (resize_fields mult alloc m fs) (\<lambda>(m, fs). Val (m, (name, f) # fs)))"

definition dyn_finish :: "nat \<Rightarrow> (nat \<Rightarrow> bool) \<Rightarrow> mem \<Rightarrow> 'cb DynMessage \<Rightarrow> (bool \<times> mem \<times> 'cb DynMessage) cxx" where
  "dyn_finish mult alloc m d =
     (if dm_finished d then Val (False, m, d)
      else cxx_bind (resize_fields mult alloc m (dm_fields d)) (\<lambda>(m, fs).
        Val (True, m, d\<lparr> dm_fields := fs, dm_finished := True \<rparr>)))"

text \<open>What a rule may do: resize a field of the message.\<close>

definition dyn_resize_field :: "nat \<Rightarrow> (nat \<Rightarrow> bool) \<Rightarrow> string \<Rightarrow> nat \<Rightarrow> mem \<times> 'cb DynMessage \<Rightarrow> (mem \<times> 'cb DynMessage) cxx" where
  "dyn_resize_field mult alloc name n = (\<lambda>(m, d). case map_of (dm_fields d) name of
       None \<Rightarrow> Undef
     | Some f \<Rightarrow> cxx_bind (field_resize mult alloc n m f) (\<lambda>(_, m, f).
         Val (m, d\<lparr> dm_fields := map (\<lambda>(x, g). (x, if x = name then f else g)) (dm_fields d) \<rparr>)))"

section \<open>Reading and writing\<close>

fun play_rules :: "'cb rule_effect \<Rightarrow> (nat \<times> 'cb) list \<Rightarrow> string \<Rightarrow> mem \<times> 'cb DynMessage \<Rightarrow> (mem \<times> 'cb DynMessage) cxx" where
  "play_rules run [] name s = Val s"
| "play_rules run ((rid, callback) # rs) name s =
     cxx_bind (run callback name s) (\<lambda>s'.
       if map fst (dm_fields (snd s')) \<noteq> map fst (dm_fields (snd s)) \<or> dm_rules (snd s') name \<noteq> dm_rules (snd s) name then Undef
       else play_rules run rs name s')"

fun dyn_read_loop :: "'cb rule_effect \<Rightarrow> u8 list \<Rightarrow> string list \<Rightarrow> nat \<Rightarrow> mem \<times> 'cb DynMessage \<Rightarrow> (bool \<times> mem \<times> 'cb DynMessage) cxx" where
  "dyn_read_loop run bs [] current (m, d) = Val (True, m, d)"
| "dyn_read_loop run bs (name # names) current (m, d) =
     (case map_of (dm_fields d) name of
        None \<Rightarrow> Raise OutOfRange
      | Some f \<Rightarrow>
          if name \<in> dm_hidden d then dyn_read_loop run bs names current (m, d)
          else if current + field_byte_size f > length bs then Val (False, m, d)
          else cxx_bind (field_read_from (take (field_byte_size f) (drop current bs)) m f) (\<lambda>(ok, m).
            if \<not> ok then Val (False, m, d)
            else cxx_bind (case dm_rules d name of None \<Rightarrow> Val (m, d) | Some rs \<Rightarrow> play_rules run rs name (m, d)) (\<lambda>(m, d).
              case map_of (dm_fields d) name of
                None \<Rightarrow> Undef
              | Some f \<Rightarrow>
                  let current = current + field_byte_size f in
                  dyn_read_loop run bs names current (m, d\<lparr> dm_dyn_size := current \<rparr>))))"

definition dyn_read_from :: "'cb rule_effect \<Rightarrow> u8 list \<Rightarrow> mem \<Rightarrow> 'cb DynMessage \<Rightarrow> (bool \<times> mem \<times> 'cb DynMessage) cxx" where
  "dyn_read_from run bs m d = dyn_read_loop run bs (map fst (dm_fields d)) 0 (m, d\<lparr> dm_dyn_size := 0 \<rparr>)"

text \<open>\<open>out\<close> is the buffer that is written to, of \<open>n\<close> bytes.\<close>

fun dyn_write_loop :: "nat \<Rightarrow> mem \<Rightarrow> string set \<Rightarrow> (string \<times> IMessageField) list \<Rightarrow> nat \<Rightarrow> u8 list \<Rightarrow> (bool \<times> u8 list) cxx" where
  "dyn_write_loop n m hidden [] current out = Val (True, out)"
| "dyn_write_loop n m hidden ((name, f) # fs) current out =
     (if name \<in> hidden then dyn_write_loop n m hidden fs current out
      else if current + field_byte_size f > n then Val (False, out)
      else cxx_bind (field_write_to (n - current) m f) (\<lambda>(ok, bs).
        if \<not> ok then Val (False, out)
        else dyn_write_loop n m hidden fs (current + field_byte_size f) (put_bytes current bs out)))"

definition dyn_write_to :: "u8 list \<Rightarrow> mem \<Rightarrow> 'cb DynMessage \<Rightarrow> (bool \<times> u8 list) cxx" where
  "dyn_write_to out m d = dyn_write_loop (length out) m (dm_hidden d) (dm_fields d) 0 out"

fun clone_dyn_fields :: "nat \<Rightarrow> (nat \<Rightarrow> bool) \<Rightarrow> 'cb DynMessage \<Rightarrow> mem \<Rightarrow> (string \<times> IMessageField) list \<Rightarrow> 'cb DynMessage
    \<Rightarrow> (mem \<times> bool \<times> 'cb DynMessage) cxx" where
  "clone_dyn_fields mult alloc d m [] cloned = Val (m, True, cloned)"
| "clone_dyn_fields mult alloc d m ((name, f) # fs) cloned =
     cxx_bind (field_clone mult alloc m f) (\<lambda>(m, c). case c of
       None \<Rightarrow> Val (m, False, cloned)
     | Some f' \<Rightarrow>
         let cloned = snd (dyn_add_field name f' cloned);
             cloned = (if name \<in> dm_hidden d then snd (hide_field name True cloned) else cloned) in
         clone_dyn_fields mult alloc d m fs cloned)"

definition dyn_clone :: "nat \<Rightarrow> (nat \<Rightarrow> bool) \<Rightarrow> mem \<Rightarrow> 'cb DynMessage \<Rightarrow> (mem \<times> 'cb DynMessage option) cxx" where
  "dyn_clone mult alloc m d =
     cxx_bind (clone_dyn_fields mult alloc d m (dm_fields d) new_DynMessage) (\<lambda>(m, ok, cloned).
     cxx_bind (if ok \<and> dm_finished d then dyn_finish mult alloc m cloned else Val (ok, m, cloned)) (\<lambda>(ok, m, cloned).
       if ok then Val (m, Some (cloned\<lparr> dm_rules := dm_rules d, dm_next_rule_id := dm_next_rule_id d \<rparr>))
       else cxx_bind (delete_fields (dm_fields cloned) m) (\<lambda>m. Val (m, None))))"

section \<open>What is read can be written\<close>

text \<open>The fields have elements, each in a block of its own.\<close>

fun field_block :: "IMessageField \<Rightarrow> nat option" where
  "field_block (MessageField dt n (Some a)) = map_option fst (ma_ptr a)"
| "field_block _ = None"

fun own_field :: "mem \<Rightarrow> IMessageField \<Rightarrow> bool" where
  "own_field m (MessageField dt n a) \<longleftrightarrow> 0 < n \<and> dt_size dt \<noteq> 0 \<and> (case a of None \<Rightarrow> False | Some a \<Rightarrow>
     ma_type a = dt \<and> ma_size a = n \<and> (case ma_ptr a of None \<Rightarrow> False | Some (b, off) \<Rightarrow>
       off = 0 \<and> (case block m b of None \<Rightarrow> False | Some xs \<Rightarrow> n * dt_size dt \<le> length xs)))"
| "own_field m (Message _ _ _ _) \<longleftrightarrow> False"

fun own_fields :: "mem \<Rightarrow> (string \<times> IMessageField) list \<Rightarrow> bool" where
  "own_fields m [] \<longleftrightarrow> True"
| "own_fields m ((x, f) # fs) \<longleftrightarrow> own_field m f \<and> x \<notin> fst ` set fs \<and> field_block f \<notin> field_block ` snd ` set fs \<and> own_fields m fs"

definition field_bytes :: "mem \<Rightarrow> IMessageField \<Rightarrow> u8 list" where
  "field_bytes m f = (case field_block f of None \<Rightarrow> [] | Some b \<Rightarrow>
     (case block m b of None \<Rightarrow> [] | Some xs \<Rightarrow> take (field_byte_size f) xs))"

fun visible_bytes :: "mem \<Rightarrow> string set \<Rightarrow> (string \<times> IMessageField) list \<Rightarrow> u8 list" where
  "visible_bytes m hidden [] = []"
| "visible_bytes m hidden ((x, f) # fs) = (if x \<in> hidden then [] else field_bytes m f) @ visible_bytes m hidden fs"

fun visible_size :: "string set \<Rightarrow> (string \<times> IMessageField) list \<Rightarrow> nat" where
  "visible_size hidden [] = 0"
| "visible_size hidden ((x, f) # fs) = (if x \<in> hidden then 0 else field_byte_size f) + visible_size hidden fs"

lemma own_fieldE:
  assumes "own_field m f"
  obtains dt n a b xs where "f = MessageField dt n (Some a)" "0 < n" "0 < dt_size dt" "ma_type a = dt" "ma_size a = n"
    "ma_ptr a = Some (b, 0)" "block m b = Some xs" "n * dt_size dt \<le> length xs" "field_block f = Some b"
  using assms by (cases f) (auto split: option.splits)

lemma field_write:
  assumes "own_field m f" "field_byte_size f \<le> n"
  shows "field_write_to n m f = Val (True, field_bytes m f)" "length (field_bytes m f) = field_byte_size f"
  using assms by (auto elim!: own_fieldE simp: mem_load_def ma_byte_size_def data_size_def min_def field_bytes_def)

lemma field_read:
  assumes "own_field m f" "length bs = field_byte_size f"
  obtains m' where "field_read_from bs m f = Val (True, m')" "field_bytes m' f = bs" "own_field m' f"
    "\<And>b. field_block f \<noteq> Some b \<Longrightarrow> block m' b = block m b"
proof -
  obtain dt n a b xs where f: "f = MessageField dt n (Some a)" "0 < n" "0 < dt_size dt" "ma_type a = dt" "ma_size a = n"
    "ma_ptr a = Some (b, 0)" "block m b = Some xs" "n * dt_size dt \<le> length xs" "field_block f = Some b"
    using assms(1) by (rule own_fieldE)
  let ?m = "m[b := Some (put_bytes 0 bs xs)]"
  have len: "length bs = n * dt_size dt" "bs \<noteq> []"
    using assms(2) f by auto
  have "0 < n * dt_size dt"
    using f by simp
  then have "field_read_from bs m f = Val (True, ?m)"
    using f len by (auto simp: ma_copy_from_bytes_def ma_byte_size_def data_size_def resolve_all range_empty_def
        ptr_add_def mem_store_def write_cells_def put_bytes_def)
  moreover have blk: "block ?m b = Some (put_bytes 0 bs xs)"
    using f(7) by (rule block_update)
  moreover have "field_bytes ?m f = bs"
    using blk f len by (simp add: field_bytes_def put_bytes_def)
  moreover have "own_field ?m f"
    using blk f len by (simp add: length_put_bytes)
  moreover have "block ?m c = block m c" if "field_block f \<noteq> Some c" for c
    using that f(9) by (simp add: block_def)
  ultimately show ?thesis
    using that by blast
qed

lemma own_field_cong: "own_field m f \<Longrightarrow> (\<And>b. field_block f = Some b \<Longrightarrow> block m' b = block m b) \<Longrightarrow> own_field m' f \<and> field_bytes m' f = field_bytes m f"
  by (auto elim!: own_fieldE simp: field_bytes_def)

lemma own_fields_cong:
  "own_fields m fs \<Longrightarrow> (\<And>b. Some b \<in> field_block ` snd ` set fs \<Longrightarrow> block m' b = block m b) \<Longrightarrow> own_fields m' fs"
proof (induction fs)
  case (Cons e fs)
  then show ?case
    using own_field_cong [of m "snd e" m'] by (cases e) (auto simp: image_iff)
qed simp

lemma put_bytes_append:
  assumes "k + length u + length v \<le> length xs"
  shows "put_bytes (k + length u) v (put_bytes k u xs) = put_bytes k (u @ v) xs"
proof -
  have "length (take k xs) = k"
    using assms by simp
  then show ?thesis
    using assms unfolding put_bytes_def by (simp add: ac_simps)
qed

lemma dyn_write_ok:
  "own_fields m fs \<Longrightarrow> current + visible_size hidden fs \<le> length out \<Longrightarrow>
   dyn_write_loop (length out) m hidden fs current out = Val (True, put_bytes current (visible_bytes m hidden fs) out)
   \<and> length (visible_bytes m hidden fs) = visible_size hidden fs"
proof (induction fs arbitrary: current out)
  case Nil
  then show ?case by (simp add: put_bytes_def)
next
  case (Cons e fs)
  obtain x f where e: "e = (x, f)"
    by (cases e)
  show ?case
  proof (cases "x \<in> hidden")
    case True
    then show ?thesis
      using Cons e by simp
  next
    case False
    have f: "own_field m f" "own_fields m fs"
      using Cons e by auto
    have le: "current + field_byte_size f + visible_size hidden fs \<le> length out"
      using Cons(3) False e by (simp add: add.assoc)
    have w: "field_write_to (length out - current) m f = Val (True, field_bytes m f)" "length (field_bytes m f) = field_byte_size f"
      using field_write [OF f(1), of "length out - current"] le by auto
    have l: "length (put_bytes current (field_bytes m f) out) = length out"
      using w(2) le by (intro length_put_bytes) simp
    show ?thesis
      using Cons(1) [OF f(2), of "current + field_byte_size f" "put_bytes current (field_bytes m f) out"] w l le False e
        put_bytes_append [of current "field_bytes m f" "visible_bytes m hidden fs" out] by simp
  qed
qed

text \<open>Rules that look only.\<close>

definition only_looks :: "'cb rule_effect \<Rightarrow> bool" where
  "only_looks run \<longleftrightarrow> (\<forall>callback name s. run callback name s = Val s)"

lemma play_passive: "only_looks run \<Longrightarrow> play_rules run rs name s = Val s"
  by (induction run rs name s rule: play_rules.induct) (auto simp: only_looks_def)

lemma own_fields_map_of: "own_fields m fs \<Longrightarrow> (x, f) \<in> set fs \<Longrightarrow> map_of fs x = Some f"
proof (induction fs)
  case (Cons e fs)
  then show ?case by (cases e) force
qed simp

lemma dyn_read_ok:
  assumes "only_looks run"
  shows "own_fields m fs \<Longrightarrow> (\<And>x f. (x, f) \<in> set fs \<Longrightarrow> map_of (dm_fields d) x = Some f) \<Longrightarrow>
    current + visible_size (dm_hidden d) fs \<le> length bs \<Longrightarrow> dm_dyn_size d = current \<Longrightarrow>
    \<exists>m'. dyn_read_loop run bs (map fst fs) current (m, d)
         = Val (True, m', d\<lparr> dm_dyn_size := current + visible_size (dm_hidden d) fs \<rparr>)
      \<and> visible_bytes m' (dm_hidden d) fs = take (visible_size (dm_hidden d) fs) (drop current bs) \<and> own_fields m' fs
      \<and> (\<forall>b. Some b \<notin> field_block ` snd ` set fs \<longrightarrow> block m' b = block m b)"
proof (induction fs arbitrary: current m d)
  case Nil
  then show ?case by simp
next
  case (Cons e fs)
  obtain x f where e: "e = (x, f)"
    by (cases e)
  have f: "own_field m f" "own_fields m fs" "x \<notin> fst ` set fs" "field_block f \<notin> field_block ` snd ` set fs"
      "map_of (dm_fields d) x = Some f"
    using Cons(2,3) e by auto
  have keep: "own_field m' f \<and> field_bytes m' f = field_bytes m1 f"
    if "own_field m1 f" and keeps: "\<forall>b. Some b \<notin> field_block ` snd ` set fs \<longrightarrow> block m' b = block m1 b" for m1 m'
  proof (rule own_field_cong [OF that(1)])
    show "block m' b = block m1 b" if "field_block f = Some b" for b
      using keeps f(4) that by metis
  qed
  show ?case
  proof (cases "x \<in> dm_hidden d")
    case True
    obtain m' where "dyn_read_loop run bs (map fst fs) current (m, d)
         = Val (True, m', d\<lparr> dm_dyn_size := current + visible_size (dm_hidden d) fs \<rparr>)"
      "visible_bytes m' (dm_hidden d) fs = take (visible_size (dm_hidden d) fs) (drop current bs)" "own_fields m' fs"
      "\<forall>b. Some b \<notin> field_block ` snd ` set fs \<longrightarrow> block m' b = block m b"
      using Cons(1) [of m d current] Cons(3,4,5) f(2) True e by auto
    then show ?thesis
      using f True e keep [OF f(1), of m'] by auto
  next
    case False
    let ?n = "field_byte_size f"
    let ?bs = "take ?n (drop current bs)"
    have le: "current + ?n + visible_size (dm_hidden d) fs \<le> length bs"
      using Cons(4) False e by simp
    obtain m1 where m1: "field_read_from ?bs m f = Val (True, m1)" "field_bytes m1 f = ?bs" "own_field m1 f"
      "\<And>b. field_block f \<noteq> Some b \<Longrightarrow> block m1 b = block m b"
      using field_read [OF f(1), of ?bs] le by auto
    have o1: "own_fields m1 fs"
      using f(4) m1(4) by (intro own_fields_cong [OF f(2)]) metis
    let ?d = "d\<lparr> dm_dyn_size := current + ?n \<rparr>"
    obtain m' where m': "dyn_read_loop run bs (map fst fs) (current + ?n) (m1, ?d)
         = Val (True, m', ?d\<lparr> dm_dyn_size := current + ?n + visible_size (dm_hidden d) fs \<rparr>)"
      "visible_bytes m' (dm_hidden d) fs = take (visible_size (dm_hidden d) fs) (drop (current + ?n) bs)" "own_fields m' fs"
      "\<forall>b. Some b \<notin> field_block ` snd ` set fs \<longrightarrow> block m' b = block m1 b"
      using Cons(1) [of m1 ?d "current + ?n"] Cons(3) o1 le e by auto
    have r: "dyn_read_loop run bs (map fst (e # fs)) current (m, d) = dyn_read_loop run bs (map fst fs) (current + ?n) (m1, ?d)"
      using f(5) False le m1(1) e play_passive [OF assms] by (simp add: Let_def split: option.splits)
    show ?thesis
      using r m' m1(4) f keep [OF m1(3) m'(4)] m1(2) False e
      by (auto simp: take_add drop_drop add.commute add.assoc)
  qed
qed

text \<open>Bytes that have been read as the visible fields are written again, whatever is hidden.\<close>

lemma dyn_roundtrip:
  assumes "own_fields m (dm_fields d)" "only_looks run" "length bs = visible_size (dm_hidden d) (dm_fields d)" "length out = length bs"
  shows "\<exists>m' d'. dyn_read_from run bs m d = Val (True, m', d') \<and> dm_dyn_size d' = length bs \<and> dyn_write_to out m' d' = Val (True, bs)"
proof -
  let ?d = "d\<lparr> dm_dyn_size := 0 \<rparr>"
  obtain m' where m': "dyn_read_from run bs m d = Val (True, m', ?d\<lparr> dm_dyn_size := length bs \<rparr>)"
    "visible_bytes m' (dm_hidden d) (dm_fields d) = bs" "own_fields m' (dm_fields d)"
    using dyn_read_ok [OF assms(2,1), of ?d 0 bs] own_fields_map_of [OF assms(1)] assms(3) by (auto simp: dyn_read_from_def)
  then show ?thesis
    using dyn_write_ok [OF m'(3), of 0 "dm_hidden d" out] assms(3,4) by (auto simp: dyn_write_to_def put_bytes_def)
qed

text \<open>Reading stops with failure, and the size is that of what has been read, when the buffer is too short for a field.\<close>

lemma dyn_read_short:
  assumes "dm_fields d = (x, f) # fs" "x \<notin> dm_hidden d" "length bs < field_byte_size f"
  shows "dyn_read_from run bs m d = Val (False, m, d\<lparr> dm_dyn_size := 0 \<rparr>)"
  using assms by (simp add: dyn_read_from_def)

section \<open>Rules\<close>

text \<open>A text whose length is in the field before it, by a rule that resizes it.\<close>

definition sized :: "unit DynMessage" where
  "sized = snd (dyn_add_rule ''n'' () (snd (dyn_add_field ''str'' (MessageField TYPE_CHAR 1 (Some (new_MArray TYPE_CHAR)))
     (snd (dyn_add_field ''n'' (MessageField TYPE_UBYTE 1 (Some (new_MArray TYPE_UBYTE))) new_DynMessage)))))"

definition resize_by_n :: "unit rule_effect" where
  "resize_by_n callback name s = (case map_of (dm_fields (snd s)) name of
     Some (MessageField dt n (Some a)) \<Rightarrow> cxx_bind (array_read 1 0 (fst s) a) (\<lambda>v.
       dyn_resize_field 1 (\<lambda>_. True) ''str'' (unat (hd v)) s)
   | _ \<Rightarrow> Undef)"

definition read_sized :: "u8 list \<Rightarrow> (bool \<times> nat) option" where
  "read_sized bs = (case dyn_finish 1 (\<lambda>_. True) [] sized of
     Val (_, m, d) \<Rightarrow> (case dyn_read_from resize_by_n bs m d of Val (ok, _, d) \<Rightarrow> Some (ok, dm_dyn_size d) | _ \<Rightarrow> None)
   | _ \<Rightarrow> None)"

lemma sized_text: "read_sized [3, 65, 66, 67] = Some (True, 4)"
  by code_simp

text \<open>A text without characters cannot be read: reading nothing fails.\<close>

lemma empty_text_is_refused: "read_sized [0] = Some (False, 1)"
  by code_simp

end
