(* ===== verification/Sihd_Fs.thy ===== *)
theory Sihd_Fs
  imports Sihd_Splitter
begin

text \<open>
  The functions of sys/src/fs.cpp that compute on texts, and those that walk over directories. The
  separator \<open>g_separator_char\<close> is the argument \<open>sep\<close>. What the operating system answers is an
  argument too: \<open>realpath\<close> (an empty text when the path does not resolve), the entries of a directory, and
  whether \<open>mkdir\<close>, \<open>rmdir\<close> and \<open>remove\<close> succeed. The variants for Windows are not modelled.
\<close>

section \<open>Path texts\<close>

definition combine_impl :: "char \<Rightarrow> string \<Rightarrow> string \<Rightarrow> string" where
  "combine_impl sep path1 path2 =
     (if path1 = [] then path2
      else if last path1 = sep then path1 @ path2
      else path1 @ [sep] @ path2)"

definition combine_lst_impl :: "char \<Rightarrow> string list \<Rightarrow> string" where
  "combine_lst_impl sep list = foldl (combine_impl sep) [] list"

text \<open>The loop of \<open>normalize\<close>: \<open>split.find("..") == 0\<close> holds of every piece that starts with two dots.\<close>

fun normalize_loop :: "string list \<Rightarrow> string list \<Rightarrow> string list" where
  "normalize_loop [] lst = lst"
| "normalize_loop (piece # pieces) lst =
     normalize_loop pieces (if find_str piece ''..'' 0 = Some 0 \<and> lst \<noteq> [] then butlast lst else lst @ [piece])"

definition fs_normalize :: "char \<Rightarrow> string \<Rightarrow> string" where
  "fs_normalize sep path =
     (let ret = join (normalize_loop (str_split path (length path) [sep]) []) [sep] in
      if path \<noteq> [] \<and> path ! 0 = sep then sep # ret else ret)"

text \<open>\<open>path[idx]\<close> may be the terminator of the \<open>std::string\<close>.\<close>

definition trim_in_path :: "char \<Rightarrow> string \<Rightarrow> string \<Rightarrow> string" where
  "trim_in_path sep path to_remove =
     (case find_str path to_remove 0 of
        None \<Rightarrow> path
      | Some idx \<Rightarrow>
          let idx = idx + length to_remove;
              idx = (if (if idx < length path then path ! idx else NUL) = sep then idx + 1 else idx)
          in drop idx path)"

definition extension :: "char \<Rightarrow> string \<Rightarrow> string" where
  "extension sep path =
     (let slash_idx = (case rfind_char path sep (length path) of None \<Rightarrow> 0 | Some i \<Rightarrow> i) in
      case find_char path (CHR ''.'') slash_idx of
        None \<Rightarrow> []
      | Some first_dot_idx \<Rightarrow> drop (first_dot_idx + 1) path)"

definition filename :: "char \<Rightarrow> string \<Rightarrow> string" where
  "filename sep path =
     (case rfind_char path sep (length path) of None \<Rightarrow> path | Some idx \<Rightarrow> drop (idx + 1) path)"

definition parent :: "char \<Rightarrow> string \<Rightarrow> string" where
  "parent sep path =
     (let ret = fs_normalize sep path in
      take (case rfind_char ret sep (length ret) of None \<Rightarrow> 0 | Some idx \<Rightarrow> idx) ret)"

definition ensure_separation :: "char \<Rightarrow> string \<Rightarrow> string" where
  "ensure_separation sep path =
     (if path = [] then [] else if path ! (length path - 1) = sep then path else path @ [sep])"

definition is_absolute :: "char \<Rightarrow> string \<Rightarrow> bool" where
  "is_absolute sep path \<longleftrightarrow> 0 < length path \<and> path ! 0 = sep"

section \<open>Permissions\<close>

text \<open>The bits of \<open>std::filesystem::perms\<close>, from \<open>owner_read\<close> to \<open>others_exec\<close>.\<close>

definition perms_table :: "(u32 \<times> char) list" where
  "perms_table = [(0x100, CHR ''r''), (0x80, CHR ''w''), (0x40, CHR ''x''),
     (0x20, CHR ''r''), (0x10, CHR ''w''), (8, CHR ''x''),
     (4, CHR ''r''), (2, CHR ''w''), (1, CHR ''x'')]"

definition permission_to_str :: "u32 \<Rightarrow> string" where
  "permission_to_str mode = map (\<lambda>(bit, c). if mode AND bit = 0 then CHR ''-'' else c) perms_table"

definition permission_from_str :: "string \<Rightarrow> u32" where
  "permission_from_str mode =
     foldl (\<lambda>p (i, bit, c). if i < length mode \<and> mode ! i = c then p OR bit else p) 0 (enumerate 0 perms_table)"

lemma and_power_cases: "(m :: u32) AND 2 ^ k = 0 \<or> m AND 2 ^ k = 2 ^ k"
  by (cases "bit m k") (auto simp: and_exp_eq_0_iff_not_bit bit_simps intro!: bit_eqI)

text \<open>Writing and reading permissions keeps the nine bits.\<close>

lemma permission_roundtrip: "permission_from_str (permission_to_str m) = m AND 0x1FF"
proof -
  have c: "m AND b = 0 \<or> m AND b = b" if "b \<in> {0x100, 0x80, 0x40, 0x20, 0x10, 8, 4, 2, 1}" for b
    using that and_power_cases [of m 0] and_power_cases [of m 1] and_power_cases [of m 2] and_power_cases [of m 3]
      and_power_cases [of m 4] and_power_cases [of m 5] and_power_cases [of m 6] and_power_cases [of m 7] and_power_cases [of m 8] by auto
  have s: "(if (if m AND b = 0 then CHR ''-'' else x) = x then p OR b else p) = p OR (m AND b)"
    if "b \<in> {0x100, 0x80, 0x40, 0x20, 0x10, 8, 4, 2, 1}" "x \<noteq> CHR ''-''" for b x p
    using c [OF that(1)] that(2) by auto
  have "permission_from_str (permission_to_str m) = ((((((((m AND 0x100) OR (m AND 0x80)) OR (m AND 0x40)) OR (m AND 0x20))
      OR (m AND 0x10)) OR (m AND 8)) OR (m AND 4)) OR (m AND 2)) OR (m AND 1)"
    unfolding permission_from_str_def permission_to_str_def perms_table_def
    by (simp add: s)
  also have "\<dots> = m AND 0x1FF"
    unfolding bit.conj_disj_distrib [symmetric] by simp
  finally show ?thesis .
qed

section \<open>The jail\<close>

text \<open>The literals are slashes, whatever the separator is.\<close>

fun drop_trailing :: "string \<Rightarrow> string" where
  "drop_trailing root = (if 1 < length root \<and> last root = CHR ''/'' then drop_trailing (butlast root) else root)"

declare drop_trailing.simps [simp del]

definition under_root :: "string \<Rightarrow> string \<Rightarrow> bool" where
  "under_root root p =
     (if root = ''/'' then p \<noteq> [] \<and> p ! 0 = CHR ''/''
      else p = root \<or> (length root < length p \<and> take (length root) p = root \<and> p ! length root = CHR ''/''))"

definition jail :: "char \<Rightarrow> (string \<Rightarrow> string) \<Rightarrow> string \<Rightarrow> string \<Rightarrow> string" where
  "jail sep realpath root_view path_view =
     (if root_view = [] then path_view
      else
        let root = drop_trailing (fs_normalize sep root_view);
            clean_path = (if path_view \<noteq> [] \<and> path_view ! 0 = CHR ''/'' then drop 1 path_view else path_view);
            joined = (if root = ''/'' then ''/'' @ clean_path else root @ ''/'' @ clean_path);
            candidate = fs_normalize sep joined
        in
          if \<not> under_root root candidate then root
          else
            let real_str = realpath candidate in
            if real_str \<noteq> [] then if under_root root real_str then real_str else root
            else candidate)"


section \<open>What normalizing does to the pieces of a path\<close>

lemma find_str_prefix: "find_str s n 0 = Some 0 \<longleftrightarrow> prefix n s"
proof
  assume "find_str s n 0 = Some 0"
  then show "prefix n s" using find_str_SomeD [of s n 0 0] by (metis drop0 take_is_prefix)
qed (rule find_str_here)

text \<open>A list of pieces that normalizing does not change: only the first may start with two dots.\<close>

definition normal :: "string list \<Rightarrow> bool" where
  "normal ts \<longleftrightarrow> (\<forall>t \<in> set (tl ts). \<not> prefix ''..'' t)"

lemma normalize_loop_append: "normalize_loop (us @ vs) ts = normalize_loop vs (normalize_loop us ts)"
  by (induction us ts rule: normalize_loop.induct) auto

lemma normalize_loop_plain: "\<forall>u \<in> set us. \<not> prefix ''..'' u \<Longrightarrow> normalize_loop us ts = ts @ us"
  by (induction us ts rule: normalize_loop.induct) (auto simp: find_str_prefix)

lemma normalize_loop_normal: "normal ts \<Longrightarrow> normalize_loop ts [] = ts"
  by (cases ts) (auto simp: normal_def normalize_loop_plain)

lemma normal_butlast: "normal ts \<Longrightarrow> normal (butlast ts)"
  by (cases ts) (auto simp: normal_def dest: in_set_butlastD)

lemma normal_loop: "normal ts \<Longrightarrow> normal (normalize_loop us ts)"
proof (induction us ts rule: normalize_loop.induct)
  case (2 u us ts)
  have "normal (ts @ [u])" if "\<not> (prefix ''..'' u \<and> ts \<noteq> [])"
    using 2(2) that by (cases ts) (auto simp: normal_def)
  then have "normal (if prefix ''..'' u \<and> ts \<noteq> [] then butlast ts else ts @ [u])"
    using 2(2) normal_butlast by simp
  then show ?case using 2(1) by (simp add: find_str_prefix)
qed simp

lemma normalize_loop_subset: "set (normalize_loop us ts) \<subseteq> set us \<union> set ts"
  by (induction us ts rule: normalize_loop.induct) (auto split: if_splits dest: in_set_butlastD)

text \<open>The pieces of a path after normalizing, and the pieces of the normalized text.\<close>

definition resolved :: "char \<Rightarrow> string \<Rightarrow> string list" where
  "resolved sep path = normalize_loop (comps sep path) []"

lemma resolved_pieces: "\<forall>t \<in> set (resolved sep path). t \<noteq> [] \<and> sep \<notin> set t \<and> set t \<subseteq> set path"
  using normalize_loop_subset [of "comps sep path" "[]"] comps_pieces [of _ sep path] by (fastforce simp: resolved_def)

lemma normal_resolved: "normal (resolved sep path)"
  unfolding resolved_def by (rule normal_loop) (simp add: normal_def)

lemma fs_normalize_eq:
  "sep \<noteq> NUL \<Longrightarrow> no_nul path \<Longrightarrow> fs_normalize sep path =
    (if is_absolute sep path then [sep] else []) @ join (resolved sep path) [sep]"
  unfolding fs_normalize_def Let_def str_split_char resolved_def is_absolute_def by simp

lemma comps_fs_normalize:
  assumes "sep \<noteq> NUL" "no_nul path"
  shows "comps sep (fs_normalize sep path) = resolved sep path"
  using comps_join [of "resolved sep path" sep] resolved_pieces [of sep path] by (simp add: fs_normalize_eq [OF assms])

lemma join_hd: "\<forall>t \<in> set ts. t \<noteq> [] \<and> c \<notin> set t \<Longrightarrow> join ts [c] = [] \<and> ts = [] \<or> join ts [c] \<noteq> [] \<and> ts \<noteq> [] \<and> hd (join ts [c]) \<noteq> c"
  by (induction ts "[c]" rule: join.induct) (auto simp: neq_Nil_conv)

lemma no_nul_normalize: "sep \<noteq> NUL \<Longrightarrow> no_nul path \<Longrightarrow> no_nul (fs_normalize sep path)"
  using no_nul_join [of "[sep]" "resolved sep path"] resolved_pieces [of sep path]
  by (auto simp: fs_normalize_eq no_nul_def)

lemma absolute_normalize:
  assumes "sep \<noteq> NUL" "no_nul path"
  shows "is_absolute sep (fs_normalize sep path) = is_absolute sep path"
proof -
  have "join (resolved sep path) [sep] = [] \<or> hd (join (resolved sep path) [sep]) \<noteq> sep"
    using join_hd [of "resolved sep path" sep] resolved_pieces [of sep path] by blast
  then show ?thesis
    by (cases "join (resolved sep path) [sep]") (simp_all add: fs_normalize_eq [OF assms] is_absolute_def)
qed

text \<open>Normalizing twice is normalizing once.\<close>

lemma normalize_idempotent:
  assumes "sep \<noteq> NUL" "no_nul path"
  shows "fs_normalize sep (fs_normalize sep path) = fs_normalize sep path"
proof -
  have "resolved sep (fs_normalize sep path) = resolved sep path"
    using comps_fs_normalize [OF assms] normalize_loop_normal [OF normal_resolved] by (metis resolved_def)
  then show ?thesis
    using fs_normalize_eq [OF assms] fs_normalize_eq [OF assms(1) no_nul_normalize [OF assms]] absolute_normalize [OF assms]
    by simp
qed


section \<open>What the jail contains\<close>

abbreviation slash :: char where "slash \<equiv> CHR ''/''"

text \<open>The start of a text of pieces: a slash when the path is absolute.\<close>

abbreviation lead :: "string \<Rightarrow> string" where
  "lead path \<equiv> if is_absolute slash path then [slash] else []"

definition pieces_ok :: "string list \<Rightarrow> bool" where
  "pieces_ok ts \<longleftrightarrow> (\<forall>t \<in> set ts. t \<noteq> [] \<and> slash \<notin> set t)"

lemma pieces_ok_resolved: "pieces_ok (resolved slash path)"
  using resolved_pieces [of slash path] by (auto simp: pieces_ok_def)

lemma pieces_ok_loop: "pieces_ok ts \<Longrightarrow> pieces_ok (normalize_loop (comps slash path) ts)"
  using normalize_loop_subset [of "comps slash path" ts] comps_pieces [of _ slash path] by (fastforce simp: pieces_ok_def)

lemma comps_lead: "pieces_ok ts \<Longrightarrow> comps slash (lead path @ join ts [slash]) = ts"
  using comps_join [of ts slash] by (simp add: pieces_ok_def)

lemma join_last: "ts \<noteq> [] \<Longrightarrow> \<forall>t \<in> set ts. t \<noteq> [] \<and> c \<notin> set t \<Longrightarrow> join ts [c] \<noteq> [] \<and> last (join ts [c]) \<noteq> c"
  by (induction ts "[c]" rule: join.induct) (auto dest: last_in_set)

lemma join_append: "us \<noteq> [] \<Longrightarrow> vs \<noteq> [] \<Longrightarrow> join (us @ vs) d = join us d @ d @ join vs d"
proof (induction us d rule: join.induct)
  case (2 t d)
  then show ?case by (cases vs) auto
qed auto

lemma drop_trailing_id: "last root \<noteq> slash \<Longrightarrow> drop_trailing root = root"
  by (subst drop_trailing.simps) simp

lemma under_rootE:
  assumes "under_root root p" "root \<noteq> ''/''"
  obtains "p = root" | x where "p = root @ slash # x"
  using assms
proof -
  have "p = root @ slash # drop (Suc (length root)) p"
    if "length root < length p" "take (length root) p = root" "p ! length root = slash"
    using that id_take_nth_drop [of "length root" p] by simp
  then show ?thesis using assms that by (auto simp: under_root_def split: if_splits)
qed

lemma under_root_comps:
  assumes "under_root root p" "root \<noteq> ''/''"
  shows "\<exists>Z. comps slash p = comps slash root @ Z"
  using assms by (rule under_rootE) (auto simp: comps_append_sep)

lemma under_root_join:
  assumes "pieces_ok us" "pieces_ok vs" "us \<noteq> []"
  shows "under_root (lead root @ join us [slash]) (lead root @ join vs [slash]) \<longleftrightarrow> prefix us vs" (is "under_root ?u ?v \<longleftrightarrow> _")
proof
  have "join us [slash] \<noteq> []" "last (join us [slash]) \<noteq> slash"
    using join_last [OF assms(3), of slash] assms(1) by (auto simp: pieces_ok_def)
  then have u: "?u \<noteq> ''/''" by (cases "join us [slash]") auto
  show "prefix us vs" if "under_root ?u ?v"
    using under_root_comps [OF that u] comps_lead [OF assms(1)] comps_lead [OF assms(2)] by (metis prefixI)
  assume "prefix us vs"
  then obtain ws where vs: "vs = us @ ws" by (auto simp: prefix_def)
  show "under_root ?u ?v"
  proof (cases "ws = []")
    case False
    then have "?v = ?u @ slash # join ws [slash]" using join_append [OF assms(3) False] vs by simp
    then show ?thesis using u by (simp add: under_root_def nth_append)
  qed (use u vs in \<open>simp add: under_root_def\<close>)
qed

text \<open>The jail on pieces: walk from the root along the path, and clamp when the walk has left the root.\<close>

lemma jail_eq:
  fixes realpath root path
  assumes "no_nul root" "no_nul path" "resolved slash root \<noteq> []"
  defines "R \<equiv> resolved slash root"
  defines "W \<equiv> normalize_loop (comps slash path) R"
  shows "jail slash realpath root path =
    (let root' = lead root @ join R [slash]; c = lead root @ join W [slash] in
     if \<not> prefix R W then root' else if realpath c = [] then c
     else if under_root root' (realpath c) then realpath c else root')"
proof -
  let ?root = "lead root @ join R [slash]"
  let ?clean = "if path \<noteq> [] \<and> path ! 0 = slash then drop 1 path else path"
  have R: "R \<noteq> []" "pieces_ok R" using assms(3) pieces_ok_resolved by (simp_all add: R_def)
  have W: "pieces_ok W" unfolding W_def by (rule pieces_ok_loop [OF R(2)])
  have root: "root \<noteq> []" using assms(3) by (auto simp: resolved_def)
  have np: "fs_normalize slash root = ?root" using assms(1) by (simp add: fs_normalize_eq R_def)
  have jl: "join R [slash] \<noteq> []" "last (join R [slash]) \<noteq> slash" "hd (join R [slash]) \<noteq> slash"
    using join_last [OF R(1), of slash] join_hd [of R slash] R by (auto simp: pieces_ok_def)
  have dt: "drop_trailing ?root = ?root" using jl by (intro drop_trailing_id) simp
  have ns: "?root \<noteq> ''/''" using jl by (cases "join R [slash]") auto
  have clean: "comps slash ?clean = comps slash path" "no_nul ?clean"
    using assms(2) by (cases path; simp)+
  have nul: "no_nul (?root @ ''/'' @ ?clean)"
    using no_nul_normalize [of slash root] assms(1) clean(2) np by simp
  have "resolved slash (?root @ slash # ?clean) = W"
    unfolding resolved_def comps_append_sep comps_lead [OF R(2)] normalize_loop_append clean(1) W_def
    using normalize_loop_normal [OF normal_resolved [of slash root]] by (simp add: R_def)
  moreover have "is_absolute slash (?root @ slash # ?clean) = is_absolute slash root"
    using jl by (cases "join R [slash]") (simp_all add: is_absolute_def)
  ultimately have cand: "fs_normalize slash (?root @ ''/'' @ ?clean) = lead root @ join W [slash]"
    using fs_normalize_eq [OF _ nul] by simp
  show ?thesis
    unfolding jail_def np Let_def dt if_not_P [OF ns] cand under_root_join [OF R(2) W R(1)] using root by simp
qed




text \<open>Roots for which this fails, and links that the check does not see: a relative root that
  normalizes to the empty text makes paths absolute, and only the whole path is resolved.\<close>

lemma jail_of_empty_root: "jail slash (\<lambda>_. []) ''a/..'' ''etc/passwd'' = ''/etc/passwd''"
  by code_simp

lemma jail_new_file_behind_link:
  "jail slash (\<lambda>p. if p = ''/srv/ftp/link'' then ''/etc'' else []) ''/srv/ftp'' ''link/new'' = ''/srv/ftp/link/new''"
  by code_simp

lemma jail_root_is_link:
  "jail slash (\<lambda>p. if p = ''/srv/ftp/x'' then ''/data/ftp/x'' else []) ''/srv/ftp'' ''x'' = ''/srv/ftp''"
  by code_simp

text \<open>A relative root: what exists is never found below it, because \<open>realpath\<close> is absolute.\<close>

lemma jail_relative_root:
  assumes "no_nul root" "no_nul path" "resolved slash root \<noteq> []" "\<not> is_absolute slash root"
    and "\<And>p. realpath p = [] \<or> is_absolute slash (realpath p)"
    and "realpath (jail slash (\<lambda>_. []) root path) \<noteq> []"
  shows "jail slash realpath root path = fs_normalize slash root"
proof -
  define R where "R = resolved slash root"
  define W where "W = normalize_loop (comps slash path) R"
  have "join R [slash] \<noteq> [] \<and> hd (join R [slash]) \<noteq> slash"
    using join_hd [of R slash] resolved_pieces [of slash root] assms(3) by (auto simp: R_def)
  then have "\<not> under_root (join R [slash]) (realpath p)" if "realpath p \<noteq> []" for p
    using assms(5) [of p] that
    by (cases "join R [slash]"; cases "realpath p") (auto simp: under_root_def is_absolute_def)
  then show ?thesis
    using assms(4,6) jail_eq [OF assms(1-3), of realpath] jail_eq [OF assms(1-3), of "\<lambda>_. []"] fs_normalize_eq [of slash root] assms(1)
    by (simp add: Let_def R_def W_def split: if_splits)
qed

text \<open>A piece that starts with two dots removes the one before it; a second \<open>..\<close> removes the first; a single
  dot is kept.\<close>

lemma normalize_oddities:
  "fs_normalize slash ''a/..foo'' = []" "fs_normalize slash ''../../x'' = ''x''" "fs_normalize slash ''/x/./y'' = ''/x/./y''"
  by code_simp+

section \<open>Directories\<close>

text \<open>A directory as \<open>opendir\<close> and \<open>readdir\<close> show it: the entries in their order, each with its name, its
  \<open>d_type\<close> and what opening it gives. \<open>DT_DIR\<close> is 4.\<close>

datatype dirent = Dirent (d_name: string) (d_type: u8) (opened: "dirent list option")

definition is_DT_DIR :: "u8 \<Rightarrow> bool" where
  "is_DT_DIR t \<longleftrightarrow> t AND 4 \<noteq> 0"

function (sequential) get_recursive_children :: "char \<Rightarrow> string \<Rightarrow> dirent list option \<Rightarrow> nat \<Rightarrow> nat \<Rightarrow> string list"
  and read_entries :: "char \<Rightarrow> string \<Rightarrow> dirent list \<Rightarrow> nat \<Rightarrow> nat \<Rightarrow> string list" where
  "get_recursive_children sep path None current_depth max_depth = []"
| "get_recursive_children sep path (Some es) current_depth max_depth =
     (if 0 < max_depth \<and> max_depth \<le> current_depth then [] else read_entries sep path es current_depth max_depth)"
| "read_entries sep path [] current_depth max_depth = []"
| "read_entries sep path (Dirent name t sub # es) current_depth max_depth =
     (if name = ''.'' \<or> name = ''..'' then read_entries sep path es current_depth max_depth
      else
        let childpath = combine_impl sep path name in
        (if is_DT_DIR t then (childpath @ [sep]) # get_recursive_children sep childpath sub (current_depth + 1) max_depth
         else [childpath]) @ read_entries sep path es current_depth max_depth)"
  by pat_completeness auto
termination
  by (relation "measure (\<lambda>x. case x of Inl (_, _, o', _) \<Rightarrow> size_option (size_list size) o' | Inr (_, _, es, _) \<Rightarrow> size_list size es)") auto

definition recursive_children :: "char \<Rightarrow> (string \<Rightarrow> dirent list option) \<Rightarrow> string \<Rightarrow> nat \<Rightarrow> string list" where
  "recursive_children sep opendir path max_depth = get_recursive_children sep path (opendir path) 0 max_depth"

fun children_loop :: "char \<Rightarrow> dirent list \<Rightarrow> string list" where
  "children_loop sep [] = []"
| "children_loop sep (Dirent name t sub # es) =
     (if name = ''.'' \<or> name = ''..'' then children_loop sep es
      else (if is_DT_DIR t then name @ [sep] else name) # children_loop sep es)"

definition children :: "char \<Rightarrow> (string \<Rightarrow> dirent list option) \<Rightarrow> string \<Rightarrow> string list" where
  "children sep opendir path = (case opendir path of None \<Rightarrow> [] | Some es \<Rightarrow> children_loop sep es)"

text \<open>Removing and making: the calls of the system take and return its state.\<close>

type_synonym 'fs syscall = "string \<Rightarrow> 'fs \<Rightarrow> bool \<times> 'fs"

fun remove_listed :: "('fs \<Rightarrow> string \<Rightarrow> bool) \<Rightarrow> 'fs syscall \<Rightarrow> 'fs syscall \<Rightarrow> string list \<Rightarrow> bool \<Rightarrow> 'fs \<Rightarrow> bool \<times> 'fs" where
  "remove_listed is_dir rmdir remove [] ret fs = (ret, fs)"
| "remove_listed is_dir rmdir remove (p # ps) ret fs =
     (case (if is_dir fs p then rmdir p fs else remove p fs) of
        (ok, fs) \<Rightarrow> remove_listed is_dir rmdir remove ps (if ok then ret else False) fs)"

definition remove_directories ::
  "char \<Rightarrow> ('fs \<Rightarrow> string \<Rightarrow> dirent list option) \<Rightarrow> ('fs \<Rightarrow> string \<Rightarrow> bool) \<Rightarrow> 'fs syscall \<Rightarrow> 'fs syscall \<Rightarrow> 'fs syscall" where
  "remove_directories sep opendir is_dir rmdir remove path fs =
     remove_listed is_dir rmdir remove (rev (recursive_children sep (opendir fs) path 0)) True fs"

definition make_directory :: "('fs \<Rightarrow> string \<Rightarrow> bool) \<Rightarrow> 'fs syscall \<Rightarrow> 'fs syscall" where
  "make_directory is_dir mkdir path fs =
     (if is_dir fs path then (True, fs) else if path = [] then (False, fs) else mkdir path fs)"

fun make_loop :: "char \<Rightarrow> ('fs \<Rightarrow> string \<Rightarrow> bool) \<Rightarrow> 'fs syscall \<Rightarrow> string list \<Rightarrow> string \<Rightarrow> bool \<Rightarrow> 'fs \<Rightarrow> bool \<times> 'fs" where
  "make_loop sep is_dir mkdir [] current_path ret fs = (ret, fs)"
| "make_loop sep is_dir mkdir (dirname # dirnames) current_path ret fs =
     (let current_path = combine_impl sep current_path dirname in
      if is_dir fs current_path then make_loop sep is_dir mkdir dirnames current_path ret fs
      else case make_directory is_dir mkdir current_path fs of
        (ok, fs) \<Rightarrow> if ok then make_loop sep is_dir mkdir dirnames current_path ok fs else (ok, fs))"

definition make_directories :: "char \<Rightarrow> ('fs \<Rightarrow> string \<Rightarrow> bool) \<Rightarrow> 'fs syscall \<Rightarrow> 'fs syscall" where
  "make_directories sep is_dir mkdir path fs =
     (if path = [] then (True, fs)
      else make_loop sep is_dir mkdir (str_split path (length path) [sep]) (if path ! 0 = sep then [sep] else []) True fs)"

text \<open>What the documentation of \<open>mkdir\<close> says: when it succeeds the directory is there, and no other is lost.\<close>

definition mkdir_works :: "('fs \<Rightarrow> string \<Rightarrow> bool) \<Rightarrow> 'fs syscall \<Rightarrow> bool" where
  "mkdir_works is_dir mkdir \<longleftrightarrow>
     (\<forall>p fs fs' ok. mkdir p fs = (ok, fs') \<longrightarrow> (ok \<longrightarrow> is_dir fs' p) \<and> (\<forall>q. is_dir fs q \<longrightarrow> is_dir fs' q))"

lemma make_loop_ok:
  assumes "mkdir_works is_dir mkdir" "make_loop sep is_dir mkdir ds cur True fs = (True, fs')"
  shows "(\<forall>k < length ds. is_dir fs' (foldl (combine_impl sep) cur (take (Suc k) ds))) \<and> (\<forall>q. is_dir fs q \<longrightarrow> is_dir fs' q)"
  using assms(2)
proof (induction ds arbitrary: cur fs)
  case (Cons d ds)
  let ?cur = "combine_impl sep cur d"
  obtain fs1 where f: "make_loop sep is_dir mkdir ds ?cur True fs1 = (True, fs')" "is_dir fs1 ?cur" "\<forall>q. is_dir fs q \<longrightarrow> is_dir fs1 q"
    using Cons.prems assms(1)
    by (auto simp: Let_def make_directory_def mkdir_works_def split: if_splits prod.splits)
  note IH = Cons.IH [OF f(1)]
  have "is_dir fs' (foldl (combine_impl sep) cur (take (Suc k) (d # ds)))" if "k < length (d # ds)" for k
    using that IH f(2) by (cases k) auto
  then show ?case using IH f(3) by blast
qed simp

text \<open>Every directory on the way to a path is there when \<open>make_directories\<close> has succeeded.\<close>

lemma make_directories_ok:
  assumes "mkdir_works is_dir mkdir" "sep \<noteq> NUL" "no_nul path" "make_directories sep is_dir mkdir path fs = (True, fs')"
  shows "\<forall>k < length (comps sep path).
    is_dir fs' (foldl (combine_impl sep) (if is_absolute sep path then [sep] else []) (take (Suc k) (comps sep path)))"
proof (cases "path = []")
  case False
  have "make_loop sep is_dir mkdir (comps sep path) (if is_absolute sep path then [sep] else []) True fs = (True, fs')"
    using assms(4) False unfolding make_directories_def str_split_char [OF assms(2,3)] is_absolute_def by simp
  from make_loop_ok [OF assms(1) this] show ?thesis by blast
qed simp

text \<open>A socket has the type 12, which has the bit of a directory: it is listed with a separator, and removing
  that name fails.\<close>

lemma socket_listed_as_directory:
  "recursive_children slash (\<lambda>_. Some [Dirent ''sock'' 12 None, Dirent ''f'' 8 None, Dirent ''dev'' 6 None]) ''d'' 0 =
    [''d/sock/'', ''d/f'', ''d/dev/'']"
  by code_simp


section \<open>A list of directories to search\<close>

text \<open>
  PathManager of sys/src/PathManager.cpp. \<open>exists\<close> and \<open>permissions\<close> (\<open>None\<close> with an error code) are the answers of the
  file system.
\<close>

definition mode_from_str :: "string \<Rightarrow> u32" where
  "mode_from_str mode =
     foldl (\<lambda>ret c. if c = CHR ''r'' then ret OR 0x100 else if c = CHR ''w'' then ret OR 0x80
                   else if c = CHR ''x'' then ret OR 0x40 else ret) 0 mode"

text \<open>\<open>std::filesystem::path(path) / search\<close> on a system with slashes.\<close>

definition path_append :: "string \<Rightarrow> string \<Rightarrow> string" where
  "path_append path search =
     (if is_absolute slash search then search
      else if path \<noteq> [] \<and> last path \<noteq> slash then path @ [slash] @ search else path @ search)"

definition check_if_match :: "(string \<Rightarrow> bool) \<Rightarrow> (string \<Rightarrow> u32 option) \<Rightarrow> string \<Rightarrow> string \<Rightarrow> string \<Rightarrow> string option" where
  "check_if_match exists permissions path search mode_str =
     (let mode = mode_from_str mode_str; path_to_search = path_append path search in
      if exists path_to_search \<and>
         (if mode \<noteq> 0 then (case permissions path_to_search of None \<Rightarrow> False | Some file_perms \<Rightarrow> file_perms AND mode \<noteq> 0) else True)
      then Some path_to_search else None)"

fun pm_find_all :: "(string \<Rightarrow> bool) \<Rightarrow> (string \<Rightarrow> u32 option) \<Rightarrow> string list \<Rightarrow> string \<Rightarrow> string \<Rightarrow> string list" where
  "pm_find_all exists permissions [] search mode_str = []"
| "pm_find_all exists permissions (path # path_lst) search mode_str =
     (case check_if_match exists permissions path search mode_str of None \<Rightarrow> [] | Some r \<Rightarrow> [r]) @
     pm_find_all exists permissions path_lst search mode_str"

fun pm_find :: "(string \<Rightarrow> bool) \<Rightarrow> (string \<Rightarrow> u32 option) \<Rightarrow> string list \<Rightarrow> string \<Rightarrow> string \<Rightarrow> string" where
  "pm_find exists permissions [] search mode_str = []"
| "pm_find exists permissions (path # path_lst) search mode_str =
     (case check_if_match exists permissions path search mode_str of
        None \<Rightarrow> pm_find exists permissions path_lst search mode_str | Some r \<Rightarrow> r)"

definition pm_push_back :: "string list \<Rightarrow> string \<Rightarrow> string list" where
  "pm_push_back path_lst path_item = (if path_item \<in> set path_lst then path_lst else path_lst @ [path_item])"

definition pm_push_front :: "string list \<Rightarrow> string \<Rightarrow> string list" where
  "pm_push_front path_lst path_item = (if path_item \<in> set path_lst then path_lst else path_item # path_lst)"

text \<open>\<open>std::remove\<close> moves the other items to the front and returns the end of them; \<open>erase(it)\<close> erases one
  item. If the item was there more than once, what is left behind it are texts that were moved from (\<open>Undef\<close>).\<close>

definition pm_remove :: "string list \<Rightarrow> string \<Rightarrow> (bool \<times> string list) cxx" where
  "pm_remove path_lst path_item =
     (let kept = filter (\<lambda>p. p \<noteq> path_item) path_lst; it = length kept in
      if it = length path_lst then Val (False, path_lst)
      else if length path_lst - it = 1 then Val (True, kept) else Undef)"

text \<open>Items are never there twice, so removing is defined, and it removes the item.\<close>

lemma pm_push_distinct:
  "distinct ps \<Longrightarrow> distinct (pm_push_back ps p)" "distinct ps \<Longrightarrow> distinct (pm_push_front ps p)"
  by (simp_all add: pm_push_back_def pm_push_front_def)

lemma pm_remove_distinct:
  assumes "distinct ps" shows "pm_remove ps p = Val (p \<in> set ps, remove1 p ps)"
proof -
  have f: "filter (\<lambda>q. q \<noteq> p) ps = remove1 p ps"
    using distinct_remove1_removeAll [OF assms] by (simp add: removeAll_filter_not_eq eq_commute [of p])
  show ?thesis
  proof (cases "p \<in> set ps")
    case True
    then have "length ps - Suc 0 \<noteq> length ps" "length ps - (length ps - Suc 0) = 1" by (cases ps; simp)+
    then show ?thesis using True by (simp add: pm_remove_def f length_remove1 Let_def)
  qed (simp add: pm_remove_def f remove1_idem)
qed

text \<open>\<open>find\<close> gives the first of what \<open>find_all\<close> gives.\<close>

lemma pm_find_first:
  "pm_find exists permissions ps search mode_str =
    (case pm_find_all exists permissions ps search mode_str of [] \<Rightarrow> [] | r # _ \<Rightarrow> r)"
  by (induction ps) (auto split: option.splits list.splits)

end
