(* ===== verification/Sihd_Csv.thy ===== *)
theory Sihd_Csv
  imports Sihd_Splitter Sihd_LineReader Sihd_StrNum
begin

text \<open>
  The csv files of the module csv: the writer (CsvWriter.cpp), the reader on top of the line reader
  and the splitter (CsvReader.cpp), and the functions of csv/src/utils.cpp. A file that is written is
  what it holds, the room that is left for it, and its error indicator; the stream writes at once.
  The operands of a sum are evaluated from left to right, which the language leaves open.
\<close>

section \<open>Writing\<close>

record OutFile =
  of_data :: string
  of_room :: "nat option"
  of_error :: bool

text \<open>\<open>fwrite\<close>; then \<open>File::write\<close> and \<open>File::write_char\<close>.\<close>

definition c_fwrite :: "string \<Rightarrow> OutFile \<Rightarrow> nat \<times> OutFile" where
  "c_fwrite s f =
     (let n = (case of_room f of None \<Rightarrow> length s | Some r \<Rightarrow> min r (length s)) in
      (n, f\<lparr> of_data := of_data f @ take n s, of_room := map_option (\<lambda>r. r - n) (of_room f),
             of_error := of_error f \<or> n < length s \<rparr>))"

definition file_write :: "string \<Rightarrow> OutFile \<Rightarrow> int \<times> OutFile" where
  "file_write s f = (case c_fwrite s f of (n, f) \<Rightarrow> if of_error f then (-1, f) else (int n, f))"

definition file_write_char :: "int \<Rightarrow> OutFile \<Rightarrow> bool \<times> OutFile" where
  "file_write_char c f = (case c_fwrite [char_of (c mod 256)] f of (n, f) \<Rightarrow> (n = 1 \<and> c mod 256 = c, f))"

record CsvWriter =
  cw_max_col :: nat
  cw_col :: nat
  cw_row :: nat
  cw_delimiter :: int
  cw_comment :: int
  cw_line_feed :: int
  cw_file :: "OutFile option"


text \<open>\<open>isprint\<close> in the C locale.\<close>

definition int_isprint :: "int \<Rightarrow> bool" where
  "int_isprint c \<longleftrightarrow> 32 \<le> c \<and> c \<le> 126"


definition cw_set_commentary :: "int \<Rightarrow> CsvWriter \<Rightarrow> bool \<times> CsvWriter" where
  "cw_set_commentary c w = (if int_isprint c then (True, w\<lparr> cw_comment := c \<rparr>) else (False, w))"


definition cw_put_char :: "int \<Rightarrow> CsvWriter \<Rightarrow> (bool \<times> CsvWriter) cxx" where
  "cw_put_char c w = (case cw_file w of None \<Rightarrow> Undef
     | Some f \<Rightarrow> (case file_write_char c f of (ok, f) \<Rightarrow> Val (ok, w\<lparr> cw_file := Some f \<rparr>)))"

definition cw_put :: "string \<Rightarrow> CsvWriter \<Rightarrow> (int \<times> CsvWriter) cxx" where
  "cw_put s w = (case cw_file w of None \<Rightarrow> Undef
     | Some f \<Rightarrow> (case file_write s f of (n, f) \<Rightarrow> Val (n, w\<lparr> cw_file := Some f \<rparr>)))"

definition cw_new_row :: "CsvWriter \<Rightarrow> (bool \<times> CsvWriter) cxx" where
  "cw_new_row w = cxx_bind (cw_put_char (cw_line_feed w) w) (\<lambda>(ok, w).
     if \<not> ok then Val (False, w) else Val (True, w\<lparr> cw_row := cw_row w + 1, cw_col := 0 \<rparr>))"

definition cw_write_commentary :: "string \<Rightarrow> CsvWriter \<Rightarrow> (int \<times> CsvWriter) cxx" where
  "cw_write_commentary comment w =
     cxx_bind (if cw_col w > 0 then cw_new_row w else Val (True, w)) (\<lambda>(ok, w).
     if \<not> ok then Val (-1, w)
     else cxx_bind (cw_put_char (cw_comment w) w) (\<lambda>(ok, w).
     if \<not> ok then Val (-1, w)
     else cxx_bind (cw_put comment w) (\<lambda>(wrote, w).
     if wrote < int (length comment) then Val (-1, w)
     else cxx_bind (cw_new_row w) (\<lambda>(ok, w).
     if \<not> ok then Val (-1, w) else Val (1 + wrote + 1, w)))))"

definition cw_write :: "string \<Rightarrow> CsvWriter \<Rightarrow> (int \<times> CsvWriter) cxx" where
  "cw_write view w =
     cxx_bind (if cw_col w > 0 then cw_put_char (cw_delimiter w) w else Val (True, w)) (\<lambda>(ok, w).
     if \<not> ok then Val (-1, w)
     else
       let ret = (if cw_col w > 0 then 1 else 0) in
       cxx_bind (cw_put view w) (\<lambda>(wrote, w).
       if wrote < int (length view) then Val (-1, w)
       else Val (ret + wrote, w\<lparr> cw_col := cw_col w + 1, cw_max_col := max (cw_max_col w) (cw_col w + 1) \<rparr>)))"


definition cw_write_row_view :: "string \<Rightarrow> CsvWriter \<Rightarrow> (int \<times> CsvWriter) cxx" where
  "cw_write_row_view view w = cxx_bind (cw_write view w) (\<lambda>(n, w). cxx_bind (cw_new_row w) (\<lambda>(ok, w). Val (n + (if ok then 1 else 0), w)))"


abbreviation Q :: char where "Q \<equiv> CHR 0x22"
abbreviation LF :: char where "LF \<equiv> CHR 0x0A"

definition escape_str :: "string \<Rightarrow> string" where
  "escape_str view = [Q] @ replace view [Q] [Q, Q] @ [Q]"

section \<open>Reading\<close>

function count_unescaped_quotes :: "string \<Rightarrow> nat" where
  "count_unescaped_quotes view =
     (if view = [] then 0
      else let idx = find_char_not_escaped view Q 34 in
        if idx < 0 then 0 else 1 + count_unescaped_quotes (drop (nat idx + 1) view))"
  by pat_completeness auto
termination
  by (relation "measure length") auto

declare count_unescaped_quotes.simps [simp del]

record CsvReader =
  cr_comment :: int
  cr_delimiter :: int
  cr_timestamp_col :: int
  cr_timestamp_fmt :: string
  cr_has_data :: bool
  cr_line :: string
  cr_cols :: "string list"
  cr_splitter :: Splitter
  cr_lines :: LineReader

definition cr_reset_line :: "CsvReader \<Rightarrow> CsvReader" where
  "cr_reset_line r = r\<lparr> cr_has_data := False, cr_line := [], cr_cols := [] \<rparr>"






definition cr_close :: "CsvReader \<Rightarrow> (bool \<times> CsvReader) cxx" where
  "cr_close r = cxx_bind (close_reader (cr_lines r)) (\<lambda>(ok, lr). Val (ok, (cr_reset_line r)\<lparr> cr_lines := lr \<rparr>))"

text \<open>One line of the file: whether it ends a row.\<close>

definition cr_take :: "string \<Rightarrow> CsvReader \<Rightarrow> bool \<times> CsvReader" where
  "cr_take view r =
     (if view = [] then (False, r)
      else
        let searching_for_end_quote = cr_line r \<noteq> [];
            is_commentary = \<not> searching_for_end_quote \<and> c_int (hd view) = cr_comment r;
            is_unnecessary_spaces = \<not> searching_for_end_quote \<and> list_all c_isspace view in
        if is_commentary \<or> is_unnecessary_spaces then (False, r)
        else
          let line = cr_line r @ view;
              number_of_quotes_are_odd = odd (count_unescaped_quotes view);
              quotes_are_even = (if searching_for_end_quote then number_of_quotes_are_odd else \<not> number_of_quotes_are_odd) in
          if quotes_are_even then (True, r\<lparr> cr_line := butlast line, cr_has_data := True \<rparr>)
          else (False, r\<lparr> cr_line := line \<rparr>))"



definition cr_get_read_data :: "CsvReader \<Rightarrow> string option" where
  "cr_get_read_data r = (if cr_has_data r then Some (cr_line r) else None)"

fun unescape_cols :: "string list \<Rightarrow> string list cxx" where
  "unescape_cols [] = Val []"
| "unescape_cols (c # cs) = cxx_bind (remove_escape_char c 34) (\<lambda>c. cxx_bind (unescape_cols cs) (\<lambda>cs. Val (c # cs)))"

text \<open>The columns are kept until the next line.\<close>

definition cr_columns :: "CsvReader \<Rightarrow> (string list \<times> CsvReader) cxx" where
  "cr_columns r =
     (if cr_has_data r \<and> cr_cols r = [] then
        cxx_bind (unescape_cols (split (cr_splitter r) (cr_line r) (length (cr_line r)))) (\<lambda>cols.
          Val (cols, r\<lparr> cr_cols := cols \<rparr>))
      else Val (cr_cols r, r))"

text \<open>\<open>parse_time\<close> is \<open>Timestamp::from_str\<close>.\<close>

definition cr_get_read_timestamp :: "(string \<Rightarrow> string \<Rightarrow> int option) \<Rightarrow> CsvReader \<Rightarrow> (int option \<times> CsvReader) cxx" where
  "cr_get_read_timestamp parse_time r =
     (if \<not> cr_has_data r \<or> cr_timestamp_col r < 0 then Val (None, r)
      else cxx_bind (cr_columns r) (\<lambda>(cols, r).
        if int (length cols) \<le> cr_timestamp_col r then Val (None, r)
        else let time_str = cols ! nat (cr_timestamp_col r) in
          if cr_timestamp_fmt r = [] then cxx_bind (convert_from_string (TSigned 64) time_str 10) (\<lambda>v. Val (v, r))
          else Val (parse_time time_str (cr_timestamp_fmt r), r)))"

section \<open>Whole files\<close>

definition csv_splitter :: "string \<Rightarrow> bool \<Rightarrow> Splitter" where
  "csv_splitter delimiter empty_delimitations =
     \<lparr> sp_escape_char = 34, sp_empty_delimitations = empty_delimitations, sp_delimiter = delimiter,
       sp_open_sequences = [Q], sp_compare_method = None \<rparr>"

definition is_empty_or_comment :: "char \<Rightarrow> string \<Rightarrow> bool" where
  "is_empty_or_comment comment_char line \<longleftrightarrow> line = [] \<or> hd line = comment_char"

fun csv_rows :: "int \<Rightarrow> char \<Rightarrow> string list \<Rightarrow> string list list cxx" where
  "csv_rows delimiter comment_char [] = Val []"
| "csv_rows delimiter comment_char (line # lines) =
     (if is_empty_or_comment comment_char line then csv_rows delimiter comment_char lines
      else cxx_bind (unescape_cols (split (csv_splitter [char_of (delimiter mod 256)] True) line (length line))) (\<lambda>cols.
           cxx_bind (csv_rows delimiter comment_char lines) (\<lambda>rows. Val (cols # rows))))"

text \<open>The number of rows that is reserved is below 0, that is huge, when a skipped header is counted twice or there is none.\<close>

definition csv_from_string :: "string \<Rightarrow> bool \<Rightarrow> int \<Rightarrow> char \<Rightarrow> string list list cxx" where
  "csv_from_string content remove_header delimiter comment_char =
     (let lines = split (csv_splitter [LF] False) content (length content) in
      if length lines < (if remove_header then 1 else 0) + length (filter (is_empty_or_comment comment_char) lines)
      then Raise LengthError
      else csv_rows delimiter comment_char (if remove_header then tl lines else lines))"



section \<open>Quotes\<close>

lemma find_char_not_escaped_first:
  assumes "Q \<notin> set u"
  shows "find_char_not_escaped (u @ Q # v) Q 34 = int (length u)"
proof -
  have f: "find_char (u @ Q # v) Q 0 = Some (length u)"
    by (rule find_if_from_append) (use assms in auto)
  have "\<not> is_escaped_char (u @ Q # v) (length u) 34"
  proof (cases u rule: rev_cases)
    case (snoc w c)
    then have "c \<noteq> Q"
      using assms by auto
    then have "c_int c \<noteq> 34"
      using c_int_inj [of c Q] by (auto simp: c_int_def)
    then show ?thesis
      using snoc by (simp add: is_escaped_char_def nth_append)
  qed (simp add: is_escaped_char_def)
  then show ?thesis
    unfolding find_char_not_escaped_def by (subst find_char_not_escaped_loop.simps) (simp add: f)
qed

lemma find_char_not_escaped_none: "Q \<notin> set u \<Longrightarrow> find_char_not_escaped u Q 34 = -1"
proof -
  assume "Q \<notin> set u"
  then have "find_char u Q 0 = None"
    by (intro find_if_from_none) auto
  then show ?thesis
    unfolding find_char_not_escaped_def by (subst find_char_not_escaped_loop.simps) (simp only: option.simps)
qed

lemma count_quotes: "count_unescaped_quotes view = count_list view Q"
proof (induction view rule: count_unescaped_quotes.induct)
  case (1 view)
  show ?case
  proof (cases "Q \<in> set view")
    case True
    then obtain u v where v: "view = u @ Q # v" "Q \<notin> set u"
      by (meson split_list_first)
    then show ?thesis
      using 1 find_char_not_escaped_first [of u v] count_notin [of Q u]
      by (subst count_unescaped_quotes.simps) simp
  next
    case False
    then show ?thesis
      by (subst count_unescaped_quotes.simps) (simp add: find_char_not_escaped_none)
  qed
qed

text \<open>A text with its quotes doubled.\<close>

definition doubled :: "string \<Rightarrow> string" where
  "doubled v = concat (map (\<lambda>c. if c = Q then [Q, Q] else [c]) v)"

fun no_double_quotes :: "string \<Rightarrow> bool" where
  "no_double_quotes (a # b # s) \<longleftrightarrow> \<not> (a = Q \<and> b = Q) \<and> no_double_quotes (b # s)"
| "no_double_quotes _ \<longleftrightarrow> True"

lemma doubled_simps [simp]:
  "doubled [] = []" "doubled (c # v) = (if c = Q then [Q, Q] else [c]) @ doubled v" "doubled (u @ v) = doubled u @ doubled v"
  by (simp_all add: doubled_def)

lemma replace_doubles: "no_double_quotes v \<Longrightarrow> replace v [Q] [Q, Q] = doubled v"
  unfolding replace_eq
proof (induction v rule: no_double_quotes.induct)
  case (1 a b s)
  show ?case
  proof (cases "a = Q")
    case True
    then have "b \<noteq> Q"
      using 1 by simp
    then have "replace_spec [Q] [Q, Q] (b # s) = b # replace_spec [Q] [Q, Q] s"
      by (subst replace_spec.simps) simp
    then have "replace_spec [Q] [Q, Q] s = doubled s"
      using 1 True \<open>b \<noteq> Q\<close> by simp
    then show ?thesis
      using True \<open>b \<noteq> Q\<close> by (subst replace_spec.simps) simp
  next
    case False
    then show ?thesis
      using 1 by (subst replace_spec.simps) simp
  qed
qed (subst replace_spec.simps; simp)+



section \<open>Splitting a row\<close>

text \<open>An escaped cell is a sequence of enclosed texts.\<close>

fun segments :: "string \<Rightarrow> string list" where
  "segments [] = [[]]"
| "segments (c # v) = (if c = Q then [] # segments v else (c # hd (segments v)) # tl (segments v))"


lemma segments_ne [simp]: "segments v \<noteq> []"
  by (cases v) auto



text \<open>A text without NUL bytes and backslashes, whose splitter opens at quotes.\<close>

definition quotable :: "string \<Rightarrow> bool" where
  "quotable s \<longleftrightarrow> no_nul s \<and> CHR 0x5C \<notin> set s"

lemma quotable_simps [simp]:
  "quotable []" "quotable (c # s) \<longleftrightarrow> c \<noteq> NUL \<and> c \<noteq> CHR 0x5C \<and> quotable s" "quotable (s @ t) \<longleftrightarrow> quotable s \<and> quotable t"
  by (auto simp: quotable_def)

















section \<open>Lines and rows\<close>






text \<open>The loop of \<open>read_next\<close> on what is left of the text.\<close>

function cr_scan :: "CsvReader \<Rightarrow> string \<Rightarrow> bool \<times> CsvReader \<times> string" where
  "cr_scan r p = (case next_line LF True p of
       None \<Rightarrow> (False, r, [])
     | Some (l, rest) \<Rightarrow> (case cr_take l r of (done_row, r) \<Rightarrow> if done_row then (True, r, rest) else cr_scan r rest))"
  by pat_completeness auto
termination
  by (relation "measure (\<lambda>(r, p). length p)") (auto dest: next_line_shorter)

declare cr_scan.simps [simp del]





section \<open>A file that is written is read back\<close>



















section \<open>What is not read back\<close>

text \<open>The last byte of a last line without line feed is taken for the line feed.\<close>

lemma last_byte_is_lost:
  "cr_comment r = 35 \<Longrightarrow> cr_line r = [] \<Longrightarrow> cr_scan r ''a,bc'' = (True, r\<lparr> cr_line := ''a,b'', cr_has_data := True \<rparr>, [])"
  by (simp add: cr_scan.simps [of r] next_line_def cr_take_def Let_def count_quotes c_isspace_def c_int_def)

text \<open>The escaped empty text is read as a quote.\<close>

lemma empty_cell_is_a_quote: "remove_escape_char (escape_str []) 34 = Val [Q]"
  by (simp add: escape_str_def replace_doubles remove_escape_char_eq c_int_def)

text \<open>An opening quote is never closed by a quote after a backslash.\<close>

lemma backslash_hides_quote:
  "split \<lparr> sp_escape_char = 92, sp_empty_delimitations = True, sp_delimiter = '','', sp_open_sequences = [Q], sp_compare_method = None \<rparr>
     [Q, CHR 0x5C, Q, CHR '','', CHR ''x''] 5 = [[Q, CHR 0x5C, Q, CHR '','', CHR ''x'']]"
  by code_simp

text \<open>The header of an empty text cannot be removed.\<close>

lemma empty_text_header: "csv_from_string [] True 44 (CHR ''#'') = Raise LengthError"
  by code_simp

end
