(* ===== verification/Sihd_Float.thy ===== *)
theory Sihd_Float
  imports Complex_Main Sihd_Chars
begin

text \<open>
  Arithmetic of \<open>float\<close> and \<open>double\<close>: numbers are decoded from their bits and computed with the rounding
  to nearest, ties to even, of IEEE 754. Zeros have no sign, which no comparison tells apart. A conversion
  to an integer truncates, and is undefined when the result does not fit.
\<close>

section \<open>Numbers and rounding\<close>

datatype fp = NaN | Inf bool | Fin rat

definition pow2 :: "int \<Rightarrow> rat" where
  "pow2 k = (if k \<ge> 0 then 2 ^ nat k else 1 / 2 ^ nat (- k))"

function int_log2 :: "int \<Rightarrow> int" where
  "int_log2 n = (if n < 2 then 0 else int_log2 (n div 2) + 1)"
  by pat_completeness auto
termination
  by (relation "measure nat") auto

declare int_log2.simps [simp del]

text \<open>The exponent of a positive number.\<close>

definition rat_log2 :: "rat \<Rightarrow> int" where
  "rat_log2 q =
     (if q \<ge> 1 then int_log2 \<lfloor>q\<rfloor>
      else let c = \<lceil>1 / q\<rceil>; l = int_log2 c in - (if 2 ^ nat l = c then l else l + 1))"

definition round_even :: "rat \<Rightarrow> int" where
  "round_even q = (let f = \<lfloor>q\<rfloor>; r = q - of_int f in
     if r < 1 / 2 \<or> r = 1 / 2 \<and> even f then f else f + 1)"

text \<open>A format with \<open>eb\<close> bits of exponent and \<open>mb\<close> bits behind the point.\<close>

definition fp_bias :: "nat \<Rightarrow> int" where
  "fp_bias eb = 2 ^ (eb - 1) - 1"

definition fp_decode :: "nat \<Rightarrow> nat \<Rightarrow> int \<Rightarrow> fp" where
  "fp_decode eb mb n =
     (let negative = odd (n div 2 ^ (eb + mb)); e = n div 2 ^ mb mod 2 ^ eb; m = n mod 2 ^ mb;
          sign = (if negative then - 1 else 1) in
      if e = 2 ^ eb - 1 then (if m = 0 then Inf negative else NaN)
      else if e = 0 then Fin (sign * of_int m * pow2 (1 - fp_bias eb - int mb))
      else Fin (sign * of_int (2 ^ mb + m) * pow2 (e - fp_bias eb - int mb)))"

definition fp_round :: "nat \<Rightarrow> nat \<Rightarrow> rat \<Rightarrow> fp" where
  "fp_round eb mb q =
     (if q = 0 then Fin 0
      else
        let ulp = pow2 (max (rat_log2 \<bar>q\<bar> - int mb) (1 - fp_bias eb - int mb));
            r = of_int (round_even (q / ulp)) * ulp in
        if \<bar>r\<bar> \<ge> pow2 (fp_bias eb + 1) then Inf (q < 0) else Fin r)"

fun fp_add :: "nat \<Rightarrow> nat \<Rightarrow> fp \<Rightarrow> fp \<Rightarrow> fp" where
  "fp_add eb mb (Fin p) (Fin q) = fp_round eb mb (p + q)"
| "fp_add eb mb (Fin p) y = y"
| "fp_add eb mb NaN y = NaN"
| "fp_add eb mb (Inf s) (Fin q) = Inf s"
| "fp_add eb mb (Inf s) (Inf s') = (if s = s' then Inf s else NaN)"
| "fp_add eb mb (Inf s) NaN = NaN"

text \<open>Products and quotients with a finite number that is not 0 are all that the code forms.\<close>

fun fp_mult :: "nat \<Rightarrow> nat \<Rightarrow> fp \<Rightarrow> rat \<Rightarrow> fp" where
  "fp_mult eb mb (Fin p) q = fp_round eb mb (p * q)"
| "fp_mult eb mb (Inf s) q = Inf (s \<noteq> (q < 0))"
| "fp_mult eb mb NaN q = NaN"

fun fp_div :: "nat \<Rightarrow> nat \<Rightarrow> fp \<Rightarrow> rat \<Rightarrow> fp" where
  "fp_div eb mb (Fin p) q = fp_round eb mb (p / q)"
| "fp_div eb mb (Inf s) q = Inf (s \<noteq> (q < 0))"
| "fp_div eb mb NaN q = NaN"

fun fp_minus :: "fp \<Rightarrow> fp" where
  "fp_minus (Fin p) = Fin (- p)"
| "fp_minus (Inf s) = Inf (\<not> s)"
| "fp_minus NaN = NaN"

fun fp_abs :: "fp \<Rightarrow> fp" where
  "fp_abs (Fin p) = Fin \<bar>p\<bar>"
| "fp_abs (Inf s) = Inf False"
| "fp_abs NaN = NaN"

fun fp_less :: "fp \<Rightarrow> fp \<Rightarrow> bool" where
  "fp_less (Fin p) (Fin q) \<longleftrightarrow> p < q"
| "fp_less (Fin p) (Inf s) \<longleftrightarrow> \<not> s"
| "fp_less (Inf s) (Fin q) \<longleftrightarrow> s"
| "fp_less (Inf s) (Inf s') \<longleftrightarrow> s \<and> \<not> s'"
| "fp_less _ _ \<longleftrightarrow> False"

definition fp_eq :: "fp \<Rightarrow> fp \<Rightarrow> bool" where
  "fp_eq x y \<longleftrightarrow> x \<noteq> NaN \<and> x = y"

definition fp_to_int64 :: "fp \<Rightarrow> int cxx" where
  "fp_to_int64 x = (case x of
     Fin q \<Rightarrow> let t = (if q < 0 then \<lceil>q\<rceil> else \<lfloor>q\<rfloor>) in if - (2 ^ 63) \<le> t \<and> t < 2 ^ 63 then Val t else Undef
   | _ \<Rightarrow> Undef)"

definition fits_int64 :: "int \<Rightarrow> bool" where
  "fits_int64 k \<longleftrightarrow> - (2 ^ 63) \<le> k \<and> k < 2 ^ 63"

text \<open>The result of an operation on signed integers, which must not overflow.\<close>

definition int64 :: "int \<Rightarrow> int cxx" where
  "int64 k = (if fits_int64 k then Val k else Undef)"

text \<open>\<open>float\<close> and \<open>double\<close>; a \<open>float\<close> is converted to a \<open>double\<close> without loss.\<close>

abbreviation f_round :: "rat \<Rightarrow> fp" where "f_round \<equiv> fp_round 8 23"
abbreviation d_round :: "rat \<Rightarrow> fp" where "d_round \<equiv> fp_round 11 52"
abbreviation f_add :: "fp \<Rightarrow> fp \<Rightarrow> fp" where "f_add \<equiv> fp_add 8 23"
abbreviation d_add :: "fp \<Rightarrow> fp \<Rightarrow> fp" where "d_add \<equiv> fp_add 11 52"

definition f_epsilon :: fp where "f_epsilon = Fin (pow2 (- 23))"
definition d_epsilon :: fp where "d_epsilon = Fin (pow2 (- 52))"


section \<open>Rounding\<close>

lemma pow2_simps: "pow2 0 = 1" "pow2 k > 0" "pow2 (k + 1) = 2 * pow2 k" "pow2 (int n) = 2 ^ n"
proof -
  show "pow2 (k + 1) = 2 * pow2 k"
  proof (cases "k \<ge> 0")
    case True
    then have "nat (k + 1) = Suc (nat k)" by simp
    with True show ?thesis by (simp add: pow2_def)
  next
    case False
    then have "nat (- k) = Suc (nat (- (k + 1)))" by simp
    with False show ?thesis by (cases "k = - 1") (simp_all add: pow2_def)
  qed
qed (simp_all add: pow2_def)

lemma pow2_add: "pow2 (j + k) = pow2 j * pow2 k"
proof (induction k rule: int_induct [of _ 0])
  case (step1 i)
  have "pow2 (j + (i + 1)) = 2 * pow2 (j + i)" using pow2_simps(3) [of "j + i"] by (simp add: add.assoc)
  with step1 show ?case by (simp add: pow2_simps(3))
next
  case (step2 i)
  have "pow2 (j + i) = 2 * pow2 (j + (i - 1))" using pow2_simps(3) [of "j + (i - 1)"] by (simp add: algebra_simps)
  moreover have "pow2 i = 2 * pow2 (i - 1)" using pow2_simps(3) [of "i - 1"] by simp
  ultimately show ?case using step2 by simp
qed (simp add: pow2_simps(1))

lemma pow2_mono: "j \<le> k \<Longrightarrow> pow2 j \<le> pow2 k"
  using pow2_add [of j "k - j"] pow2_simps(2) [of j] by (simp add: pow2_def)

lemma int_log2_bounds: "1 \<le> n \<Longrightarrow> 0 \<le> int_log2 n \<and> 2 ^ nat (int_log2 n) \<le> n \<and> n < 2 ^ nat (int_log2 n + 1)"
proof (induction n rule: int_log2.induct)
  case (1 n)
  show ?case
  proof (cases "n < 2")
    case True
    with "1.prems" show ?thesis by (simp add: int_log2.simps [of n])
  next
    case False
    let ?l = "int_log2 (n div 2)"
    have IH: "0 \<le> ?l" "2 ^ nat ?l \<le> n div 2" "n div 2 < 2 ^ nat (?l + 1)" using "1.IH" False by simp_all
    have l: "int_log2 n = ?l + 1" "nat (?l + 1) = Suc (nat ?l)" "nat (?l + 1 + 1) = Suc (nat (?l + 1))"
      using False IH(1) by (simp_all add: int_log2.simps [of n])
    have half: "2 * x \<le> n \<and> n < 2 * y" if "x \<le> n div 2" "n div 2 < y" for x y :: int
      using that by linarith
    show ?thesis unfolding l(1) using IH(1) half [OF IH(2,3)] l(2,3) by simp
  qed
qed

lemma rat_log2_bounds:
  assumes "0 < q"
  shows "pow2 (rat_log2 q) \<le> q \<and> q < pow2 (rat_log2 q + 1)"
proof (cases "1 \<le> q")
  case True
  then have f: "1 \<le> \<lfloor>q\<rfloor>" by simp
  let ?l = "int_log2 \<lfloor>q\<rfloor>"
  have l: "0 \<le> ?l" "2 ^ nat ?l \<le> \<lfloor>q\<rfloor>" "\<lfloor>q\<rfloor> + 1 \<le> 2 ^ nat (?l + 1)" using int_log2_bounds [OF f] by simp_all
  have "of_int (2 ^ nat ?l) \<le> q" using l(2) by (simp add: le_floor_iff)
  moreover have "q < of_int (\<lfloor>q\<rfloor> + 1)" by linarith
  moreover have "of_int (\<lfloor>q\<rfloor> + 1) \<le> (of_int (2 ^ nat (?l + 1)) :: rat)" using l(3) by (simp only: of_int_le_iff)
  ultimately show ?thesis using True l(1) by (simp add: rat_log2_def pow2_def)
next
  case False
  let ?c = "\<lceil>1 / q\<rceil>"
  let ?l = "int_log2 ?c"
  define k where "k = (if 2 ^ nat ?l = ?c then ?l else ?l + 1)"
  have inv: "1 < 1 / q" using False assms by (simp add: field_simps)
  then have c: "1 < ?c" by (simp add: less_ceiling_iff)
  then have l: "0 \<le> ?l" "2 ^ nat ?l \<le> ?c" "?c < 2 ^ nat (?l + 1)" using int_log2_bounds [OF less_imp_le [OF c]] by blast+
  have k: "0 < k \<and> ?c \<le> 2 ^ nat k \<and> 2 ^ nat (k - 1) < ?c"
  proof (cases "2 ^ nat ?l = ?c")
    case True
    then have "0 < ?l" using c l(1) by (cases "?l = 0") auto
    then have "(2::int) ^ nat (?l - 1) < 2 ^ nat ?l" by (intro power_strict_increasing) auto
    then show ?thesis using True \<open>0 < ?l\<close> unfolding k_def by simp
  next
    case False
    then show ?thesis using l unfolding k_def by simp
  qed
  have "1 / q \<le> of_int (2 ^ nat k)" using k by (simp add: ceiling_le_iff)
  then have le: "1 / 2 ^ nat k \<le> q" using assms by (simp add: field_simps)
  have "of_int (2 ^ nat (k - 1)) < 1 / q" using k by (simp add: less_ceiling_iff)
  then have less: "q < 1 / 2 ^ nat (k - 1)" using assms by (simp add: field_simps)
  have log: "rat_log2 q = - k" using False by (simp add: rat_log2_def k_def Let_def)
  show ?thesis
    unfolding log using le less k by (cases "k = 1") (simp_all add: pow2_def)
qed

lemma round_even_close: "\<bar>of_int (round_even q) - q\<bar> \<le> 1 / 2"
proof -
  have "of_int \<lfloor>q\<rfloor> \<le> q" "q < of_int \<lfloor>q\<rfloor> + 1" by linarith+
  then show ?thesis
    by (cases "q - of_int \<lfloor>q\<rfloor> < 1 / 2 \<or> q - of_int \<lfloor>q\<rfloor> = 1 / 2 \<and> even \<lfloor>q\<rfloor>") (auto simp: round_even_def Let_def abs_le_iff)
qed

lemma round_even_of_int [simp]: "round_even (of_int k) = k"
  by (simp add: round_even_def)


text \<open>
  Rounding to \<open>double\<close> away from its limits: the distance to the number is at most half a unit in the last place,
  and multiples of a power of two that are exact at this size are not passed.
\<close>

definition d_ulp :: "rat \<Rightarrow> rat" where
  "d_ulp q = pow2 (max (rat_log2 \<bar>q\<bar> - 52) (- 1074))"

lemma d_ulp_pos: "0 < d_ulp q"
  by (simp add: d_ulp_def pow2_simps)

lemma d_round_ulp:
  "q \<noteq> 0 \<Longrightarrow> d_round q = (let r = of_int (round_even (q / d_ulp q)) * d_ulp q in
     if \<bar>r\<bar> \<ge> pow2 1024 then Inf (q < 0) else Fin r)"
  by (simp add: fp_round_def d_ulp_def fp_bias_def Let_def)

lemma rat_log2_less: "0 < q \<Longrightarrow> q < pow2 k \<Longrightarrow> rat_log2 q < k"
  using rat_log2_bounds [of q] pow2_mono [of k "rat_log2 q"] by (meson leD leI le_less_trans less_le_trans)

lemma rat_log2_ge: "pow2 k \<le> q \<Longrightarrow> k \<le> rat_log2 q"
  using rat_log2_bounds [of q] pow2_mono [of "rat_log2 q + 1" k] pow2_simps(2) [of k]
  by (meson leD leI le_less_trans less_le_trans zless_imp_add1_zle)

lemma d_ulp_le: "pow2 (- 1022) \<le> \<bar>q\<bar> \<Longrightarrow> d_ulp q \<le> \<bar>q\<bar> * pow2 (- 52)"
proof -
  assume q: "pow2 (- 1022) \<le> \<bar>q\<bar>"
  then have "- 1022 \<le> rat_log2 \<bar>q\<bar>" by (rule rat_log2_ge)
  then have "d_ulp q = pow2 (rat_log2 \<bar>q\<bar>) * pow2 (- 52)"
    using pow2_add [of "rat_log2 \<bar>q\<bar>" "- 52"] by (simp add: d_ulp_def max_absorb1)
  moreover have "0 < \<bar>q\<bar>" using q pow2_simps(2) [of "- 1022"] by linarith
  ultimately show ?thesis using rat_log2_bounds [of "\<bar>q\<bar>"] pow2_simps(2) [of "- 52"] by simp
qed

lemma multiple_of_ulp:
  assumes "q \<noteq> 0" "\<bar>q\<bar> < pow2 (53 + s)" "- 1074 \<le> s"
  shows "\<exists>j::int. of_int k * pow2 s = of_int j * d_ulp q"
proof -
  let ?e = "max (rat_log2 \<bar>q\<bar> - 52) (- 1074)"
  have "rat_log2 \<bar>q\<bar> < 53 + s" using assms rat_log2_less by simp
  then have e: "?e \<le> s" using assms(3) by simp
  have "pow2 s = pow2 (s - ?e) * d_ulp q" using pow2_add [of "s - ?e" ?e] by (simp add: d_ulp_def)
  also have "pow2 (s - ?e) = of_int (2 ^ nat (s - ?e))" using e by (simp add: pow2_def)
  finally have "of_int k * pow2 s = of_int (k * 2 ^ nat (s - ?e)) * d_ulp q" by simp
  then show ?thesis by blast
qed

lemma round_even_mono_int: "of_int j \<le> q \<Longrightarrow> j \<le> round_even q" "q \<le> of_int j \<Longrightarrow> round_even q \<le> j"
proof -
  show "of_int j \<le> q \<Longrightarrow> j \<le> round_even q" 
  proof -
    assume "of_int j \<le> q"
    then have "j \<le> \<lfloor>q\<rfloor>" by (simp add: le_floor_iff)
    then show ?thesis by (simp add: round_even_def Let_def)
  qed
  assume q: "q \<le> of_int j"
  show "round_even q \<le> j"
  proof (cases "q = of_int j")
    case False
    then have "\<lfloor>q\<rfloor> < j" using q by (simp add: floor_less_iff)
    then show ?thesis by (simp add: round_even_def Let_def)
  qed simp
qed

lemma d_round_between:
  assumes q: "q \<noteq> 0" "\<bar>q\<bar> < pow2 (53 + s)" "- 1074 \<le> s" and r: "d_round q = Fin r"
  shows "of_int k * pow2 s \<le> q \<Longrightarrow> of_int k * pow2 s \<le> r" "q \<le> of_int k * pow2 s \<Longrightarrow> r \<le> of_int k * pow2 s"
proof -
  have r: "r = of_int (round_even (q / d_ulp q)) * d_ulp q"
    using r d_round_ulp [OF q(1)] by (simp add: Let_def split: if_splits)
  obtain j :: int where j: "of_int k * pow2 s = of_int j * d_ulp q" using multiple_of_ulp [OF q] by blast
  show "of_int k * pow2 s \<le> r" if "of_int k * pow2 s \<le> q"
  proof -
    have "of_int j \<le> q / d_ulp q" using that d_ulp_pos [of q] unfolding j by (simp add: field_simps)
    then have "j \<le> round_even (q / d_ulp q)" by (rule round_even_mono_int)
    then show ?thesis unfolding j r using d_ulp_pos [of q] by simp
  qed
  show "r \<le> of_int k * pow2 s" if "q \<le> of_int k * pow2 s"
  proof -
    have "q / d_ulp q \<le> of_int j" using that d_ulp_pos [of q] unfolding j by (simp add: field_simps)
    then have "round_even (q / d_ulp q) \<le> j" by (rule round_even_mono_int)
    then show ?thesis unfolding j r using d_ulp_pos [of q] by simp
  qed
qed

lemma d_round_near:
  assumes "q = 0 \<or> pow2 (- 1022) \<le> \<bar>q\<bar>" "\<bar>q\<bar> \<le> pow2 64"
  shows "\<exists>r. d_round q = Fin r \<and> \<bar>r - q\<bar> \<le> \<bar>q\<bar> * pow2 (- 53)"
proof (cases "q = 0")
  case True
  then show ?thesis by (simp add: fp_round_def)
next
  case False
  let ?r = "of_int (round_even (q / d_ulp q)) * d_ulp q"
  have u: "0 < d_ulp q" by (rule d_ulp_pos)
  have "?r - q = (of_int (round_even (q / d_ulp q)) - q / d_ulp q) * d_ulp q" using u by (simp add: field_simps)
  then have "\<bar>?r - q\<bar> = \<bar>of_int (round_even (q / d_ulp q)) - q / d_ulp q\<bar> * d_ulp q" using u by (simp add: abs_mult)
  also have "\<dots> \<le> 1 / 2 * d_ulp q" using round_even_close [of "q / d_ulp q"] u by (intro mult_right_mono) simp_all
  also have "\<dots> \<le> 1 / 2 * (\<bar>q\<bar> * pow2 (- 52))" using d_ulp_le [of q] assms False by simp
  also have "\<dots> = \<bar>q\<bar> * pow2 (- 53)" using pow2_simps(3) [of "- 53"] by simp
  finally have err: "\<bar>?r - q\<bar> \<le> \<bar>q\<bar> * pow2 (- 53)" .
  have "pow2 (- 53) \<le> pow2 0" by (rule pow2_mono) simp
  then have "\<bar>q\<bar> * pow2 (- 53) \<le> \<bar>q\<bar> * 1" by (intro mult_left_mono) (simp_all add: pow2_simps)
  then have "\<bar>?r\<bar> \<le> 2 * pow2 64" using err assms(2) by linarith
  also have "\<dots> < pow2 1024" using pow2_mono [of 66 1024] pow2_simps(3) [of 64] pow2_simps(3) [of 65] pow2_simps(2) [of 64] by simp
  finally show ?thesis using err d_round_ulp [OF False] by (auto simp: Let_def)
qed

text \<open>A multiple of \<open>2 ^ s\<close> below \<open>2 ^ (53 + s)\<close> is exact.\<close>

lemma d_round_exact:
  assumes "\<bar>of_int k * pow2 s\<bar> < pow2 (53 + s)" "- 1022 \<le> s" "\<bar>of_int k * pow2 s\<bar> \<le> pow2 64"
  shows "d_round (of_int k * pow2 s) = Fin (of_int k * pow2 s)"
proof (cases "k = 0")
  case True
  then show ?thesis by (simp add: fp_round_def)
next
  case False
  let ?q = "of_int k * pow2 s"
  have "pow2 (- 1022) \<le> pow2 s" using assms(2) by (rule pow2_mono)
  moreover have "1 * pow2 s \<le> \<bar>of_int k\<bar> * pow2 s" using False pow2_simps(2) [of s]
    by (intro mult_right_mono) (simp_all add: less_imp_le flip: of_int_abs)
  ultimately have "pow2 (- 1022) \<le> \<bar>?q\<bar>" using pow2_simps(2) [of s] by (simp only: abs_mult abs_of_pos mult_1)
  then obtain r where r: "d_round ?q = Fin r" using d_round_near [of ?q] assms(3) by blast
  have q: "?q \<noteq> 0" using False pow2_simps(2) [of s] by simp
  have "- 1074 \<le> s" using assms(2) by simp
  from d_round_between [OF q assms(1) this r, of k] r show ?thesis by simp
qed

end
