(* ===== verification/Sihd_Value.thy ===== *)
theory Sihd_Value
  imports Sihd_Float Sihd_Message Sihd_StrNum Sihd_Str
begin

text \<open>
  Values of util/Value.cpp: a type and a union of 8 bytes, low end first. Numbers of floating point are those of
  \<open>Sihd_Float\<close>. Parsing of
  floating point texts, \<open>to_float\<close> and \<open>to_double\<close> of the platform, is an argument.
\<close>

section \<open>Values\<close>

record Value =
  val_type :: Type
  val_n :: u64

text \<open>The members \<open>f\<close>, \<open>d\<close> and \<open>n\<close> of the union.\<close>

definition val_f :: "Value \<Rightarrow> fp" where
  "val_f v = fp_decode 8 23 (uint (val_n v) mod 2 ^ 32)"

definition val_d :: "Value \<Rightarrow> fp" where
  "val_d v = fp_decode 11 52 (uint (val_n v))"

definition val_int :: "Value \<Rightarrow> int" where
  "val_int v = sint (val_n v)"

definition empty_Value :: Value where
  "empty_Value = \<lparr> val_type = TYPE_NONE, val_n = 0 \<rparr>"

text \<open>A fundamental value converts to the 64 bits of \<open>data.n\<close>, with its sign.\<close>

definition new_Value :: "Type \<Rightarrow> int \<Rightarrow> Value" where
  "new_Value t k = \<lparr> val_type = t, val_n = word_of_int k \<rparr>"

definition value_of_float :: "u32 \<Rightarrow> Value" where
  "value_of_float w = \<lparr> val_type = TYPE_FLOAT, val_n = ucast w \<rparr>"

definition value_of_double :: "u64 \<Rightarrow> Value" where
  "value_of_double w = \<lparr> val_type = TYPE_DOUBLE, val_n = w \<rparr>"

text \<open>Bytes in memory, the low end first.\<close>

fun le_int :: "u8 list \<Rightarrow> int" where
  "le_int [] = 0"
| "le_int (b # bs) = uint b + 256 * le_int bs"

fun le_bytes :: "nat \<Rightarrow> int \<Rightarrow> u8 list" where
  "le_bytes 0 k = []"
| "le_bytes (Suc n) k = of_int k # le_bytes n (k div 256)"

text \<open>The bytes of a buffer; reading behind it is undefined.\<close>

definition value_from_buffer :: "u8 list \<Rightarrow> Type \<Rightarrow> Value cxx" where
  "value_from_buffer buf t =
     (if length buf < dt_size t then Undef
      else Val \<lparr> val_type = t, val_n = of_int (le_int (take (dt_size t) buf)) \<rparr>)"

definition value_empty :: "Value \<Rightarrow> bool" where
  "value_empty v \<longleftrightarrow> val_type v = TYPE_NONE"

definition value_clear :: "Value \<Rightarrow> Value" where
  "value_clear v = v\<lparr> val_type := TYPE_NONE, val_n := 0 \<rparr>"

definition is_float :: "Value \<Rightarrow> bool" where
  "is_float v \<longleftrightarrow> val_type v = TYPE_FLOAT \<or> val_type v = TYPE_DOUBLE"

section \<open>Texts\<close>

definition from_bool_string :: "string \<Rightarrow> Value cxx" where
  "from_bool_string s = cxx_bind (convert_from_string TBool s 10) (\<lambda>r.
     Val (case r of Some k \<Rightarrow> new_Value TYPE_BOOL k | None \<Rightarrow> empty_Value))"

definition from_char_string :: "string \<Rightarrow> Value cxx" where
  "from_char_string s = cxx_bind (convert_from_string TChar s 10) (\<lambda>r.
     Val (case r of Some k \<Rightarrow> new_Value TYPE_CHAR k | None \<Rightarrow> empty_Value))"

definition from_int_string :: "string \<Rightarrow> Value cxx" where
  "from_int_string s =
     cxx_bind (starts_with s ''0b'' '''') (\<lambda>is_binary.
     cxx_bind (starts_with s ''0x'' '''') (\<lambda>is_hexa.
     cxx_bind (starts_with s ''u'' '''') (\<lambda>is_u.
       let (prefix_size, base, is_signed) =
             (if is_binary then (2, 2, True) else if is_hexa then (2, 16, True)
              else if is_u then (1, 10, False) else (0, 10, True)) in
       if is_signed
       then cxx_bind (convert_from_string (TSigned 64) (drop prefix_size (c_str s)) base) (\<lambda>r.
              Val (case r of Some k \<Rightarrow> new_Value TYPE_LONG k | None \<Rightarrow> empty_Value))
       else cxx_bind (convert_from_string (TUnsigned 64) (drop prefix_size (c_str s)) base) (\<lambda>r.
              Val (case r of Some k \<Rightarrow> new_Value TYPE_ULONG k | None \<Rightarrow> empty_Value)))))"

definition from_float_string :: "(string \<Rightarrow> u32 option) \<Rightarrow> (string \<Rightarrow> u64 option) \<Rightarrow> string \<Rightarrow> Value" where
  "from_float_string to_float to_double s =
     (if CHR ''.'' \<notin> set s then empty_Value
      else if ends_with s ''f'' ''''
      then (case to_float s of Some w \<Rightarrow> value_of_float w | None \<Rightarrow> empty_Value)
      else (case to_double s of Some w \<Rightarrow> value_of_double w | None \<Rightarrow> empty_Value))"

definition from_any_string :: "(string \<Rightarrow> u32 option) \<Rightarrow> (string \<Rightarrow> u64 option) \<Rightarrow> string \<Rightarrow> Value cxx" where
  "from_any_string to_float to_double s =
     (let try_next = (\<lambda>f v. if value_empty v then f s else Val v) in
      cxx_bind (try_next from_int_string (from_float_string to_float to_double s)) (\<lambda>v.
      cxx_bind (try_next from_bool_string v) (try_next from_char_string)))"

section \<open>Comparison\<close>

text \<open>The result of \<open>this == other ? 0 : this < other ? -1 : 1\<close>.\<close>

definition three_way :: "fp \<Rightarrow> fp \<Rightarrow> int" where
  "three_way x y = (if fp_eq x y then 0 else if fp_less x y then - 1 else 1)"

text \<open>With a number that has been converted to \<open>int64_t\<close>.\<close>

definition compare_int :: "int \<Rightarrow> Value \<Rightarrow> int" where
  "compare_int c v =
     (if val_type v = TYPE_FLOAT then three_way (val_f v) (f_round (of_int c))
      else if val_type v = TYPE_DOUBLE then three_way (val_d v) (d_round (of_int c))
      else if val_int v = c then 0 else if val_int v < c then - 1 else 1)"

definition compare_num :: "fp \<Rightarrow> Value \<Rightarrow> int cxx" where
  "compare_num x v = cxx_bind (fp_to_int64 x) (\<lambda>c. Val (compare_int c v))"

text \<open>Equal when closer than \<open>epsilon\<close>; the arithmetic is that of the wider operand.\<close>

definition epsilon_compare :: "(fp \<Rightarrow> fp \<Rightarrow> fp) \<Rightarrow> fp \<Rightarrow> fp \<Rightarrow> fp \<Rightarrow> int" where
  "epsilon_compare add epsilon x y =
     (if fp_less (fp_abs (add x (fp_minus y))) epsilon then 0 else if fp_less (add x epsilon) y then - 1 else 1)"

definition compare_float_epsilon :: "fp \<Rightarrow> fp \<Rightarrow> Value \<Rightarrow> int cxx" where
  "compare_float_epsilon y epsilon v =
     (if val_type v = TYPE_FLOAT then Val (epsilon_compare f_add epsilon (val_f v) y)
      else if val_type v = TYPE_DOUBLE then Val (epsilon_compare d_add epsilon (val_d v) y)
      else compare_num y v)"

definition compare_double_epsilon :: "fp \<Rightarrow> fp \<Rightarrow> Value \<Rightarrow> int cxx" where
  "compare_double_epsilon y epsilon v =
     (if val_type v = TYPE_FLOAT then Val (epsilon_compare d_add epsilon (val_f v) y)
      else if val_type v = TYPE_DOUBLE then Val (epsilon_compare d_add epsilon (val_d v) y)
      else compare_num y v)"

definition compare_float :: "fp \<Rightarrow> Value \<Rightarrow> int cxx" where
  "compare_float y v =
     (if val_type v = TYPE_FLOAT then Val (epsilon_compare f_add f_epsilon (val_f v) y)
      else if val_type v = TYPE_DOUBLE then Val (epsilon_compare d_add d_epsilon (val_d v) y)
      else compare_num y v)"

definition compare_double :: "fp \<Rightarrow> Value \<Rightarrow> int cxx" where
  "compare_double y v =
     (if val_type v = TYPE_FLOAT then Val (epsilon_compare d_add f_epsilon (val_f v) y)
      else if val_type v = TYPE_DOUBLE then Val (epsilon_compare d_add d_epsilon (val_d v) y)
      else compare_num y v)"

definition compare_value :: "Value \<Rightarrow> Value \<Rightarrow> int cxx" where
  "compare_value other v =
     (if val_type other = TYPE_FLOAT then compare_float (val_f other) v
      else if val_type other = TYPE_DOUBLE then compare_double (val_d other) v
      else Val (compare_int (val_int other) v))"

section \<open>Integers compare as integers\<close>

lemma le_int_bounds: "0 \<le> le_int bs \<and> le_int bs < 256 ^ length bs"
proof (induction bs)
  case (Cons b bs)
  have "uint b < 256" using uint_lt2p [of b] by simp
  moreover have "256 * le_int bs + 256 \<le> 256 * 256 ^ length bs"
    using Cons by simp
  ultimately show ?case using Cons by simp
qed simp

lemma le_int_le_bytes: "0 \<le> k \<Longrightarrow> k < 256 ^ n \<Longrightarrow> le_int (le_bytes n k) = k"
proof (induction n arbitrary: k)
  case (Suc n)
  have "uint (of_int k :: u8) = k mod 256" by (simp add: uint_word_of_int)
  moreover have "0 \<le> k div 256" "k div 256 < 256 ^ n"
    using Suc.prems by (simp_all add: div_less_iff_less_mult mult.commute)
  ultimately show ?case using Suc.IH [of "k div 256"] by simp
qed simp

lemma length_le_bytes [simp]: "length (le_bytes n k) = n"
  by (induction n arbitrary: k) simp_all

lemma le_bytes_le_int: "le_bytes (length bs) (le_int bs) = bs"
proof (induction bs)
  case (Cons b bs)
  have b: "0 \<le> uint b" "uint b < 256" using uint_lt2p [of b] by simp_all
  then have "(uint b + 256 * le_int bs) div 256 = le_int bs" by simp
  moreover have "(256::u8) = 0" by code_simp
  then have "of_int (uint b + 256 * le_int bs) = b"
    by (simp only: of_int_add of_int_mult of_int_numeral mult_zero_left add_0_right word_of_int_uint)
  ultimately show ?case using Cons by simp
qed simp

lemma val_int_new_Value: "fits_int64 k \<Longrightarrow> val_int (new_Value t k) = k"
  unfolding val_int_def new_Value_def fits_int64_def by (simp, transfer) (simp add: signed_take_bit_int_eq_self)

text \<open>Two integers that fit compare by their order.\<close>

lemma compare_value_int:
  assumes "fits_int64 a" "fits_int64 b" "\<not> is_float (new_Value t a)" "\<not> is_float (new_Value u b)"
  shows "compare_value (new_Value u b) (new_Value t a) = Val (sgn (a - b))"
  using assms val_int_new_Value [OF assms(1), of t] val_int_new_Value [OF assms(2), of u]
  by (auto simp: compare_value_def compare_int_def is_float_def)

lemma val_int_from_buffer:
  assumes "dt_size t \<le> length buf" "dt_size t < 8"
  shows "\<exists>v. value_from_buffer buf t = Val v \<and> val_type v = t \<and> val_int v = le_int (take (dt_size t) buf)"
proof -
  let ?k = "le_int (take (dt_size t) buf)"
  have k: "0 \<le> ?k" "?k < 256 ^ dt_size t" using le_int_bounds [of "take (dt_size t) buf"] assms(1) by simp_all
  note k(2)
  also have "(256::int) ^ dt_size t \<le> 256 ^ 7" using assms(2) by (intro power_increasing) auto
  also have "\<dots> < 2 ^ 63" by simp
  finally have "fits_int64 ?k" using k(1) by (simp add: fits_int64_def)
  then show ?thesis
    using assms(1) val_int_new_Value [of ?k t] by (simp add: value_from_buffer_def new_Value_def)
qed

section \<open>Where values do not compare as numbers\<close>

text \<open>The buffer constructor does not extend the sign: an \<open>int\<close> of -1 in a channel compares above 0.\<close>

lemma negative_from_buffer_is_positive:
  "cxx_bind (value_from_buffer (le_bytes 4 (2 ^ 32 - 1)) TYPE_INT) (compare_value (new_Value TYPE_LONG 0)) = Val 1"
  "compare_value (new_Value TYPE_LONG 0) (new_Value TYPE_INT (- 1)) = Val (- 1)"
  by code_simp+

text \<open>Of 1 and the next larger \<open>float\<close> each compares above the other.\<close>

lemma neighbours_both_greater:
  "compare_value (value_of_float 0x3F800000) (value_of_float 0x3F800001) = Val 1"
  "compare_value (value_of_float 0x3F800001) (value_of_float 0x3F800000) = Val 1"
  by code_simp+

text \<open>An integer equals every floating point number with the same integral part.\<close>

lemma integer_equals_fraction:
  "compare_value (value_of_double 0x3FF8000000000000) (new_Value TYPE_LONG 1) = Val 0"
  "compare_value (new_Value TYPE_LONG 1) (value_of_double 0x3FF8000000000000) = Val 1"
  by code_simp+

text \<open>Unsigned numbers from \<open>2 ^ 63\<close> on are below all others.\<close>

lemma large_unsigned_is_negative:
  "compare_value (new_Value TYPE_LONG 1) (new_Value TYPE_ULONG (2 ^ 63)) = Val (- 1)"
  by code_simp

end
