(* ===== verification/Sihd_Observable.thy ===== *)
theory Sihd_Observable
  imports "HOL-Library.Sublist" Sihd_Chars
begin

text \<open>
  Observers that are notified in order and may add and remove observers while they are called
  (util/Observable.hpp). The list is a linked list: its nodes have identities, and an iterator is the node
  it stands at; using one whose node has been erased is undefined. What a handler does is a list of calls on the
  observable, which may depend on all that has happened before. The recursive mutex makes a notification
  with what its handlers do one block.
\<close>

section \<open>State\<close>

record 'o Observable =
  obs_nodes :: "(nat \<times> 'o) list"
  obs_next_node :: nat
  obs_current :: "'o option"
  obs_remove_current :: bool

datatype 'o obs_action = AddObserver 'o bool | RemoveObserver 'o | NotifyAgain

text \<open>What happens in the order in which it happens.\<close>

datatype 'o obs_event = Called 'o | Added 'o | Removed 'o

type_synonym 'o obs_state = "'o Observable \<times> 'o obs_event list"
type_synonym 'o obs_handler = "'o obs_event list \<Rightarrow> 'o \<Rightarrow> 'o obs_action list"

definition new_Observable :: "'o Observable" where
  "new_Observable = \<lparr> obs_nodes = [], obs_next_node = 0, obs_current = None, obs_remove_current = False \<rparr>"

definition observers :: "'o Observable \<Rightarrow> 'o list" where
  "observers s = map snd (obs_nodes s)"

definition is_observer :: "'o \<Rightarrow> 'o Observable \<Rightarrow> bool" where
  "is_observer x s \<longleftrightarrow> x \<in> set (observers s)"

definition add_observer :: "'o \<Rightarrow> bool \<Rightarrow> 'o Observable \<Rightarrow> bool \<times> 'o Observable" where
  "add_observer x add_to_front s =
     (if is_observer x s then (False, s)
      else let node = (obs_next_node s, x) in
        (True, s\<lparr> obs_next_node := obs_next_node s + 1,
                  obs_nodes := (if add_to_front then node # obs_nodes s else obs_nodes s @ [node]) \<rparr>))"

fun erase_observer :: "'o \<Rightarrow> (nat \<times> 'o) list \<Rightarrow> (nat \<times> 'o) list" where
  "erase_observer x [] = []"
| "erase_observer x (n # ns) = (if snd n = x then ns else n # erase_observer x ns)"

definition remove_observer :: "'o \<Rightarrow> 'o Observable \<Rightarrow> 'o Observable" where
  "remove_observer x s =
     (if obs_current s = Some x then s\<lparr> obs_remove_current := True \<rparr>
      else s\<lparr> obs_nodes := erase_observer x (obs_nodes s) \<rparr>)"

section \<open>Notifying\<close>

text \<open>The node behind a node.\<close>

fun node_after :: "nat \<Rightarrow> (nat \<times> 'o) list \<Rightarrow> nat option" where
  "node_after i [] = None"
| "node_after i (n # ns) = (if fst n = i then (case ns of [] \<Rightarrow> None | m # _ \<Rightarrow> Some (fst m)) else node_after i ns)"

definition first_node :: "'o Observable \<Rightarrow> nat option" where
  "first_node s = (case obs_nodes s of [] \<Rightarrow> None | n # _ \<Rightarrow> Some (fst n))"

text \<open>
  The number bounds how many handlers are called one after the other and within each other; \<open>None\<close> is
  a notification that has not ended within it.
\<close>

fun notify_observers :: "nat \<Rightarrow> 'o obs_handler \<Rightarrow> 'o obs_state \<Rightarrow> 'o obs_state cxx option"
  and notify_loop :: "nat \<Rightarrow> 'o obs_handler \<Rightarrow> nat option \<Rightarrow> 'o obs_state \<Rightarrow> 'o obs_state cxx option"
  and obs_actions :: "nat \<Rightarrow> 'o obs_handler \<Rightarrow> 'o obs_action list \<Rightarrow> 'o obs_state \<Rightarrow> 'o obs_state cxx option" where
  "notify_observers 0 h s = None"
| "notify_observers (Suc n) h s = notify_loop n h (first_node (fst s)) s"
| "notify_loop n h None (s, lg) = Some (Val (s\<lparr> obs_current := None \<rparr>, lg))"
| "notify_loop 0 h (Some i) s = None"
| "notify_loop (Suc n) h (Some i) (s, lg) =
     (case map_of (obs_nodes s) i of
        None \<Rightarrow> Some Undef
      | Some x \<Rightarrow>
          (case obs_actions n h (h lg x) (s\<lparr> obs_current := Some x \<rparr>, lg @ [Called x]) of
             Some (Val (s, lg)) \<Rightarrow>
               if map_of (obs_nodes s) i = None then Some Undef
               else
                 let next_node = node_after i (obs_nodes s) in
                 if obs_remove_current s
                 then notify_loop n h next_node (s\<lparr> obs_remove_current := False, obs_nodes := filter (\<lambda>m. fst m \<noteq> i) (obs_nodes s) \<rparr>, lg)
                 else notify_loop n h next_node (s, lg)
           | r \<Rightarrow> r))"
| "obs_actions n h [] s = Some (Val s)"
| "obs_actions n h (AddObserver x front # as) (s, lg) = obs_actions n h as (snd (add_observer x front s), lg @ [Added x])"
| "obs_actions n h (RemoveObserver x # as) (s, lg) = obs_actions n h as (remove_observer x s, lg @ [Removed x])"
| "obs_actions n h (NotifyAgain # as) s =
     (case n of
        0 \<Rightarrow> None
      | Suc k \<Rightarrow> (case notify_observers k h s of Some (Val s) \<Rightarrow> obs_actions n h as s | r \<Rightarrow> r))"

section \<open>Handlers that remove\<close>

text \<open>Handlers that may remove any observer, themselves included, but do nothing else.\<close>

definition only_removes :: "'o obs_handler \<Rightarrow> bool" where
  "only_removes h \<longleftrightarrow> (\<forall>lg x. \<forall>a \<in> set (h lg x). \<exists>y. a = RemoveObserver y)"

fun removals :: "'o obs_action list \<Rightarrow> 'o list" where
  "removals [] = []"
| "removals (RemoveObserver y # as) = y # removals as"
| "removals (_ # as) = removals as"

fun calls :: "'o obs_event list \<Rightarrow> 'o list" where
  "calls [] = []"
| "calls (Called x # lg) = x # calls lg"
| "calls (_ # lg) = calls lg"

text \<open>No observer is called after it has been removed.\<close>

fun never_called_after_removal :: "'o obs_event list \<Rightarrow> bool" where
  "never_called_after_removal [] = True"
| "never_called_after_removal (Removed x # lg) = (x \<notin> set (calls lg) \<and> never_called_after_removal lg)"
| "never_called_after_removal (_ # lg) = never_called_after_removal lg"

definition nodes_ok :: "(nat \<times> 'o) list \<Rightarrow> bool" where
  "nodes_ok ns \<longleftrightarrow> distinct (map fst ns) \<and> distinct (map snd ns)"

lemma calls_append [simp]: "calls (a @ b) = calls a @ calls b"
  by (induction a rule: calls.induct) auto

lemma calls_removed [simp]: "calls (map Removed ys) = []"
  by (induction ys) auto

lemma never_called_after_removal_removed:
  "never_called_after_removal (map Removed ys @ lg) \<longleftrightarrow> set ys \<inter> set (calls lg) = {} \<and> never_called_after_removal lg"
  by (induction ys) auto

lemma nodes_ok_filter: "nodes_ok ns \<Longrightarrow> nodes_ok (filter P ns)"
  by (simp add: nodes_ok_def distinct_map_filter)

lemma erase_observer_filter: "distinct (map snd ns) \<Longrightarrow> erase_observer x ns = filter (\<lambda>n. snd n \<noteq> x) ns"
proof (induction ns)
  case (Cons n ns)
  then have "snd n \<notin> snd ` set ns" by simp
  then have "filter (\<lambda>m. snd m \<noteq> snd n) ns = ns"
    by (intro filter_True) (metis image_eqI)
  with Cons show ?case by auto
qed simp

lemma node_after_middle:
  "i \<notin> fst ` set pre \<Longrightarrow> node_after i (pre @ (i, x) # post) = (case post of [] \<Rightarrow> None | m # _ \<Rightarrow> Some (fst m))"
  by (induction pre) auto

lemma remove_observer_filter:
  assumes "nodes_ok (obs_nodes s)" "obs_current s = Some x"
  shows "remove_observer y s = s\<lparr> obs_nodes := filter (\<lambda>m. snd m = x \<or> snd m \<noteq> y) (obs_nodes s),
    obs_remove_current := (obs_remove_current s \<or> x = y) \<rparr>"
proof (cases "y = x")
  case True
  then show ?thesis
    using assms(2) by (simp add: remove_observer_def)
next
  case False
  then have "filter (\<lambda>m. snd m = x \<or> snd m \<noteq> y) (obs_nodes s) = filter (\<lambda>m. snd m \<noteq> y) (obs_nodes s)"
    by (intro filter_cong) auto
  then show ?thesis
    using False assms by (simp add: remove_observer_def erase_observer_filter nodes_ok_def)
qed

text \<open>What a handler that only removes does while \<open>x\<close> is called.\<close>

lemma remove_actions:
  assumes "\<forall>a \<in> set as. \<exists>y. a = RemoveObserver y"
  shows "nodes_ok (obs_nodes s) \<Longrightarrow> obs_current s = Some x \<Longrightarrow>
    obs_actions n h as (s, lg) = Some (Val (s\<lparr> obs_nodes := filter (\<lambda>m. snd m = x \<or> snd m \<notin> set (removals as)) (obs_nodes s),
      obs_remove_current := (obs_remove_current s \<or> x \<in> set (removals as)) \<rparr>, lg @ map Removed (removals as)))"
  using assms
proof (induction as arbitrary: s lg)
  case (Cons a as)
  then obtain y where a: "a = RemoveObserver y"
    by auto
  show ?case
    using Cons.prems Cons.IH [of "remove_observer y s" "lg @ [Removed y]"]
    by (simp add: a remove_observer_filter nodes_ok_filter disj_conj_distribL conj_commute)
qed simp

section \<open>A notification\<close>

lemma notify_loop_only_removes:
  assumes h: "only_removes h"
  shows "nodes_ok (obs_nodes s) \<Longrightarrow> obs_nodes s = pre @ rest \<Longrightarrow> \<not> obs_remove_current s \<Longrightarrow> length rest \<le> n \<Longrightarrow>
    \<exists>s' new. notify_loop n h (case rest of [] \<Rightarrow> None | m # _ \<Rightarrow> Some (fst m)) (s, lg) = Some (Val (s', lg @ new)) \<and>
      subseq (calls new) (map snd rest) \<and>
      obs_nodes s' = filter (\<lambda>m. Removed (snd m) \<notin> set new) (pre @ rest) \<and>
      (\<forall>m \<in> set rest. snd m \<in> set (calls new) \<or> Removed (snd m) \<in> set new) \<and>
      never_called_after_removal new \<and> obs_current s' = None \<and> \<not> obs_remove_current s'"
proof (induction n arbitrary: s pre rest lg)
  case (Suc n)
  show ?case
  proof (cases rest)
    case (Cons m more)
    obtain i x where m: "m = (i, x)" by (cases m)
    let ?as = "h lg x" and ?s = "s\<lparr> obs_current := Some x \<rparr>"
    let ?R = "set (removals ?as)"
    define p where "p = filter (\<lambda>m. snd m \<notin> ?R) pre"
    define q where "q = filter (\<lambda>m. snd m \<notin> ?R) more"
    let ?before = "if x \<in> ?R then p else p @ [(i, x)]"
    have ix: "i \<notin> fst ` set pre" "i \<notin> fst ` set more" "x \<notin> snd ` set pre" "x \<notin> snd ` set more"
      using Suc.prems(1,2) unfolding Cons m by (auto simp: nodes_ok_def)
    have keep: "filter (\<lambda>m. snd m = x \<or> snd m \<notin> ?R) ns = filter (\<lambda>m. snd m \<notin> ?R) ns" if "x \<notin> snd ` set ns" for ns :: "(nat \<times> 'a) list"
      using that by (intro filter_cong) auto
    have act: "obs_actions n h ?as (?s, lg @ [Called x]) =
        Some (Val (s\<lparr> obs_current := Some x, obs_nodes := p @ (i, x) # q, obs_remove_current := x \<in> ?R \<rparr>, lg @ Called x # map Removed (removals ?as)))"
      using h Suc.prems(1-3) ix keep by (subst remove_actions [where x = x]) (auto simp: only_removes_def Cons m p_def q_def)
    have mem: "map_of (obs_nodes s) i = Some x"
      using Suc.prems(1) by (intro map_of_is_SomeI) (simp_all add: nodes_ok_def Suc.prems(2) Cons m)
    have i: "i \<notin> fst ` set p" "i \<notin> fst ` set q"
      using ix by (auto simp: p_def q_def)
    then have pq: "filter (\<lambda>m. fst m \<noteq> i) p = p" "filter (\<lambda>m. fst m \<noteq> i) q = q" "map_of p i = None"
      by (auto simp: filter_id_conv map_of_eq_None_iff)
    have loop: "notify_loop (Suc n) h (Some i) (s, lg) =
        notify_loop n h (case q of [] \<Rightarrow> None | m # _ \<Rightarrow> Some (fst m))
          (s\<lparr> obs_current := Some x, obs_remove_current := False, obs_nodes := ?before @ q \<rparr>, lg @ Called x # map Removed (removals ?as))"
      by (simp add: act mem pq node_after_middle i Let_def) (cases s; simp)
    have "nodes_ok (?before @ q)"
      using Suc.prems(1) ix unfolding Suc.prems(2) Cons m nodes_ok_def p_def q_def by (auto simp: distinct_map_filter)
    moreover have "length q \<le> n"
      using Suc.prems(4) unfolding Cons q_def by (auto intro: order.trans [OF length_filter_le])
    ultimately obtain s' new where IH: "notify_loop (Suc n) h (Some i) (s, lg) = Some (Val (s', (lg @ Called x # map Removed (removals ?as)) @ new))"
      "subseq (calls new) (map snd q)" "obs_nodes s' = filter (\<lambda>m. Removed (snd m) \<notin> set new) (?before @ q)"
      "\<forall>m \<in> set q. snd m \<in> set (calls new) \<or> Removed (snd m) \<in> set new"
      "never_called_after_removal new" "obs_current s' = None" "\<not> obs_remove_current s'"
      using Suc.IH [of "s\<lparr> obs_current := Some x, obs_remove_current := False, obs_nodes := ?before @ q \<rparr>" ?before q
          "lg @ Called x # map Removed (removals ?as)"] unfolding loop by auto
    have sub: "subseq (calls new) (map snd more)"
      using IH(2) subseq_order.trans [OF _ subseq_map [OF subseq_filter_left]] unfolding q_def by blast
    have "set (calls new) \<subseteq> snd ` set q"
      by (auto elim!: list_emb_set [OF IH(2)])
    then have dis: "?R \<inter> set (calls new) = {}" by (auto simp: q_def)
    have nodes: "obs_nodes s' = filter (\<lambda>m. Removed (snd m) \<notin> set (map Removed (removals ?as) @ new)) (pre @ rest)"
      unfolding IH(3) Cons m p_def q_def by (auto simp: image_iff conj_commute)
    have all: "\<forall>m \<in> set more. snd m \<in> set (calls new) \<or> Removed (snd m) \<in> set (map Removed (removals ?as) @ new)"
      using IH(4) by (fastforce simp: q_def image_iff)
    show ?thesis
      unfolding Cons m using IH(1,5-7) sub dis nodes all
      by (intro exI [of _ s'] exI [of _ "Called x # map Removed (removals ?as) @ new"])
         (simp add: never_called_after_removal_removed Cons m)
  qed (use Suc in auto)
qed auto

text \<open>C18. While handlers do nothing but remove observers, themselves or others, a notification ends
  without touching an erased node. It calls observers in the order of the list, each that it has not removed, and none
  after its removal; what is left are the observers that were not removed, each of which has been called.\<close>

theorem notify_calls_in_order:
  assumes "only_removes h" "nodes_ok (obs_nodes s)" "\<not> obs_remove_current s" "length (obs_nodes s) < n"
  shows "\<exists>s' new. notify_observers n h (s, lg) = Some (Val (s', lg @ new)) \<and>
    subseq (calls new) (observers s) \<and> observers s' = filter (\<lambda>x. Removed x \<notin> set new) (observers s) \<and>
    set (observers s') \<subseteq> set (calls new) \<and> never_called_after_removal new \<and>
    obs_current s' = None \<and> \<not> obs_remove_current s'"
proof -
  obtain k where n: "n = Suc k" using assms(4) by (cases n) auto
  have "notify_observers n h (s, lg) = notify_loop k h (case obs_nodes s of [] \<Rightarrow> None | m # _ \<Rightarrow> Some (fst m)) (s, lg)"
    by (simp add: n first_node_def)
  then show ?thesis
    using notify_loop_only_removes [OF assms(1,2), of "[]" "obs_nodes s" k lg] assms(3,4) n
    by (fastforce simp: observers_def filter_map comp_def)
qed

theorem notify_calls_in_order_witness:
  "\<exists>s' new. notify_observers 4 (\<lambda>lg x. [RemoveObserver x, RemoveObserver (3::nat)])
      (\<lparr> obs_nodes = [(0, 1), (1, 2), (2, 3)], obs_next_node = 3, obs_current = None, obs_remove_current = False \<rparr>, []) = Some (Val (s', [] @ new)) \<and>
    subseq (calls new) [1, 2, 3] \<and> set (observers s') \<subseteq> set (calls new) \<and> never_called_after_removal new"
  using notify_calls_in_order [of "\<lambda>lg x. [RemoveObserver x, RemoveObserver (3::nat)]"
      "\<lparr> obs_nodes = [(0, 1), (1, 2), (2, 3)], obs_next_node = 3, obs_current = None, obs_remove_current = False \<rparr>" 4 "[]"]
  by (auto simp: only_removes_def nodes_ok_def observers_def)

lemma notify_example:
  "notify_observers 4 (\<lambda>lg x. [RemoveObserver x, RemoveObserver (3::nat)])
      (\<lparr> obs_nodes = [(0, 1), (1, 2), (2, 3)], obs_next_node = 3, obs_current = None, obs_remove_current = False \<rparr>, []) =
    Some (Val (\<lparr> obs_nodes = [], obs_next_node = 3, obs_current = None, obs_remove_current = False \<rparr>,
      [Called 1, Removed 1, Removed 3, Called 2, Removed 2, Removed 3]))"
  by code_simp

text \<open>
  A notification that a handler starts ends by forgetting which observer the outer notification is calling: an
  observer that then removes itself takes its node out of the list at once, while the outer notification
  still stands at it.
\<close>

lemma removal_after_nested_notification:
  "notify_observers 9 (\<lambda>lg x. if lg = [] then [NotifyAgain, RemoveObserver x] else [])
     (snd (add_observer (1::nat) False new_Observable), []) = Some Undef"
  by code_simp

text \<open>Adding and removing keep the observers distinct.\<close>

definition obs_inv :: "'o Observable \<Rightarrow> bool" where
  "obs_inv s \<longleftrightarrow> nodes_ok (obs_nodes s) \<and> (\<forall>m \<in> set (obs_nodes s). fst m < obs_next_node s)"

lemma add_observer_inv: "obs_inv s \<Longrightarrow> obs_inv (snd (add_observer x front s))"
  by (fastforce simp: obs_inv_def nodes_ok_def add_observer_def is_observer_def observers_def Let_def)

lemma remove_observer_inv: "obs_inv s \<Longrightarrow> obs_inv (remove_observer x s)"
  by (auto simp: obs_inv_def remove_observer_def erase_observer_filter nodes_ok_filter) (auto simp: nodes_ok_def erase_observer_filter distinct_map_filter)

end
