(* ===== verification/Sihd_Channel.thy ===== *)
theory Sihd_Channel
  imports Sihd_Value Sihd_Splitter Sihd_Observable
begin

text \<open>
  Channels of core/Channel.cpp: typed arrays that notify observers of every change. The array is that of
  \<open>Sihd_Array\<close> on its bytes, sizes and capacities are in bytes. The program is a net of channels; an observer
  is a number, and what its handler does is a list of steps, each of which looks at the net and writes
  to a channel, schedules a later write, or does nothing. A handler that holds a mutex of its own while
  it runs deadlocks when it is entered again by the thread that holds it, which is undefined. A
  channel that is written to by the thread that is notifying it refuses; the \<open>try_lock\<close> is taken to fail
  there. Who observes a channel does not change during a notification here; see \<open>Sihd_Observable\<close>.
\<close>

section \<open>A channel\<close>

record Channel =
  ch_type :: Type
  ch_array :: "u8 Array"
  ch_timestamp :: int
  ch_locked :: bool
  ch_write_change_only :: bool
  ch_resizable :: bool
  ch_observers :: "nat Observable"

text \<open>The factor by which arrays grow, and which allocations succeed.\<close>

record ArrayEnv =
  env_mult :: nat
  env_alloc :: "nat \<Rightarrow> bool"

definition new_Channel :: "'e ArrayEnv_scheme \<Rightarrow> Type \<Rightarrow> nat \<Rightarrow> Channel cxx" where
  "new_Channel e t n =
     (if create_from_type t = None then Raise InvalidArgument
      else cxx_bind (arr_resize (env_mult e) (env_alloc e) 0 (n * dt_size t) new_Array) (\<lambda>(_, a).
        Val \<lparr> ch_type = t, ch_array = a, ch_timestamp = 0, ch_locked = False,
          ch_write_change_only = True, ch_resizable = False, ch_observers = new_Observable \<rparr>))"

definition set_write_on_change :: "bool \<Rightarrow> Channel \<Rightarrow> Channel" where
  "set_write_on_change active c = c\<lparr> ch_write_change_only := active \<rparr>"

definition set_resizable :: "bool \<Rightarrow> Channel \<Rightarrow> Channel" where
  "set_resizable active c = c\<lparr> ch_resizable := active \<rparr>"

definition ch_size :: "Channel \<Rightarrow> nat" where
  "ch_size c = size_of (ch_array c) div dt_size (ch_type c)"

definition ch_reserve :: "'e ArrayEnv_scheme \<Rightarrow> nat \<Rightarrow> Channel \<Rightarrow> (bool \<times> Channel) cxx" where
  "ch_reserve e n c =
     cxx_bind (arr_reserve (env_mult e) (env_alloc e) 0 (n * dt_size (ch_type c)) (ch_array c)) (\<lambda>(ok, a). Val (ok, c\<lparr> ch_array := a \<rparr>))"

definition ch_resize :: "'e ArrayEnv_scheme \<Rightarrow> nat \<Rightarrow> Channel \<Rightarrow> (bool \<times> Channel) cxx" where
  "ch_resize e n c =
     cxx_bind (arr_resize (env_mult e) (env_alloc e) 0 (n * dt_size (ch_type c)) (ch_array c)) (\<lambda>(ok, a). Val (ok, c\<lparr> ch_array := a \<rparr>))"

text \<open>\<open>Channel::build\<close>: the text of a configuration; \<open>None\<close> where no channel is made.\<close>

definition build_Channel :: "'e ArrayEnv_scheme \<Rightarrow> string \<Rightarrow> (string \<times> Channel) option cxx" where
  "build_Channel e configuration =
     cxx_bind (parse_configuration configuration) (\<lambda>conf.
     case (conf_find conf ''name'', conf_find conf ''type'', conf_find conf ''size'') of
       (Some name, Some t, Some sz) \<Rightarrow>
         cxx_bind (convert_from_string (TUnsigned 64) sz 10) (\<lambda>val.
         case val of
           None \<Rightarrow> Val None
         | Some val \<Rightarrow>
             cxx_bind (new_Channel e (dt_from_str t) (nat val)) (\<lambda>c.
             case conf_find conf ''capacity'' of
               None \<Rightarrow> Val (Some (name, c))
             | Some cap \<Rightarrow>
                 cxx_bind (convert_from_string (TUnsigned 64) cap 10) (\<lambda>cap.
                 case cap of
                   None \<Rightarrow> Val (Some (name, c))
                 | Some cap \<Rightarrow>
                     if cap > val
                     then cxx_bind (ch_reserve e (nat cap) c) (\<lambda>(_, c). Val (Some (name, set_resizable True c)))
                     else Val (Some (name, c)))))
     | _ \<Rightarrow> Val None)"

definition ch_copy_to_bytes :: "Slice \<Rightarrow> Channel \<Rightarrow> u8 option list option" where
  "ch_copy_to_bytes s c = copy_to_bytes s (ch_array c)"

definition ch_copy_to :: "Slice \<Rightarrow> Channel \<Rightarrow> u8 option list option" where
  "ch_copy_to s c =
     (let r = resolve s (ch_size c); ds = dt_size (ch_type c) in
      if range_empty r then None
      else Some (take (range_size r * ds) (drop (rg_from r * ds) (case buf_ptr (ch_array c) of None \<Rightarrow> [] | Some b \<Rightarrow> b))))"

text \<open>The part of a write under the mutex of the array.\<close>

datatype stored = Store_failed | Store_same | Store_done

definition make_room :: "'e ArrayEnv_scheme \<Rightarrow> nat \<Rightarrow> Channel \<Rightarrow> Channel option cxx" where
  "make_room e needed c =
     (if needed > size_of (ch_array c) then
        if \<not> ch_resizable c \<or> needed > capacity (ch_array c) then Val None
        else if needed mod dt_size (ch_type c) \<noteq> 0 then Raise InvalidArgument
        else cxx_bind (arr_resize (env_mult e) (env_alloc e) 0 needed (ch_array c)) (\<lambda>(_, a). Val (Some (c\<lparr> ch_array := a \<rparr>)))
      else Val (Some c))"

definition ch_store :: "'e ArrayEnv_scheme \<Rightarrow> u8 list \<Rightarrow> nat \<Rightarrow> Channel \<Rightarrow> (stored \<times> Channel) cxx" where
  "ch_store e bytes off c =
     cxx_bind (make_room e (length bytes + off) c) (\<lambda>r.
     case r of
       None \<Rightarrow> Val (Store_failed, c)
     | Some c \<Rightarrow>
         let slice = \<lparr> sl_from = int off, sl_to = -1 \<rparr> in
         if ch_write_change_only c \<and> is_bytes_equal (map Some bytes) slice (ch_array c) then Val (Store_same, c)
         else cxx_bind (copy_from_bytes (map Some bytes) slice (ch_array c)) (\<lambda>(ok, a).
           Val (if ok then Store_done else Store_failed, c\<lparr> ch_array := a \<rparr>)))"

section \<open>The net\<close>

datatype action = Write nat "u8 list" nat | Delay int nat "u8 list" nat

record Net =
  channels :: "Channel list"
  readings :: nat
  busy :: "nat list"
  notified :: "(nat \<times> nat) list"
  delayed :: "(int \<times> nat \<times> u8 list \<times> nat) list"

type_synonym net_step = "Net \<Rightarrow> action option cxx"

record Env = ArrayEnv +
  env_now :: "nat \<Rightarrow> int"
  env_handlers :: "nat \<Rightarrow> nat \<Rightarrow> net_step list"
  env_locks :: "nat \<Rightarrow> bool"

definition set_channel :: "nat \<Rightarrow> Channel \<Rightarrow> Net \<Rightarrow> Net" where
  "set_channel c ch net = net\<lparr> channels := (channels net)[c := ch] \<rparr>"

definition lock_channel :: "bool \<Rightarrow> nat \<Rightarrow> Net \<Rightarrow> Net" where
  "lock_channel active c net = set_channel c ((channels net ! c)\<lparr> ch_locked := active \<rparr>) net"

definition do_timestamp :: "Env \<Rightarrow> nat \<Rightarrow> Net \<Rightarrow> Net" where
  "do_timestamp e c net =
     (set_channel c ((channels net ! c)\<lparr> ch_timestamp := env_now e (readings net) \<rparr>) net)\<lparr> readings := readings net + 1 \<rparr>"

text \<open>
  The first number bounds how deep writes and notifications are nested, \<open>None\<close> is a write that has not
  returned within it.
\<close>

fun net_bind :: "'a cxx option \<Rightarrow> ('a \<Rightarrow> 'b cxx option) \<Rightarrow> 'b cxx option" where
  "net_bind None f = None"
| "net_bind (Some Undef) f = Some Undef"
| "net_bind (Some (Raise x)) f = Some (Raise x)"
| "net_bind (Some (Val v)) f = f v"

lemma net_bind_cong [fundef_cong]:
  "m = m' \<Longrightarrow> (\<And>v. m' = Some (Val v) \<Longrightarrow> f v = f' v) \<Longrightarrow> net_bind m f = net_bind m' f'"
  by (cases "(m', f')" rule: net_bind.cases) auto

fun ch_write :: "nat \<Rightarrow> Env \<Rightarrow> nat \<Rightarrow> u8 list \<Rightarrow> nat \<Rightarrow> Net \<Rightarrow> (bool \<times> Net) cxx option"
  and notify_all :: "nat \<Rightarrow> Env \<Rightarrow> nat \<Rightarrow> nat list \<Rightarrow> Net \<Rightarrow> Net cxx option"
  and run_steps :: "nat \<Rightarrow> Env \<Rightarrow> net_step list \<Rightarrow> Net \<Rightarrow> Net cxx option" where
  "ch_write 0 e c bytes off net = None"
| "ch_write (Suc n) e c bytes off net =
     (if length (channels net) \<le> c then Some Undef
      else if ch_locked (channels net ! c) then Some (Val (False, net))
      else net_bind (Some (ch_store e bytes off (channels net ! c))) (\<lambda>(r, ch).
        let net = set_channel c ch net in
        case r of
          Store_failed \<Rightarrow> Some (Val (False, net))
        | Store_same \<Rightarrow> Some (Val (True, net))
        | Store_done \<Rightarrow>
            net_bind (notify_all n e c (observers (ch_observers ch)) (lock_channel True c (do_timestamp e c net))) (\<lambda>net.
              Some (Val (True, lock_channel False c net)))))"
| "notify_all n e c [] net = Some (Val net)"
| "notify_all n e c (x # xs) net =
     (if env_locks e x \<and> x \<in> set (busy net) then Some Undef
      else net_bind (run_steps n e (env_handlers e x c) (net\<lparr> busy := x # busy net, notified := notified net @ [(x, c)] \<rparr>)) (\<lambda>net.
        notify_all n e c xs (net\<lparr> busy := tl (busy net) \<rparr>)))"
| "run_steps n e [] net = Some (Val net)"
| "run_steps n e (f # fs) net =
     net_bind (Some (f net)) (\<lambda>a.
       case a of
         None \<Rightarrow> run_steps n e fs net
       | Some (Delay d c bytes off) \<Rightarrow> run_steps n e fs (net\<lparr> delayed := delayed net @ [(d, c, bytes, off)] \<rparr>)
       | Some (Write c bytes off) \<Rightarrow> net_bind (ch_write n e c bytes off net) (\<lambda>(_, net). run_steps n e fs net))"

text \<open>\<open>notify\<close> waits for the mutex: called by the thread that holds it, it does not return.\<close>

definition ch_notify :: "nat \<Rightarrow> Env \<Rightarrow> nat \<Rightarrow> Net \<Rightarrow> Net cxx option" where
  "ch_notify n e c net =
     (if length (channels net) \<le> c \<or> ch_locked (channels net ! c) then Some Undef
      else net_bind (notify_all n e c (observers (ch_observers (channels net ! c))) (lock_channel True c net)) (\<lambda>net.
        Some (Val (lock_channel False c net))))"

definition write_channel :: "nat \<Rightarrow> Env \<Rightarrow> nat \<Rightarrow> nat \<Rightarrow> Net \<Rightarrow> (bool \<times> Net) cxx option" where
  "write_channel n e c other net =
     (if length (channels net) \<le> other then Some Undef
      else case those (elements (ch_array (channels net ! other))) of
        None \<Rightarrow> Some Undef
      | Some bytes \<Rightarrow> ch_write n e c bytes 0 net)"

definition observe :: "nat \<Rightarrow> nat \<Rightarrow> Net \<Rightarrow> bool \<times> Net" where
  "observe x c net = (let (added, os) = add_observer x False (ch_observers (channels net ! c)) in
     (added, set_channel c ((channels net ! c)\<lparr> ch_observers := os \<rparr>) net))"

section \<open>What a cascade of writes leaves alone\<close>




lemma net_bind_eq_Some_Val [simp]: "net_bind m f = Some (Val v) \<longleftrightarrow> (\<exists>a. m = Some (Val a) \<and> f a = Some (Val v))"
  by (cases "(m, f)" rule: net_bind.cases) auto

lemma net_bind_eq_None [simp]: "net_bind m f = None \<longleftrightarrow> m = None \<or> (\<exists>v. m = Some (Val v) \<and> f v = None)"
  by (cases "(m, f)" rule: net_bind.cases) auto

lemma cxx_bind_eq_Val [simp]: "cxx_bind m f = Val v \<longleftrightarrow> (\<exists>a. m = Val a \<and> f a = Val v)"
  by (cases m) auto








section \<open>A cascade of writes ends\<close>





section \<open>What a write does\<close>

abbreviation ch_elements :: "Channel \<Rightarrow> u8 option list" where
  "ch_elements c \<equiv> elements (ch_array c)"





text \<open>The notifications of a channel that have been given.\<close>

definition calls_of :: "nat \<Rightarrow> Net \<Rightarrow> (nat \<times> nat) list" where
  "calls_of c net = filter (\<lambda>p. snd p = c) (notified net)"

lemma calls_of_simps [simp]:
  "calls_of c (set_channel d ch net) = calls_of c net" "calls_of c (do_timestamp e d net) = calls_of c net"
  "calls_of c (lock_channel b d net) = calls_of c net" "calls_of c (net\<lparr> busy := bs \<rparr>) = calls_of c net"
  "calls_of c (net\<lparr> delayed := ds \<rparr>) = calls_of c net" "calls_of c (net\<lparr> channels := cs \<rparr>) = calls_of c net"
  "calls_of c (net\<lparr> readings := r \<rparr>) = calls_of c net"
  "calls_of c (net\<lparr> busy := bs, notified := ns @ [p] \<rparr>) = filter (\<lambda>p. snd p = c) ns @ (if snd p = c then [p] else [])"
  by (simp_all add: calls_of_def set_channel_def do_timestamp_def lock_channel_def)





section \<open>The promises of a channel\<close>



text \<open>Two channels that are coupled both ways: observer 7 copies channel 0 to channel 1, observer 8 back.\<close>

definition int_channel :: "nat Observable \<Rightarrow> u8 list \<Rightarrow> nat \<Rightarrow> Channel" where
  "int_channel os bytes spare = \<lparr> ch_type = TYPE_INT,
     ch_array = \<lparr> buf_ptr = Some (map Some bytes @ replicate spare (Some 0)), size_of = length bytes,
       capacity = length bytes + spare, has_ownership = True \<rparr>,
     ch_timestamp = 0, ch_locked = False, ch_write_change_only = True, ch_resizable = True, ch_observers = os \<rparr>"

definition copy_step :: "nat \<Rightarrow> nat \<Rightarrow> net_step" where
  "copy_step c d net = (case those (ch_elements (channels net ! c)) of None \<Rightarrow> Undef | Some bytes \<Rightarrow> Val (Some (Write d bytes 0)))"

definition coupled :: Env where
  "coupled = \<lparr> env_mult = 2, env_alloc = (\<lambda>_. True), env_now = int,
     env_handlers = (\<lambda>x c. if x = 7 then [copy_step 0 1] else [copy_step 1 0]), env_locks = (\<lambda>_. True) \<rparr>"



section \<open>Where a channel does not notify\<close>

text \<open>A write that makes a resizable channel longer by bytes that its buffer already holds is taken for no change.\<close>

lemma growth_without_notification:
  "ch_write 2 coupled 0 [0, 0, 0, 0, 0, 0, 0, 0] 0
     \<lparr> channels = [int_channel (snd (add_observer 7 False new_Observable)) [0, 0, 0, 0] 4], readings = 0, busy = [], notified = [], delayed = [] \<rparr> =
   Some (Val (True, \<lparr> channels = [int_channel (snd (add_observer 7 False new_Observable)) [0, 0, 0, 0, 0, 0, 0, 0] 0],
     readings = 0, busy = [], notified = [], delayed = [] \<rparr>))"
  by code_simp

text \<open>A longer write to a resizable channel whose length is no multiple of the element's size throws.\<close>

lemma uneven_growth_throws:
  "ch_write 2 coupled 0 [0, 0, 0, 0, 0] 0
     \<lparr> channels = [int_channel new_Observable [0, 0, 0, 0] 4], readings = 0, busy = [], notified = [], delayed = [] \<rparr> =
   Some (Raise InvalidArgument)"
  by code_simp

end
