(* ===== verification/Sihd_Time.thy ===== *)
theory Sihd_Time
  imports Sihd_Float Sihd_StrNum "HOL-Library.Signed_Division"
begin

text \<open>
  Times of util/time.cpp and time.hpp, the calendar and clock of Timestamp.cpp and the text of a time offset of
  str.cpp. A time is a number of nanoseconds in 64 bits; most conversions go through \<open>double\<close>. The functions
  \<open>mktime\<close> and \<open>localtime_r\<close>, which know the time zone, are arguments; \<open>gmtime_r\<close> is the Gregorian calendar.
\<close>

section \<open>Integers and doubles\<close>

abbreviation d_of :: "int \<Rightarrow> fp" where "d_of n \<equiv> d_round (of_int n)"
abbreviation d_mult :: "fp \<Rightarrow> rat \<Rightarrow> fp" where "d_mult \<equiv> fp_mult 11 52"
abbreviation d_div :: "fp \<Rightarrow> rat \<Rightarrow> fp" where "d_div \<equiv> fp_div 11 52"
abbreviation d_sub :: "fp \<Rightarrow> fp \<Rightarrow> fp" where "d_sub x y \<equiv> d_add x (fp_minus y)"

text \<open>\<open>1 / x\<close>.\<close>

definition d_inverse :: "fp \<Rightarrow> fp" where
  "d_inverse x = (case x of
     Fin q \<Rightarrow> if q = 0 then Inf False else d_round (1 / q)
   | Inf s \<Rightarrow> Fin 0
   | NaN \<Rightarrow> NaN)"

section \<open>Nanoseconds of other units\<close>


definition time_milli :: "int \<Rightarrow> int cxx" where
  "time_milli milli = fp_to_int64 (d_mult (d_of milli) 1000000)"

definition time_sec :: "int \<Rightarrow> int cxx" where
  "time_sec sec = fp_to_int64 (d_mult (d_of sec) 1000000000)"

definition time_min :: "int \<Rightarrow> int cxx" where
  "time_min m = cxx_bind (time_sec m) (\<lambda>n. int64 (n * 60))"

definition time_hours :: "int \<Rightarrow> int cxx" where
  "time_hours h = cxx_bind (time_min h) (\<lambda>n. int64 (n * 60))"

definition time_days :: "int \<Rightarrow> int cxx" where
  "time_days d = cxx_bind (time_hours d) (\<lambda>n. int64 (n * 24))"

definition time_freq :: "fp \<Rightarrow> int cxx" where
  "time_freq hz = (if fp_less hz (Fin 0) then Val 0 else fp_to_int64 (d_mult (d_inverse hz) 1000000000))"

definition time_from_double :: "fp \<Rightarrow> int cxx" where
  "time_from_double x =
     cxx_bind (fp_to_int64 x) (\<lambda>sec.
     cxx_bind (fp_to_int64 (d_mult (d_sub x (d_of sec)) 1000000000)) (\<lambda>nano.
     cxx_bind (time_sec sec) (\<lambda>sec_nano.
       int64 (sec_nano + nano))))"

definition time_from_double_milliseconds :: "fp \<Rightarrow> int cxx" where
  "time_from_double_milliseconds x =
     cxx_bind (fp_to_int64 x) (\<lambda>milliseconds.
     cxx_bind (fp_to_int64 (d_mult (d_sub x (d_of milliseconds)) 1000000)) (\<lambda>nano.
     cxx_bind (time_milli milliseconds) (\<lambda>milli_nano.
       int64 (milli_nano + nano))))"

section \<open>Other units of nanoseconds\<close>

definition to_double :: "int \<Rightarrow> fp" where
  "to_double nano = d_div (d_of nano) 1000000000"

definition to_double_milliseconds :: "int \<Rightarrow> fp" where
  "to_double_milliseconds nano = d_div (d_of nano) 1000000"

definition to_freq :: "int \<Rightarrow> fp" where
  "to_freq nano = d_inverse (d_div (d_of nano) 1000000000)"

definition to_micro :: "int \<Rightarrow> int cxx" where
  "to_micro nano = fp_to_int64 (d_div (d_of nano) 1000)"

definition to_milli :: "int \<Rightarrow> int cxx" where
  "to_milli nano = fp_to_int64 (d_div (d_of nano) 1000000)"

definition to_sec :: "int \<Rightarrow> int cxx" where
  "to_sec nano = fp_to_int64 (d_div (d_of nano) 1000000000)"

definition to_min :: "int \<Rightarrow> int cxx" where
  "to_min nano = cxx_bind (to_sec nano) (\<lambda>s. Val (s sdiv 60))"

definition to_hours :: "int \<Rightarrow> int cxx" where
  "to_hours nano = cxx_bind (to_min nano) (\<lambda>m. Val (m sdiv 60))"

definition to_days :: "int \<Rightarrow> int cxx" where
  "to_days nano = cxx_bind (to_hours nano) (\<lambda>h. Val (h sdiv 24))"

section \<open>Seconds with a fraction\<close>

record timeval =
  tv_sec :: int
  tv_usec :: int

record timespec =
  ts_sec :: int
  ts_nsec :: int

definition tv_to_double :: "timeval \<Rightarrow> fp" where
  "tv_to_double tv = d_add (d_of (tv_sec tv)) (d_div (d_of (tv_usec tv)) 1000000)"

definition nano_tv_to_double :: "timeval \<Rightarrow> fp" where
  "nano_tv_to_double tv = d_add (d_of (tv_sec tv)) (d_div (d_of (tv_usec tv)) 1000000000)"

definition double_to_tv :: "fp \<Rightarrow> timeval cxx" where
  "double_to_tv time =
     cxx_bind (fp_to_int64 time) (\<lambda>s.
     cxx_bind (fp_to_int64 (d_mult (d_sub time (d_of s)) 1000000)) (\<lambda>u.
       Val \<lparr> tv_sec = s, tv_usec = u \<rparr>))"

definition double_to_nano_tv :: "fp \<Rightarrow> timeval cxx" where
  "double_to_nano_tv time =
     cxx_bind (fp_to_int64 time) (\<lambda>s.
     cxx_bind (fp_to_int64 (d_mult (d_sub time (d_of s)) 1000000000)) (\<lambda>u.
       Val \<lparr> tv_sec = s, tv_usec = u \<rparr>))"

definition milli_to_tv :: "int \<Rightarrow> timeval cxx" where
  "milli_to_tv milliseconds =
     cxx_bind (fp_to_int64 (d_div (d_of milliseconds) 1000)) (\<lambda>s.
     cxx_bind (fp_to_int64 (d_mult (d_of (milliseconds smod 1000)) 1000)) (\<lambda>u.
       Val \<lparr> tv_sec = s, tv_usec = u \<rparr>))"

definition to_tv :: "int \<Rightarrow> timeval cxx" where
  "to_tv micro = cxx_bind (fp_to_int64 (d_div (d_of micro) 1000000)) (\<lambda>s.
     Val \<lparr> tv_sec = s, tv_usec = micro smod 1000000 \<rparr>)"

definition to_nano_tv :: "int \<Rightarrow> timeval cxx" where
  "to_nano_tv nano = cxx_bind (fp_to_int64 (d_div (d_of nano) 1000000000)) (\<lambda>s.
     Val \<lparr> tv_sec = s, tv_usec = nano smod 1000000000 \<rparr>)"

definition to_ts :: "int \<Rightarrow> timespec cxx" where
  "to_ts nano = cxx_bind (fp_to_int64 (d_div (d_of nano) 1000000000)) (\<lambda>s.
     Val \<lparr> ts_sec = s, ts_nsec = nano smod 1000000000 \<rparr>)"

definition time_tv :: "timeval \<Rightarrow> int cxx" where
  "time_tv tv = fp_to_int64 (d_add (d_mult (d_of (tv_sec tv)) 1000000000) (d_mult (d_of (tv_usec tv)) 1000))"

definition time_nano_tv :: "timeval \<Rightarrow> int cxx" where
  "time_nano_tv tv = fp_to_int64 (d_add (d_mult (d_of (tv_sec tv)) 1000000000) (d_of (tv_usec tv)))"

definition time_ts :: "timespec \<Rightarrow> int cxx" where
  "time_ts ts = fp_to_int64 (d_add (d_mult (d_of (ts_sec ts)) 1000000000) (d_of (ts_nsec ts)))"

section \<open>Durations of the standard library\<close>

text \<open>A unit of \<open>num / den\<close> seconds.\<close>

record period =
  per_num :: int
  per_den :: int

definition to_duration :: "period \<Rightarrow> int \<Rightarrow> int cxx" where
  "to_duration p nano =
     (let ratio = 1000000000 div per_den p in
      if ratio = 0 then Undef else Val ((nano sdiv ratio) sdiv per_num p))"

definition time_duration :: "period \<Rightarrow> int \<Rightarrow> int cxx" where
  "time_duration p count =
     cxx_bind (int64 (count * (1000000000 div per_den p))) (\<lambda>k. int64 (k * per_num p))"

definition time_floor :: "period \<Rightarrow> int \<Rightarrow> int cxx" where
  "time_floor p val =
     cxx_bind (time_duration p 1) (\<lambda>unit. if unit = 0 then Undef else Val (val - val smod unit))"

definition seconds_period :: period where "seconds_period = \<lparr> per_num = 1, per_den = 1 \<rparr>"
definition hours_period :: period where "hours_period = \<lparr> per_num = 3600, per_den = 1 \<rparr>"
definition days_period :: period where "days_period = \<lparr> per_num = 86400, per_den = 1 \<rparr>"

section \<open>The calendar\<close>

definition is_leap_year :: "int \<Rightarrow> bool" where
  "is_leap_year year \<longleftrightarrow> year smod 4 = 0 \<and> (year smod 400 = 0 \<or> year smod 100 \<noteq> 0)"

record tm =
  tm_year :: int
  tm_mon :: int
  tm_mday :: int
  tm_hour :: int
  tm_min :: int
  tm_sec :: int

text \<open>The Gregorian calendar of \<open>gmtime_r\<close>: the days since the start of 1970 are counted through years and months.\<close>

definition year_days :: "int \<Rightarrow> int" where
  "year_days y = (if y mod 4 = 0 \<and> y mod 100 \<noteq> 0 \<or> y mod 400 = 0 then 366 else 365)"

definition month_lengths :: "int \<Rightarrow> int list" where
  "month_lengths y = [31, year_days y - 337, 31, 30, 31, 30, 31, 31, 30, 31, 30, 31]"

lemma year_days_range: "365 \<le> year_days y" "year_days y \<le> 366"
  by (simp_all add: year_days_def)

function civil_year :: "int \<Rightarrow> int \<Rightarrow> int \<times> int" where
  "civil_year y d =
     (if d < 0 then civil_year (y - 1) (d + year_days (y - 1))
      else if d < year_days y then (y, d)
      else civil_year (y + 1) (d - year_days y))"
  by pat_completeness auto
termination
proof (relation "measure (\<lambda>(y, d). if d < 0 then nat (- d) + 366 else nat d)")
  fix y d :: int
  assume "d < 0"
  then show "((y - 1, d + year_days (y - 1)), y, d) \<in> measure (\<lambda>(y, d). if d < 0 then nat (- d) + 366 else nat d)"
    using year_days_range [of "y - 1"] by auto
next
  fix y d :: int
  assume "\<not> d < 0" "\<not> d < year_days y"
  then show "((y + 1, d - year_days y), y, d) \<in> measure (\<lambda>(y, d). if d < 0 then nat (- d) + 366 else nat d)"
    using year_days_range [of y] by auto
qed simp

declare civil_year.simps [simp del]

fun civil_month :: "int list \<Rightarrow> int \<Rightarrow> int \<Rightarrow> int \<times> int" where
  "civil_month [] m d = (m, d)"
| "civil_month (l # ls) m d = (if d < l then (m, d) else civil_month ls (m + 1) (d - l))"

definition gmtime :: "int \<Rightarrow> tm" where
  "gmtime sec =
     (let (y, yd) = civil_year 1970 (sec div 86400);
          (m, md) = civil_month (month_lengths y) 0 yd;
          s = sec mod 86400 in
      \<lparr> tm_year = y - 1900, tm_mon = m, tm_mday = md + 1,
        tm_hour = s div 3600, tm_min = s mod 3600 div 60, tm_sec = s mod 60 \<rparr>)"

text \<open>\<open>localtime_r\<close> and \<open>mktime\<close> are arguments.\<close>

definition to_tm :: "(int \<Rightarrow> tm) \<Rightarrow> int \<Rightarrow> bool \<Rightarrow> tm cxx" where
  "to_tm localtime_r nano localtime =
     cxx_bind (fp_to_int64 (d_div (d_of nano) 1000000000)) (\<lambda>sec.
       Val (if localtime then localtime_r sec else gmtime sec))"

definition time_tm :: "(tm \<Rightarrow> int) \<Rightarrow> tm \<Rightarrow> int cxx" where
  "time_tm mktime t = fp_to_int64 (d_mult (d_of (mktime t)) 1000000000)"

definition time_local_tm :: "(tm \<Rightarrow> int) \<Rightarrow> int \<Rightarrow> tm \<Rightarrow> int cxx" where
  "time_local_tm mktime timezone t =
     cxx_bind (int64 (mktime t - timezone)) (\<lambda>s. fp_to_int64 (d_mult (d_of s) 1000000000))"

section \<open>Timestamps\<close>

record Clocktime =
  hour :: int
  minute :: int
  second :: int
  millisecond :: int

record Calendar =
  day :: int
  month :: int
  year :: int


definition timestamp_of_calendar :: "(tm \<Rightarrow> int) \<Rightarrow> Calendar \<Rightarrow> int cxx" where
  "timestamp_of_calendar mktime c =
     time_sec (mktime \<lparr> tm_year = year c - 1900, tm_mon = month c - 1, tm_mday = day c, tm_hour = 0, tm_min = 0, tm_sec = 0 \<rparr>)"

definition timestamp_of_calendar_clocktime :: "(tm \<Rightarrow> int) \<Rightarrow> Calendar \<Rightarrow> Clocktime \<Rightarrow> int cxx" where
  "timestamp_of_calendar_clocktime mktime c t =
     time_sec (mktime \<lparr> tm_year = year c - 1900, tm_mon = month c - 1, tm_mday = day c,
                        tm_hour = hour t, tm_min = minute t, tm_sec = second t \<rparr>)"

definition in_interval :: "int \<Rightarrow> int \<Rightarrow> int \<Rightarrow> bool cxx" where
  "in_interval nano start offset =
     (if nano \<ge> start then cxx_bind (int64 (start + offset)) (\<lambda>e. Val (nano \<le> e)) else Val False)"

definition abs64 :: "int \<Rightarrow> int cxx" where
  "abs64 n = int64 \<bar>n\<bar>"

definition floor_day :: "int \<Rightarrow> int cxx" where
  "floor_day nano = time_floor days_period nano"

text \<open>The milliseconds are computed in \<open>double\<close> and converted to \<open>int\<close>.\<close>

definition fp_to_int32 :: "fp \<Rightarrow> int cxx" where
  "fp_to_int32 x = cxx_bind (fp_to_int64 x) (\<lambda>k. if - (2 ^ 31) \<le> k \<and> k < 2 ^ 31 then Val k else Undef)"

definition clocktime_ms :: "int \<Rightarrow> int cxx" where
  "clocktime_ms nano =
     cxx_bind (to_sec nano) (\<lambda>s.
       fp_to_int32 (d_div (d_sub (d_of nano) (d_mult (d_of s) 1000000000)) 1000000))"

definition clocktime_at :: "bool \<Rightarrow> (int \<Rightarrow> tm) \<Rightarrow> int \<Rightarrow> Clocktime cxx" where
  "clocktime_at localtime localtime_r nano =
     cxx_bind (abs64 nano) (\<lambda>a.
     cxx_bind (to_tm localtime_r a localtime) (\<lambda>t.
     cxx_bind (clocktime_ms nano) (\<lambda>ms.
       Val \<lparr> hour = tm_hour t, minute = tm_min t, second = tm_sec t, millisecond = ms \<rparr>)))"

definition calendar_at :: "bool \<Rightarrow> (int \<Rightarrow> tm) \<Rightarrow> int \<Rightarrow> Calendar cxx" where
  "calendar_at localtime localtime_r nano =
     cxx_bind (abs64 nano) (\<lambda>a.
     cxx_bind (to_tm localtime_r a localtime) (\<lambda>t.
       Val \<lparr> day = tm_mday t, month = tm_mon t + 1, year = tm_year t + 1900 \<rparr>))"

definition clocktime :: "int \<Rightarrow> Clocktime cxx" where
  "clocktime = clocktime_at False gmtime"

definition calendar :: "int \<Rightarrow> Calendar cxx" where
  "calendar = calendar_at False gmtime"

definition local_clocktime :: "(int \<Rightarrow> tm) \<Rightarrow> int \<Rightarrow> Clocktime cxx" where
  "local_clocktime = clocktime_at True"

definition local_calendar :: "(int \<Rightarrow> tm) \<Rightarrow> int \<Rightarrow> Calendar cxx" where
  "local_calendar = calendar_at True"

definition timestamp_is_leap_year :: "(int \<Rightarrow> tm) \<Rightarrow> int \<Rightarrow> bool cxx" where
  "timestamp_is_leap_year localtime_r nano =
     cxx_bind (local_calendar localtime_r nano) (\<lambda>c. Val (is_leap_year (year c)))"

definition modulo_min :: "nat \<Rightarrow> int \<Rightarrow> int cxx" where
  "modulo_min minutes nano =
     (if minutes > 60 then Raise InvalidArgument
      else cxx_bind (clocktime nano) (\<lambda>c.
        if minutes = 0 then Undef
        else
          let interval = minute c div int minutes * int minutes in
          cxx_bind (time_floor hours_period nano) (\<lambda>h.
          cxx_bind (time_min interval) (\<lambda>m. int64 (h + m)))))"

section \<open>Texts\<close>

text \<open>\<open>{}\<close> of \<open>fmt::format\<close>, and \<open>%0nd\<close> of \<open>fmt::sprintf\<close>.\<close>

definition fmt_int :: "int \<Rightarrow> string" where
  "fmt_int k = (if k < 0 then ''-'' else []) @ to_chars (nat \<bar>k\<bar>) 10"

definition fmt_padded :: "nat \<Rightarrow> int \<Rightarrow> string" where
  "fmt_padded w k =
     (let digits = to_chars (nat \<bar>k\<bar>) 10; sign = (if k < 0 then ''-'' else []) in
      sign @ replicate (w - length sign - length digits) (CHR ''0'') @ digits)"

definition clocktime_str :: "Clocktime \<Rightarrow> string" where
  "clocktime_str c = fmt_padded 2 (hour c) @ '':'' @ fmt_padded 2 (minute c) @ '':'' @ fmt_padded 2 (second c) @ '':'' @
     fmt_int (millisecond c)"

definition calendar_str :: "Calendar \<Rightarrow> string" where
  "calendar_str c = fmt_padded 2 (day c) @ ''/'' @ fmt_padded 2 (month c) @ ''/'' @ fmt_padded 4 (year c)"

text \<open>The steps of the text of an offset: each is written when it is not 0 or an earlier one was written.\<close>

fun offset_steps :: "bool \<Rightarrow> (int \<times> string) list \<Rightarrow> string" where
  "offset_steps next_step [] = []"
| "offset_steps next_step ((k, unit) # steps) =
     (if next_step \<or> k > 0 then fmt_int k @ unit @ offset_steps True steps else offset_steps False steps)"

definition timeoffset_to_string :: "(int \<Rightarrow> tm) \<Rightarrow> int \<Rightarrow> bool \<Rightarrow> bool \<Rightarrow> bool \<Rightarrow> string cxx" where
  "timeoffset_to_string localtime_r timestamp total_parenthesis nano_resolution localtime =
     cxx_bind (abs64 timestamp) (\<lambda>a.
     cxx_bind (to_tm localtime_r a localtime) (\<lambda>t.
     cxx_bind (to_milli timestamp) (\<lambda>milli.
     cxx_bind (to_micro timestamp) (\<lambda>micro.
       Val ((if timestamp \<ge> 0 then ''+'' else ''-'') @
         offset_steps False [(tm_year t - 70, ''y:''), (tm_mon t, ''m:''), (tm_mday t - 1, ''d ''), (tm_hour t, ''h:''),
           (tm_min t, ''m:''), (tm_sec t, ''s:''), (milli smod 1000, ''ms:'')] @
         fmt_int (micro smod 1000) @ ''us'' @
         (if nano_resolution then '':'' @ fmt_int (a smod 1000) @ ''ns'' else []) @
         (if total_parenthesis then '' ('' @ fmt_int timestamp @ '')'' else []))))))"

definition timeoffset_str :: "int \<Rightarrow> bool \<Rightarrow> bool \<Rightarrow> string cxx" where
  "timeoffset_str timestamp total_parenthesis nano_resolution =
     timeoffset_to_string gmtime timestamp total_parenthesis nano_resolution False"

definition localtimeoffset_str :: "(int \<Rightarrow> tm) \<Rightarrow> int \<Rightarrow> bool \<Rightarrow> bool \<Rightarrow> string cxx" where
  "localtimeoffset_str localtime_r timestamp total_parenthesis nano_resolution =
     timeoffset_to_string localtime_r timestamp total_parenthesis nano_resolution True"

section \<open>Conversions below \<open>2 ^ 53\<close> nanoseconds, about 104 days\<close>

lemma pow2_exp: "pow2 0 = 1" "pow2 9 = 512" "pow2 53 = 2 ^ 53" "pow2 62 = 2 ^ 62" "pow2 64 = 2 ^ 64" "pow2 (- 53) = 1 / 2 ^ 53"
  by (simp_all add: pow2_def)

lemma pow2_tiny: "pow2 (- 1022) \<le> 1 / 2 ^ 60"
  using pow2_mono [of "- 1022" "- 60"] by (simp add: pow2_def)

lemma d_round_int: "\<bar>n\<bar> < 2 ^ 53 \<Longrightarrow> d_of n = Fin (of_int n)"
proof -
  assume n: "\<bar>n\<bar> < 2 ^ 53"
  then have "of_int \<bar>n\<bar> < (of_int (2 ^ 53) :: rat)" by (simp only: of_int_less_iff)
  then show ?thesis using d_round_exact [of n 0] by (simp add: pow2_exp)
qed

lemma fp_to_int64_floor:
  "of_int k \<le> r \<Longrightarrow> r < of_int (k + 1) \<Longrightarrow> 0 \<le> k \<Longrightarrow> k < 2 ^ 63 \<Longrightarrow> fp_to_int64 (Fin r) = Val k"
proof -
  assume r: "of_int k \<le> r" "r < of_int (k + 1)" and k: "0 \<le> k" "k < 2 ^ 63"
  then have "\<lfloor>r\<rfloor> = k" by (simp add: floor_eq_iff)
  moreover have "(0::rat) \<le> of_int k" using k(1) by simp
  then have "\<not> r < 0" using r(1) by linarith
  ultimately show ?thesis using k by (simp add: fp_to_int64_def)
qed

text \<open>The quotient of doubles is truncated to the quotient of the integers, since it is too far from the next integer to be rounded to it.\<close>

lemma d_quotient:
  assumes "0 \<le> n" "n < 2 ^ 53" "0 < d" "d \<le> 10 ^ 9"
  shows "fp_to_int64 (d_round (of_int n / of_int d)) = Val (n div d)"
proof (cases "n = 0")
  case True
  then show ?thesis by (simp add: fp_round_def fp_to_int64_def)
next
  case False
  let ?q = "of_int n / of_int d :: rat" and ?k = "n div d"
  have n: "1 \<le> n" using False assms(1) by simp
  have d: "(0::rat) < of_int d" "of_int d \<le> (10 ^ 9 :: rat)" using assms(3,4) by (simp, metis of_int_le_iff of_int_numeral of_int_power)
  have le: "?q \<le> of_int n" using n d(1) assms(3) by (simp add: divide_le_eq)
  have less: "of_int n < (2 ^ 53 :: rat)" using assms(2) by (metis of_int_less_iff of_int_numeral of_int_power)
  have "1 / 10 ^ 9 \<le> ?q" using n d by (simp add: frac_le)
  then have lower: "pow2 (- 1022) \<le> ?q" using pow2_tiny by simp
  then have q0: "0 < ?q" using pow2_simps(2) [of "- 1022"] by linarith
  have small: "\<bar>?q\<bar> \<le> pow2 64" "\<bar>?q\<bar> < pow2 (53 + 0)" using q0 le less by (simp_all add: pow2_exp)
  have "?q = 0 \<or> pow2 (- 1022) \<le> \<bar>?q\<bar>" using lower q0 by (simp only: abs_of_pos simp_thms)
  then obtain r where r: "d_round ?q = Fin r" "\<bar>r - ?q\<bar> \<le> \<bar>?q\<bar> * pow2 (- 53)"
    using d_round_near [of ?q] small(1) by blast
  have kd: "?k * d \<le> n" "n \<le> (?k + 1) * d - 1"
    using assms(3) by (simp_all add: mult.commute [of _ d] distrib_left minus_mod_eq_mult_div [symmetric] pos_mod_bound zle_diff1_eq)
  have "of_int (?k * d) \<le> (of_int n :: rat)" using kd(1) by (simp only: of_int_le_iff)
  then have kq: "of_int ?k * pow2 0 \<le> ?q" using d(1) by (simp add: pow2_exp le_divide_eq)
  have "?q \<noteq> 0" using q0 by (rule less_imp_neq [symmetric])
  from d_round_between(1) [OF this small(2) _ r(1) kq] have ge: "of_int ?k \<le> r" by (simp add: pow2_exp)
  have "of_int n \<le> (of_int ((?k + 1) * d - 1) :: rat)" using kd(2) by (simp only: of_int_le_iff)
  then have "?q \<le> of_int (?k + 1) - 1 / of_int d" using d(1) by (simp add: divide_le_eq left_diff_distrib)
  moreover have "\<bar>?q\<bar> * pow2 (- 53) < 1 / of_int d"
    unfolding abs_of_pos [OF q0] using d(1) less by (simp add: pow2_exp divide_less_eq)
  ultimately have "r < of_int (?k + 1)" using r(2) by linarith
  moreover have "?k * 1 \<le> ?k * d" using assms(1,3) by (intro mult_left_mono) (simp_all add: pos_imp_zdiv_nonneg_iff)
  then have "?k < 2 ^ 63" using kd(1) assms(2) by simp
  ultimately show ?thesis
    unfolding r(1) using ge assms(1,3) by (intro fp_to_int64_floor) (simp_all add: pos_imp_zdiv_nonneg_iff)
qed

lemma to_unit:
  assumes "0 \<le> n" "n < 2 ^ 53"
  shows "to_micro n = Val (n div 10 ^ 3)" "to_milli n = Val (n div 10 ^ 6)" "to_sec n = Val (n div 10 ^ 9)"
  using assms d_quotient [of n "10 ^ 3"] d_quotient [of n "10 ^ 6"] d_quotient [of n "10 ^ 9"]
  by (simp_all add: to_micro_def to_milli_def to_sec_def d_round_int)

lemma sdiv_nonneg: "0 \<le> (a::int) \<Longrightarrow> 0 < b \<Longrightarrow> a sdiv b = a div b" "0 \<le> a \<Longrightarrow> 0 < b \<Longrightarrow> a smod b = a mod b"
  by (simp_all add: signed_divide_int_def signed_modulo_int_def sgn_if minus_div_mult_eq_mod)

section \<open>Conversions of present times\<close>




section \<open>The clock\<close>

lemma d_of_less: "\<bar>k\<bar> * d < 2 ^ 53 \<Longrightarrow> 0 < d \<Longrightarrow> d_mult (d_of k) (of_int d) = Fin (of_int (k * d))"
proof -
  assume k: "\<bar>k\<bar> * d < 2 ^ 53" and d: "0 < d"
  have "\<bar>k\<bar> * 1 \<le> \<bar>k\<bar> * d" using d by (intro mult_left_mono) simp_all
  then have "\<bar>k\<bar> < 2 ^ 53" "\<bar>k * d\<bar> < 2 ^ 53" using k d by (simp_all add: abs_mult)
  then show ?thesis using d_round_int [of k] d_round_int [of "k * d"] by simp
qed

lemma fp_to_int64_int: "\<bar>k\<bar> < 2 ^ 63 \<Longrightarrow> fp_to_int64 (Fin (of_int k)) = Val k"
  by (auto simp: fp_to_int64_def)


lemma gmtime_clock:
  "tm_hour (gmtime s) = s div 3600 mod 24" "tm_min (gmtime s) = s div 60 mod 60" "tm_sec (gmtime s) = s mod 60"
proof -
  have "s mod 86400 div 3600 = s div 3600 mod 24" using zmod_zmult2_eq [of 24 s 3600] by simp
  moreover have "s mod 86400 mod 3600 = s mod 3600" "s mod 86400 mod 60 = s mod 60" by (simp_all add: mod_mod_cancel)
  moreover have "s mod 3600 div 60 = s div 60 mod 60" using zmod_zmult2_eq [of 60 s 60] by simp
  moreover have "tm_hour (gmtime s) = s mod 86400 div 3600" "tm_min (gmtime s) = s mod 86400 mod 3600 div 60"
      "tm_sec (gmtime s) = s mod 86400 mod 60"
    unfolding gmtime_def Let_def by (simp_all only: tm.simps split: prod.split) blast+
  ultimately show "tm_hour (gmtime s) = s div 3600 mod 24" "tm_min (gmtime s) = s div 60 mod 60" "tm_sec (gmtime s) = s mod 60"
    by (simp_all only:)
qed












text \<open>Short times are split into seconds and nanoseconds and put together again without loss.\<close>

lemma d_seconds_exact:
  assumes "0 \<le> n" "n < 2 ^ 53"
  shows "d_add (d_mult (d_of (n div 10 ^ 9)) 1000000000) (d_of (n mod 10 ^ 9)) = Fin (of_int n)"
proof -
  have "0 \<le> n div 10 ^ 9" using assms(1) by (simp add: pos_imp_zdiv_nonneg_iff)
  moreover have n: "n div 10 ^ 9 * 10 ^ 9 + n mod 10 ^ 9 = n" "0 \<le> n mod 10 ^ 9" "n mod 10 ^ 9 < 10 ^ 9" by simp_all
  moreover have "n div 10 ^ 9 * 10 ^ 9 < 2 ^ 53" using n assms(2) by linarith
  ultimately have "d_mult (d_of (n div 10 ^ 9)) 1000000000 = Fin (of_int (n div 10 ^ 9 * 10 ^ 9))"
    "d_of (n mod 10 ^ 9) = Fin (of_int (n mod 10 ^ 9))"
    using d_of_less [of "n div 10 ^ 9" "10 ^ 9"] d_round_int [of "n mod 10 ^ 9"] by simp_all
  moreover have "(of_int (n div 10 ^ 9 * 10 ^ 9) + of_int (n mod 10 ^ 9) :: rat) = of_int n"
    using n(1) by (simp only: of_int_add [symmetric])
  ultimately show ?thesis using d_round_int [of n] assms by simp
qed

lemma seconds_fraction_roundtrip:
  assumes "0 \<le> n" "n < 2 ^ 53"
  shows "to_ts n = Val \<lparr> ts_sec = n div 10 ^ 9, ts_nsec = n mod 10 ^ 9 \<rparr>"
    "time_ts \<lparr> ts_sec = n div 10 ^ 9, ts_nsec = n mod 10 ^ 9 \<rparr> = Val n"
    "to_nano_tv n = Val \<lparr> tv_sec = n div 10 ^ 9, tv_usec = n mod 10 ^ 9 \<rparr>"
    "time_nano_tv \<lparr> tv_sec = n div 10 ^ 9, tv_usec = n mod 10 ^ 9 \<rparr> = Val n"
proof -
  have sec: "fp_to_int64 (d_div (d_of n) 1000000000) = Val (n div 10 ^ 9)"
    using to_unit(3) [OF assms] by (simp only: to_sec_def)
  show "to_ts n = Val \<lparr> ts_sec = n div 10 ^ 9, ts_nsec = n mod 10 ^ 9 \<rparr>"
    "to_nano_tv n = Val \<lparr> tv_sec = n div 10 ^ 9, tv_usec = n mod 10 ^ 9 \<rparr>"
    unfolding to_ts_def to_nano_tv_def sec using sdiv_nonneg(2) [OF assms(1), of "10 ^ 9"] by simp_all
  have "fp_to_int64 (Fin (of_int n)) = Val n" using assms by (intro fp_to_int64_int) simp
  then show "time_ts \<lparr> ts_sec = n div 10 ^ 9, ts_nsec = n mod 10 ^ 9 \<rparr> = Val n"
    "time_nano_tv \<lparr> tv_sec = n div 10 ^ 9, tv_usec = n mod 10 ^ 9 \<rparr> = Val n"
    unfolding time_ts_def time_nano_tv_def by (simp_all only: timeval.simps timespec.simps d_seconds_exact [OF assms])
qed

section \<open>The calendar is that of POSIX\<close>

lemma is_leap_year_days: "is_leap_year y \<longleftrightarrow> year_days y = 366"
proof -
  have dvd: "y smod k = 0 \<longleftrightarrow> k dvd y" for k :: int
    by (simp add: signed_modulo_int_def sgn_if mod_eq_0_iff_dvd)
  have "400 dvd y \<Longrightarrow> 4 dvd y" by (rule dvd_trans [of _ 400]) simp_all
  then show ?thesis unfolding is_leap_year_def dvd year_days_def mod_eq_0_iff_dvd by auto
qed

text \<open>The days before a year, as the formula for the seconds since the epoch counts them.\<close>

definition days_before :: "int \<Rightarrow> int" where
  "days_before y = (y - 1970) * 365 + (y - 1969) div 4 - (y - 1901) div 100 + (y - 1601) div 400"

lemma div_step: "0 < k \<Longrightarrow> (y + 1) div k = y div k + (if (y + 1) mod k = 0 then 1 else (0::int))"
proof -
  assume k: "0 < k"
  have "(y + 1) div k = y div k + (y mod k + 1) div k" using div_add1_eq [of y 1 k] k by (cases "k = 1") simp_all
  moreover have "(y + 1) mod k = (y mod k + 1) mod k" by (simp add: mod_add_left_eq)
  moreover have "0 \<le> y mod k" "y mod k < k" using k by simp_all
  then have "(y mod k + 1) div k = (if (y mod k + 1) mod k = 0 then 1 else 0)"
  proof (cases "y mod k + 1 = k")
    case True
    with k show ?thesis by simp
  next
    case False
    then have "y mod k + 1 < k" using \<open>y mod k < k\<close> by simp
    then show ?thesis using \<open>0 \<le> y mod k\<close> by (simp add: div_pos_pos_trivial mod_pos_pos_trivial)
  qed
  ultimately show ?thesis by simp
qed

lemma days_step:
  "(y + 1 - 1970) * 365 + (p + a) - (q + b) + (r + c) = ((y - 1970) * 365 + p - q + r) + 365 + a - b + (c :: int)"
  by simp

lemma days_before_Suc: "days_before (y + 1) = days_before y + year_days y"
proof -
  have "(y + 1 - c) div k = (y - c) div k + (if y mod k = 0 then 1 else 0)" if "0 < k" "(c - 1) mod k = 0" for c k
  proof -
    have "(y - c + 1) mod k = (y - (c - 1)) mod k" by (rule arg_cong [of _ _ "\<lambda>x. x mod k"]) simp
    also have "\<dots> = y mod k" using that(2) by (metis diff_zero mod_diff_right_eq)
    finally show ?thesis using div_step [OF that(1), of "y - c"] by (simp add: algebra_simps)
  qed
  note step = this
  have "(y + 1 - 1969) div 4 = (y - 1969) div 4 + (if y mod 4 = 0 then 1 else 0)"
    "(y + 1 - 1901) div 100 = (y - 1901) div 100 + (if y mod 100 = 0 then 1 else 0)"
    "(y + 1 - 1601) div 400 = (y - 1601) div 400 + (if y mod 400 = 0 then 1 else 0)" by (rule step; simp)+
  then have steps: "days_before (y + 1) = days_before y + 365 + (if y mod 4 = 0 then 1 else 0) - (if y mod 100 = 0 then 1 else 0) +
      (if y mod 400 = 0 then 1 else 0)"
    by (simp only: days_before_def days_step)
  have "y mod 400 = 0 \<Longrightarrow> y mod 100 = 0" "y mod 100 = 0 \<Longrightarrow> y mod 4 = 0"
    unfolding mod_eq_0_iff_dvd by (rule dvd_trans [of _ 400]; simp) (rule dvd_trans [of _ 100]; simp)
  then show ?thesis unfolding steps year_days_def by auto
qed

lemma civil_year_days:
  "civil_year y d = (y', d') \<Longrightarrow> days_before y' + d' = days_before y + d \<and> 0 \<le> d' \<and> d' < year_days y'"
proof (induction y d rule: civil_year.induct)
  case (1 y d)
  show ?case
  proof (cases "0 \<le> d \<and> d < year_days y")
    case True
    then show ?thesis using "1.prems" by (simp add: civil_year.simps [of y d])
  next
    case False
    then show ?thesis
      using 1 days_before_Suc [of y] days_before_Suc [of "y - 1"] by (simp add: civil_year.simps [of y d] split: if_splits)
  qed
qed

lemma civil_month_days:
  "civil_month ls m d = (m', d') \<Longrightarrow> 0 \<le> d \<Longrightarrow> d < sum_list ls \<Longrightarrow>
    m \<le> m' \<and> nat (m' - m) < length ls \<and> d = sum_list (take (nat (m' - m)) ls) + d' \<and> 0 \<le> d' \<and> d' < ls ! nat (m' - m)"
proof (induction ls m d rule: civil_month.induct)
  case (2 l ls m d)
  show ?case
  proof (cases "d < l")
    case True
    with 2 show ?thesis by simp
  next
    case False
    with 2 have IH: "m + 1 \<le> m' \<and> nat (m' - (m + 1)) < length ls \<and> d - l = sum_list (take (nat (m' - (m + 1))) ls) + d' \<and>
        0 \<le> d' \<and> d' < ls ! nat (m' - (m + 1))" by simp
    then have "m + 1 \<le> m'" by blast
    then have "nat (m' - m) = Suc (nat (m' - (m + 1)))" by arith
    with IH show ?thesis by simp
  qed
qed simp

text \<open>The fields of \<open>gmtime\<close> are a date and a time of the day that count the seconds.\<close>

lemma gmtime_posix:
  fixes s :: int
  defines "t \<equiv> gmtime s"
  shows "s = tm_sec t + 60 * tm_min t + 3600 * tm_hour t +
      86400 * (days_before (tm_year t + 1900) + sum_list (take (nat (tm_mon t)) (month_lengths (tm_year t + 1900))) + tm_mday t - 1)"
    "0 \<le> tm_mon t" "tm_mon t < 12" "1 \<le> tm_mday t" "tm_mday t \<le> month_lengths (tm_year t + 1900) ! nat (tm_mon t)"
proof -
  obtain y yd where y: "civil_year 1970 (s div 86400) = (y, yd)" by fastforce
  obtain m md where m: "civil_month (month_lengths y) 0 yd = (m, md)" by fastforce
  have days: "days_before y + yd = s div 86400" "0 \<le> yd" "yd < year_days y"
    using civil_year_days [OF y] by (simp_all add: days_before_def)
  have "sum_list (month_lengths y) = year_days y" by (simp add: month_lengths_def)
  then have month: "0 \<le> m" "nat m < 12" "yd = sum_list (take (nat m) (month_lengths y)) + md" "0 \<le> md" "md < month_lengths y ! nat m"
    using civil_month_days [OF m days(2)] days(3) by (simp_all add: month_lengths_def)
  have t: "tm_year t = y - 1900" "tm_mon t = m" "tm_mday t = md + 1" unfolding t_def gmtime_def y by (simp_all add: m Let_def)
  have "tm_sec t + 60 * tm_min t + 3600 * tm_hour t = s mod 86400"
    unfolding t_def gmtime_clock
  proof -
    have "s mod (3600 * 24) = 3600 * (s div 3600 mod 24) + s mod (60 * 60)" using zmod_zmult2_eq [of 24 s 3600] by simp
    moreover have "s mod (60 * 60) = 60 * (s div 60 mod 60) + s mod 60" by (rule zmod_zmult2_eq) simp
    ultimately show "s mod 60 + 60 * (s div 60 mod 60) + 3600 * (s div 3600 mod 24) = s mod 86400" by simp
  qed
  then show "s = tm_sec t + 60 * tm_min t + 3600 * tm_hour t +
      86400 * (days_before (tm_year t + 1900) + sum_list (take (nat (tm_mon t)) (month_lengths (tm_year t + 1900))) + tm_mday t - 1)"
    using days(1) month(3) mult_div_mod_eq [of 86400 s] unfolding t by simp
  show "0 \<le> tm_mon t" "tm_mon t < 12" "1 \<le> tm_mday t" "tm_mday t \<le> month_lengths (tm_year t + 1900) ! nat (tm_mon t)"
    using month unfolding t by simp_all
qed

section \<open>Where the code differs from what it says\<close>

lemma floor_numerals:
  "\<lfloor>numeral m / numeral n :: rat\<rfloor> = numeral m div numeral n" "\<lceil>numeral m / numeral n :: rat\<rceil> = - (- numeral m div numeral n)"
  "\<lfloor>- (numeral m / numeral n) :: rat\<rfloor> = - numeral m div numeral n" "\<lceil>- (numeral m / numeral n) :: rat\<rceil> = - (numeral m div numeral n)"
  using floor_divide_of_int_eq [of "numeral m" "numeral n", where ?'a = rat]
    floor_divide_of_int_eq [of "- numeral m" "numeral n", where ?'a = rat] by (simp_all add: ceiling_def)

lemmas int_log2_numerals = int_log2.simps [of "numeral k" for k] int_log2.simps [of 1]

lemmas fp_eval = fp_round_def rat_log2_def Let_def int_log2_numerals fp_bias_def pow2_def round_even_def fp_to_int64_def floor_numerals


text \<open>A negative offset of less than a second loses its milliseconds and prints a second sign.\<close>

lemma negative_offset: "timeoffset_str (- 1500000) False False = Val ''--500us''"
proof -
  have "to_chars 500 10 = ''500''" by code_simp
  then show ?thesis
  by (simp add: timeoffset_str_def timeoffset_to_string_def abs64_def int64_def fits_int64_def to_tm_def to_milli_def to_micro_def fp_eval
      gmtime_def civil_year.simps [of 1970] year_days_def month_lengths_def fmt_int_def signed_modulo_int_def)
qed

text \<open>Milliseconds of a present time are not whole, a nanosecond is lost, and a second begins too early.\<close>

lemma present_times_inexact:
  "time_milli 1700000000001 = Val 1700000000000999936"
  "time_ts \<lparr> ts_sec = 1700000000, ts_nsec = 1 \<rparr> = Val 1700000000000000000"
  "to_sec 1699999999999999999 = Val 1700000000"
  "to_milli 833843829701000000 = Val 833843829700"
  by (simp_all add: time_milli_def time_ts_def to_sec_def to_milli_def fp_eval)

text \<open>Fractions of seconds are truncated after they were rounded.\<close>

lemma fraction_truncated: "time_from_double (d_round (1001 / 1000)) = Val 1000999999"
  by (simp add: time_from_double_def time_sec_def int64_def fits_int64_def fp_eval)

text \<open>Rounding to 0 minutes divides by 0.\<close>

lemma modulo_zero_minutes: "modulo_min 0 0 = Undef"
  by (simp add: modulo_min_def clocktime_def clocktime_at_def clocktime_ms_def abs64_def int64_def fits_int64_def to_tm_def to_sec_def
      fp_to_int32_def fp_eval)

end
