(* ===== verification/Sihd_DevFilter.thy ===== *)
theory Sihd_DevFilter
  imports Sihd_Channel Sihd_Time
begin

text \<open>
  The device of core/DevFilter.cpp: rules that write to a channel when a value of another one meets a
  condition. A filter is an observer of the channels of its rules; what it does when it is notified is one
  step of the net for each rule, in order. A rule is kept by value where the code points into its list,
  which must not grow while the filter runs. Channels are found by their paths through an argument.
\<close>

section \<open>Rules\<close>

datatype RuleType = NoRule | Equal | Superior | SuperiorEqual | Inferior | InferiorEqual | ByteAnd | ByteOr | ByteXor

record FilterRule =
  rule_type :: RuleType
  rule_in :: string
  rule_out :: string
  trigger_idx :: nat
  trigger_value :: Value
  write_same_value :: bool
  write_idx :: nat
  write_value :: Value
  should_match :: bool
  nano_delay :: int

definition new_Rule :: "RuleType \<Rightarrow> FilterRule" where
  "new_Rule t = \<lparr> rule_type = t, rule_in = [], rule_out = [], trigger_idx = 0, trigger_value = new_Value TYPE_INT 0,
     write_same_value = True, write_idx = 0, write_value = new_Value TYPE_INT 0, should_match = True, nano_delay = 0 \<rparr>"

definition write_same :: "FilterRule \<Rightarrow> FilterRule" where
  "write_same r = r\<lparr> write_same_value := True, write_idx := trigger_idx r \<rparr>"

definition write_same_at :: "nat \<Rightarrow> FilterRule \<Rightarrow> FilterRule" where
  "write_same_at idx r = r\<lparr> write_same_value := True, write_idx := idx \<rparr>"

definition rule_trigger :: "nat \<Rightarrow> Value \<Rightarrow> FilterRule \<Rightarrow> FilterRule" where
  "rule_trigger idx v r = r\<lparr> trigger_idx := idx, trigger_value := v \<rparr>"

definition rule_write :: "nat \<Rightarrow> Value \<Rightarrow> FilterRule \<Rightarrow> FilterRule" where
  "rule_write idx v r = r\<lparr> write_idx := idx, write_same_value := False, write_value := v \<rparr>"

text \<open>The parsers of numbers of the platform.\<close>

record NumParsers =
  np_float :: "string \<Rightarrow> u32 option"
  np_double :: "string \<Rightarrow> u64 option"

definition any_value :: "NumParsers \<Rightarrow> string \<Rightarrow> Value cxx" where
  "any_value np = from_any_string (np_float np) (np_double np)"

definition colon_split :: "string \<Rightarrow> string list" where
  "colon_split s = split (set_empty_delimitations (set_delimiter \<lparr> sp_escape_char = escape_char, sp_empty_delimitations = False,
     sp_delimiter = [], sp_open_sequences = [], sp_compare_method = None \<rparr> '':'') True) s (length s)"

text \<open>Parsing; \<open>None\<close> is a configuration that is refused.\<close>

definition parse_options_config :: "NumParsers \<Rightarrow> StrConfiguration \<Rightarrow> FilterRule \<Rightarrow> FilterRule option cxx" where
  "parse_options_config np conf r =
     cxx_bind (case conf_find conf ''match'' of
         None \<Rightarrow> Val (Some r)
       | Some m \<Rightarrow> cxx_bind (convert_from_string TBool m 10) (\<lambda>v. Val (map_option (\<lambda>k. r\<lparr> should_match := k \<noteq> 0 \<rparr>) v))) (\<lambda>res.
     case res of
       None \<Rightarrow> Val None
     | Some r \<Rightarrow>
         (case conf_find conf ''delay'' of
            None \<Rightarrow> Val (Some r)
          | Some d \<Rightarrow>
              (case np_double np d of
                 None \<Rightarrow> Val None
               | Some w \<Rightarrow> cxx_bind (time_from_double (val_d (value_of_double w))) (\<lambda>n. Val (Some (r\<lparr> nano_delay := n \<rparr>))))))"

text \<open>The texts \<open>value\<close> and \<open>index:value\<close>, each part of which may be missing in the second.\<close>

datatype setting = Bad | Only string | Pair string string

definition setting_of :: "string list \<Rightarrow> setting" where
  "setting_of parts = (case parts of
     [v] \<Rightarrow> (if v = [] then Bad else Only v)
   | [i, v] \<Rightarrow> (if i = [] \<and> v = [] then Bad else Pair i v)
   | _ \<Rightarrow> Bad)"

text \<open>\<open>convert_from_string<size_t>\<close>, and a value that is not empty.\<close>

definition parse_index :: "string \<Rightarrow> nat option cxx" where
  "parse_index s = cxx_bind (convert_from_string (TUnsigned 64) s 10) (\<lambda>v. Val (map_option nat v))"

definition parse_value :: "NumParsers \<Rightarrow> string \<Rightarrow> Value option cxx" where
  "parse_value np s = cxx_bind (any_value np s) (\<lambda>v. Val (if value_empty v then None else Some v))"

definition parse_trigger_config :: "NumParsers \<Rightarrow> StrConfiguration \<Rightarrow> FilterRule \<Rightarrow> FilterRule option cxx" where
  "parse_trigger_config np conf r =
     (case setting_of (colon_split (case conf_find conf ''trigger'' of None \<Rightarrow> [] | Some t \<Rightarrow> t)) of
        Bad \<Rightarrow> Val None
      | Only v \<Rightarrow> cxx_bind (parse_value np v) (\<lambda>v. Val (map_option (\<lambda>v. r\<lparr> trigger_idx := 0, trigger_value := v \<rparr>) v))
      | Pair i v \<Rightarrow>
          cxx_bind (if i = [] then Val (Some r) else cxx_bind (parse_index i) (\<lambda>i. Val (map_option (\<lambda>i. r\<lparr> trigger_idx := i \<rparr>) i))) (\<lambda>res.
          case res of
            None \<Rightarrow> Val None
          | Some r \<Rightarrow> if v = [] then Val (Some r)
                      else cxx_bind (parse_value np v) (\<lambda>v. Val (map_option (\<lambda>v. r\<lparr> trigger_value := v \<rparr>) v))))"

definition parse_write_config :: "NumParsers \<Rightarrow> StrConfiguration \<Rightarrow> FilterRule \<Rightarrow> FilterRule option cxx" where
  "parse_write_config np conf r =
     (case conf_find conf ''write'' of
        None \<Rightarrow> Val (Some (r\<lparr> write_idx := trigger_idx r, write_same_value := True \<rparr>))
      | Some w \<Rightarrow>
          (case setting_of (colon_split w) of
             Bad \<Rightarrow> Val None
           | Only v \<Rightarrow> cxx_bind (parse_value np v) (\<lambda>v.
               Val (map_option (\<lambda>v. r\<lparr> write_idx := trigger_idx r, write_same_value := False, write_value := v \<rparr>) v))
           | Pair i v \<Rightarrow>
               cxx_bind (if i = [] then Val (Some r) else cxx_bind (parse_index i) (\<lambda>i. Val (map_option (\<lambda>i. r\<lparr> write_idx := i \<rparr>) i))) (\<lambda>res.
               case res of
                 None \<Rightarrow> Val None
               | Some r \<Rightarrow> if v = [] then Val (Some (r\<lparr> write_same_value := True \<rparr>))
                           else cxx_bind (parse_value np v) (\<lambda>v.
                             Val (map_option (\<lambda>v. r\<lparr> write_same_value := False, write_value := v \<rparr>) v)))))"

text \<open>What the parsers of the parts have written to a rule that is refused in the end is not seen: it is dropped.\<close>

definition cxx_then :: "'a option cxx \<Rightarrow> ('a \<Rightarrow> 'b option cxx) \<Rightarrow> 'b option cxx" where
  "cxx_then m f = cxx_bind m (\<lambda>r. case r of None \<Rightarrow> Val None | Some x \<Rightarrow> f x)"

definition rule_parse :: "NumParsers \<Rightarrow> string \<Rightarrow> FilterRule \<Rightarrow> FilterRule option cxx" where
  "rule_parse np s r =
     cxx_bind (parse_configuration s) (\<lambda>conf.
     case conf_find_all conf [''in'', ''out'', ''trigger''] of
       [Some i, Some out, Some t] \<Rightarrow>
         cxx_then (parse_trigger_config np conf (r\<lparr> rule_in := i, rule_out := out \<rparr>)) (\<lambda>r.
         cxx_then (parse_write_config np conf r) (parse_options_config np conf))
     | _ \<Rightarrow> Val None)"

section \<open>Applying a rule\<close>

text \<open>\<open>buf_at\<close> and the value that is read there: inside the buffer, not only inside the size.\<close>

definition channel_value :: "nat \<Rightarrow> Channel \<Rightarrow> Value cxx" where
  "channel_value idx c =
     (let ds = dt_size (ch_type c) in
      case buf_ptr (ch_array c) of
        None \<Rightarrow> Undef
      | Some b \<Rightarrow>
          (case those (take ds (drop (idx * ds) b)) of
             None \<Rightarrow> Undef
           | Some bytes \<Rightarrow> value_from_buffer bytes (ch_type c)))"

definition rule_matches :: "FilterRule \<Rightarrow> Value \<Rightarrow> bool cxx" where
  "rule_matches r v =
     (let cmp = (\<lambda>P. cxx_bind (compare_value (trigger_value r) v) (\<lambda>k. Val (P k))); t = val_n (trigger_value r) in
      case rule_type r of
        Equal \<Rightarrow> cmp (\<lambda>k. k = 0)
      | Superior \<Rightarrow> cmp (\<lambda>k. k > 0)
      | SuperiorEqual \<Rightarrow> cmp (\<lambda>k. k \<ge> 0)
      | Inferior \<Rightarrow> cmp (\<lambda>k. k < 0)
      | InferiorEqual \<Rightarrow> cmp (\<lambda>k. k \<le> 0)
      | ByteAnd \<Rightarrow> Val (and (val_n v) t \<noteq> 0)
      | ByteOr \<Rightarrow> Val (or (val_n v) t \<noteq> 0)
      | ByteXor \<Rightarrow> Val (xor (val_n v) t \<noteq> 0)
      | NoRule \<Rightarrow> Val False)"

definition out_value :: "FilterRule \<Rightarrow> Value \<Rightarrow> u64" where
  "out_value r v = (if write_same_value r then val_n v else val_n (write_value r))"

text \<open>The low bytes of the value, as many as an element of the channel has.\<close>

definition out_bytes :: "Type \<Rightarrow> u64 \<Rightarrow> u8 list" where
  "out_bytes t w = le_bytes (dt_size t) (uint w)"

definition apply_rule :: "bool \<Rightarrow> nat \<Rightarrow> nat \<Rightarrow> FilterRule \<Rightarrow> net_step" where
  "apply_rule has_scheduler cin out r net =
     cxx_bind (channel_value (trigger_idx r) (channels net ! cin)) (\<lambda>v.
     cxx_bind (rule_matches r v) (\<lambda>matched.
       if should_match r = matched
       then let t = ch_type (channels net ! out); bytes = out_bytes t (out_value r v); off = write_idx r * dt_size t in
         Val (Some (if nano_delay r > 0 \<and> has_scheduler then Delay (nano_delay r) out bytes off else Write out bytes off))
       else Val None))"

section \<open>The device\<close>

record DevFilter =
  df_running :: bool
  df_rules :: "FilterRule list"
  df_rules_map :: "nat \<Rightarrow> (nat \<times> FilterRule) list"
  df_scheduler :: bool
  df_rule_with_delay :: bool

definition new_DevFilter :: DevFilter where
  "new_DevFilter = \<lparr> df_running = False, df_rules = [], df_rules_map = (\<lambda>_. []), df_scheduler = False, df_rule_with_delay = False \<rparr>"

definition set_filter :: "FilterRule \<Rightarrow> DevFilter \<Rightarrow> DevFilter" where
  "set_filter r d = d\<lparr> df_rule_with_delay := (nano_delay r > 0 \<or> df_rule_with_delay d), df_rules := df_rules d @ [r] \<rparr>"

definition parse_conf :: "NumParsers \<Rightarrow> string \<Rightarrow> RuleType \<Rightarrow> DevFilter \<Rightarrow> (bool \<times> DevFilter) cxx" where
  "parse_conf np s t d = cxx_bind (rule_parse np s (new_Rule t)) (\<lambda>r.
     Val (case r of None \<Rightarrow> (False, d) | Some r \<Rightarrow> (True, set_filter r d)))"

definition df_handle :: "DevFilter \<Rightarrow> nat \<Rightarrow> net_step list" where
  "df_handle d c = (if df_running d then map (\<lambda>(out, r). apply_rule (df_scheduler d) c out r) (df_rules_map d c) else [])"

text \<open>Whether a rule fits its channels.\<close>

definition is_float_channel :: "Channel \<Rightarrow> bool" where
  "is_float_channel c \<longleftrightarrow> ch_type c = TYPE_FLOAT \<or> ch_type c = TYPE_DOUBLE"

definition rule_verify :: "FilterRule \<Rightarrow> Channel \<Rightarrow> Channel \<Rightarrow> bool" where
  "rule_verify r cin out \<longleftrightarrow>
     trigger_idx r < ch_size cin \<and> write_idx r < ch_size out \<and>
     \<not> (is_float (trigger_value r) \<and> \<not> is_float_channel cin) \<and>
     \<not> (\<not> is_float_channel out \<and>
        (write_same_value r \<and> is_float (trigger_value r) \<or> \<not> write_same_value r \<and> is_float (write_value r)))"

definition rule_set :: "FilterRule \<Rightarrow> nat \<Rightarrow> nat \<Rightarrow> Net \<Rightarrow> bool" where
  "rule_set r cin out net \<longleftrightarrow> cin \<noteq> out \<and> rule_verify r (channels net ! cin) (channels net ! out)"

fun start_rules :: "(string \<Rightarrow> nat option) \<Rightarrow> nat \<Rightarrow> FilterRule list \<Rightarrow> bool \<Rightarrow> DevFilter \<times> Net \<Rightarrow> bool \<times> DevFilter \<times> Net" where
  "start_rules channel_at x [] ret (d, net) = (ret, d, net)"
| "start_rules channel_at x (r # rs) ret (d, net) =
     (case (channel_at (rule_in r), channel_at (rule_out r)) of
        (Some cin, Some out) \<Rightarrow>
          let good = rule_set r cin out net;
              d = (if good then d\<lparr> df_rules_map := (df_rules_map d)(cin := df_rules_map d cin @ [(out, r)]) \<rparr> else d);
              ret = (ret \<and> good);
              net = (if ret then snd (observe x cin net) else net) in
          start_rules channel_at x rs ret (d, net)
      | _ \<Rightarrow> start_rules channel_at x rs False (d, net))"

definition df_on_start :: "(string \<Rightarrow> nat option) \<Rightarrow> nat \<Rightarrow> DevFilter \<Rightarrow> Net \<Rightarrow> bool \<times> DevFilter \<times> Net" where
  "df_on_start channel_at x d net = (case start_rules channel_at x (df_rules d) True (d, net) of
     (ret, d, net) \<Rightarrow> (ret, d\<lparr> df_running := ret \<rparr>, net))"

text \<open>The scheduler is made as a child, which may fail.\<close>

definition df_on_init :: "bool \<Rightarrow> DevFilter \<Rightarrow> bool \<times> DevFilter" where
  "df_on_init made d = (if df_rule_with_delay d then (made, d\<lparr> df_scheduler := made \<rparr>) else (True, d))"

definition df_on_stop :: "DevFilter \<Rightarrow> bool \<times> DevFilter" where
  "df_on_stop d = (True, d\<lparr> df_running := False, df_rules_map := (\<lambda>_. []) \<rparr>)"

definition df_on_reset :: "DevFilter \<Rightarrow> bool \<times> DevFilter" where
  "df_on_reset d = (True, d\<lparr> df_rules := [], df_rule_with_delay := False, df_scheduler := False \<rparr>)"

section \<open>What a filter does to the contents of channels\<close>

















text \<open>Filter 3 writes 15 to element 1 of channel 1 when element 0 of channel 0 is above 10.\<close>

definition above_10 :: FilterRule where
  "above_10 = rule_write 1 (new_Value TYPE_LONG 15) (rule_trigger 0 (new_Value TYPE_LONG 10) (new_Rule Superior))"

definition filter_net :: Net where
  "filter_net = \<lparr> channels = [int_channel (snd (add_observer 3 False new_Observable)) [0, 0, 0, 0] 0,
       int_channel new_Observable [0, 0, 0, 0, 0, 0, 0, 0] 0], readings = 0, busy = [], notified = [], delayed = [] \<rparr>"


definition filter_env :: "DevFilter \<Rightarrow> Env" where
  "filter_env d = \<lparr> env_mult = 2, env_alloc = (\<lambda>_. True), env_now = int, env_handlers = (\<lambda>x c. df_handle d c), env_locks = (\<lambda>_. True) \<rparr>"


text \<open>Starting the device makes this net and these rules of a rule that names the channels.\<close>

lemma filter_started:
  "case df_on_start (\<lambda>s. if s = ''a'' then Some 0 else Some 1) 3
     (set_filter (above_10\<lparr> rule_in := ''a'', rule_out := ''b'' \<rparr>) new_DevFilter)
     (filter_net\<lparr> channels := [int_channel new_Observable [0, 0, 0, 0] 0, int_channel new_Observable [0, 0, 0, 0, 0, 0, 0, 0] 0] \<rparr>) of
   (ret, d, net) \<Rightarrow> ret \<and> net = filter_net \<and> df_running d \<and> map fst (df_rules_map d 0) = [1] \<and> df_rules_map d 1 = []"
  by code_simp

section \<open>Where a filter does not do what its rules say\<close>

text \<open>A filter with the rules from 0 to 1 and from 1 to 2 is notified by the write of its first rule, while it
  holds its mutex.\<close>

definition chain_dev :: DevFilter where
  "chain_dev = new_DevFilter\<lparr> df_running := True,
     df_rules_map := (\<lambda>c. if c = 0 then [(1, new_Rule Superior)] else if c = 1 then [(2, new_Rule Superior)] else []) \<rparr>"

lemma chained_rules_deadlock:
  "ch_write 9 (filter_env chain_dev) 0 [1, 0, 0, 0] 0
     \<lparr> channels = [int_channel (snd (add_observer 3 False new_Observable)) [0, 0, 0, 0] 0,
         int_channel (snd (add_observer 3 False new_Observable)) [0, 0, 0, 0] 0, int_channel new_Observable [0, 0, 0, 0] 0],
       readings = 0, busy = [], notified = [], delayed = [] \<rparr> = Some Undef"
  by code_simp

text \<open>An \<open>int\<close> channel that holds -1 is above 10.\<close>

lemma minus_one_is_superior:
  "cxx_bind (channel_value 0 (int_channel new_Observable (le_bytes 4 (2 ^ 32 - 1)) 0)) (rule_matches above_10) = Val True"
  by code_simp

text \<open>The value 1.5 without a suffix is a \<open>double\<close>: of its bytes a \<open>float\<close> channel gets the low four, which are 0.\<close>

lemma double_written_to_float:
  "rule_verify r cin out \<Longrightarrow> write_value r = value_of_double 0x3FF8000000000000 \<Longrightarrow> \<not> write_same_value r \<Longrightarrow>
    out_bytes TYPE_FLOAT (out_value r v) = [0, 0, 0, 0]"
proof -
  assume "write_value r = value_of_double 0x3FF8000000000000" "\<not> write_same_value r"
  then have "out_value r v = 0x3FF8000000000000" by (simp add: out_value_def value_of_double_def)
  moreover have "out_bytes TYPE_FLOAT 0x3FF8000000000000 = [0, 0, 0, 0]" by code_simp
  ultimately show ?thesis by simp
qed

end
