(* ===== verification/Sihd_Hash.thy ===== *)
theory Sihd_Hash
  imports Sihd_Prelude
begin

text \<open>
  SHA-1 of util/hash.cpp. The context keeps the state after the complete blocks, the number of bits in two
  words and the bytes of the block that is not complete yet. Lengths are below \<open>2 ^ 61\<close>.
\<close>

unbundle bit_operations_syntax

section \<open>The block transformation\<close>

definition rol :: "u32 \<Rightarrow> nat \<Rightarrow> u32" where
  "rol v bits = (push_bit bits v) OR (drop_bit (32 - bits) v)"

text \<open>Four bytes, the high end first.\<close>

definition be_word :: "u8 list \<Rightarrow> nat \<Rightarrow> u32" where
  "be_word b i = push_bit 24 (ucast (b ! (i * 4))) OR push_bit 16 (ucast (b ! (i * 4 + 1))) OR
     push_bit 8 (ucast (b ! (i * 4 + 2))) OR ucast (b ! (i * 4 + 3))"

definition schedule :: "u8 list \<Rightarrow> u32 list" where
  "schedule b = fold (\<lambda>i w. w @ [rol (w ! (i - 3) XOR w ! (i - 8) XOR w ! (i - 14) XOR w ! (i - 16)) 1])
     [16..<80] (map (be_word b) [0..<16])"

type_synonym sha1_state = "u32 \<times> u32 \<times> u32 \<times> u32 \<times> u32"

definition sha1_round :: "u32 list \<Rightarrow> nat \<Rightarrow> sha1_state \<Rightarrow> sha1_state" where
  "sha1_round w i s = (case s of (a, b, c, d, e) \<Rightarrow>
     let (f, k) =
           (if i < 20 then ((b AND c) OR (NOT b AND d), 0x5A827999)
            else if i < 40 then (b XOR c XOR d, 0x6ED9EBA1)
            else if i < 60 then ((b AND c) OR (b AND d) OR (c AND d), 0x8F1BBCDC)
            else (b XOR c XOR d, 0xCA62C1D6));
         temp = rol a 5 + f + e + k + w ! i in
     (temp, a, rol b 30, c, d))"

definition sha1_transform :: "sha1_state \<Rightarrow> u8 list \<Rightarrow> sha1_state" where
  "sha1_transform s b = (case (s, fold (sha1_round (schedule b)) [0..<80] s) of
     ((s0, s1, s2, s3, s4), (a, b, c, d, e)) \<Rightarrow> (s0 + a, s1 + b, s2 + c, s3 + d, s4 + e))"

section \<open>The context\<close>

record SHA1Context =
  sha_state :: sha1_state
  count_lo :: u32
  count_hi :: u32
  sha_buffer :: "u8 list"

text \<open>The buffer is not initialised: its 64 bytes are an argument.\<close>

definition sha1_init :: "u8 list \<Rightarrow> SHA1Context" where
  "sha1_init buffer = \<lparr> sha_state = (0x67452301, 0xEFCDAB89, 0x98BADCFE, 0x10325476, 0xC3D2E1F0),
     count_lo = 0, count_hi = 0, sha_buffer = buffer \<rparr>"

text \<open>\<open>memcpy\<close> into the block buffer.\<close>

definition copy_in :: "nat \<Rightarrow> u8 list \<Rightarrow> u8 list \<Rightarrow> u8 list" where
  "copy_in j bytes buffer = take j buffer @ bytes @ drop (j + length bytes) buffer"

text \<open>The blocks that lie in the data as a whole, from index \<open>i\<close> on.\<close>

function full_blocks :: "u8 list \<Rightarrow> nat \<Rightarrow> sha1_state \<Rightarrow> nat \<times> sha1_state" where
  "full_blocks data i s =
     (if i + 63 < length data then full_blocks data (i + 64) (sha1_transform s (take 64 (drop i data))) else (i, s))"
  by pat_completeness auto
termination
  by (relation "measure (\<lambda>(data, i, s). length data - i)") auto

declare full_blocks.simps [simp del]

text \<open>The low word of the count is compared with the 64 bits of \<open>len << 3\<close>.\<close>

definition count_bits :: "nat \<Rightarrow> SHA1Context \<Rightarrow> SHA1Context" where
  "count_bits len ctx =
     (let lo = count_lo ctx + of_nat (len * 8);
          hi = (if unat lo < len * 8 then count_hi ctx + 1 else count_hi ctx) in
      ctx\<lparr> count_lo := lo, count_hi := hi + of_nat (len div 2 ^ 29) \<rparr>)"

definition sha1_update :: "u8 list \<Rightarrow> SHA1Context \<Rightarrow> SHA1Context" where
  "sha1_update data ctx =
     (let len = length data;
          j = unat (drop_bit 3 (count_lo ctx) AND 63);
          ctx = count_bits len ctx in
      if j + len > 63
      then let i = 64 - j;
               buffer = copy_in j (take i data) (sha_buffer ctx);
               (i, s) = full_blocks data i (sha1_transform (sha_state ctx) buffer) in
           ctx\<lparr> sha_state := s, sha_buffer := copy_in 0 (drop i data) buffer \<rparr>
      else ctx\<lparr> sha_buffer := copy_in j data (sha_buffer ctx) \<rparr>)"

text \<open>Zeros are added until a block lacks 8 bytes.\<close>

lemma count_update: "count_lo (sha1_update data ctx) = count_lo ctx + of_nat (length data * 8)"
  by (simp add: sha1_update_def count_bits_def Let_def split: prod.split)

text \<open>How many bytes of a block there are, by the count.\<close>

definition filled :: "u32 \<Rightarrow> nat" where
  "filled c = unat c div 8 mod 64"

lemma nat_and_63: "(n::nat) AND 63 = n mod 64"
proof -
  have "n AND 63 = take_bit 6 n" unfolding take_bit_eq_mask by (simp add: mask_eq_exp_minus_1)
  then show ?thesis by (simp add: take_bit_eq_mod)
qed

lemma nat_and_504: "(n::nat) AND 504 = n div 8 mod 64 * 8"
proof -
  have "(504::nat) = push_bit 3 (mask 6)" by (simp add: mask_eq_exp_minus_1 push_bit_eq_mult)
  moreover have "n AND push_bit 3 (mask 6) = push_bit 3 (take_bit 6 (drop_bit 3 n))"
    by (rule bit_eqI) (auto simp: bit_simps)
  ultimately show ?thesis by (simp add: push_bit_eq_mult take_bit_eq_mod drop_bit_eq_div)
qed

lemma filled_and_63: "unat (drop_bit 3 c AND 63) = filled c"
proof -
  have "unat c < 2 ^ 32" by (rule order_less_le_trans [OF unsigned_less]) simp
  then show ?thesis
    unfolding filled_def unsigned_and_eq unsigned_drop_bit_eq by (simp add: nat_and_63 drop_bit_eq_div take_bit_eq_mod)
qed

lemma filled_and_504: "c AND 504 = 448 \<longleftrightarrow> filled c = 56"
proof -
  have "c AND 504 = 448 \<longleftrightarrow> unat (c AND 504) = unat (448 :: u32)" by (rule word_unat_eq_iff)
  also have "unat (c AND 504) = filled c * 8" by (simp add: unsigned_and_eq nat_and_504 filled_def)
  finally show ?thesis by simp
qed

lemma filled_of_nat: "filled (of_nat (n * 8)) = n mod 64"
proof -
  have "n * 8 mod 2 ^ 32 = 8 * (n mod 2 ^ 29)" using mult_mod_right [of 8 n "2 ^ 29"] by (simp add: mult.commute)
  moreover have "n mod 2 ^ 29 mod 64 = n mod 64" by (rule mod_mod_cancel) simp
  moreover have "unat (of_nat (n * 8) :: u32) = n * 8 mod 2 ^ 32" by (subst unat_of_nat) simp
  ultimately show ?thesis by (simp add: filled_def del: of_nat_mult)
qed

lemma unat_add_of_nat: "unat (c + of_nat k :: u32) = (unat c + k) mod 2 ^ 32"
  by (simp add: unat_word_ariths unat_of_nat mod_add_right_eq)

lemma filled_add: "filled (c + of_nat (n * 8)) = (filled c + n) mod 64"
proof -
  have "unat (c + of_nat (n * 8)) = (unat c + n * 8) mod 2 ^ 32" by (rule unat_add_of_nat)
  also have "\<dots> = 8 * ((unat c + n * 8) div 8 mod 2 ^ 29) + (unat c + n * 8) mod 8"
    using mod_mult2_eq [of "unat c + n * 8" 8 "2 ^ 29"] by simp
  finally have "unat (c + of_nat (n * 8)) div 8 = (unat c div 8 + n) mod 2 ^ 29" by (simp add: add.commute)
  moreover have "(unat c div 8 + n) mod 2 ^ 29 mod 64 = (unat c div 8 + n) mod 64" by (rule mod_mod_cancel) simp
  ultimately show ?thesis by (simp add: filled_def mod_add_left_eq)
qed

function pad_zeros :: "SHA1Context \<Rightarrow> SHA1Context" where
  "pad_zeros ctx = (if count_lo ctx AND 504 \<noteq> 448 then pad_zeros (sha1_update [0] ctx) else ctx)"
  by pat_completeness auto
termination
proof (relation "measure (\<lambda>ctx. let f = filled (count_lo ctx) in if f \<le> 56 then 56 - f else 120 - f)")
  fix ctx :: SHA1Context
  assume "count_lo ctx AND 504 \<noteq> 448"
  then have "filled (count_lo ctx) \<noteq> 56" by (simp add: filled_and_504)
  moreover have "filled (count_lo ctx) < 64" by (simp add: filled_def)
  moreover have "filled (count_lo (sha1_update [0] ctx)) = (filled (count_lo ctx) + 1) mod 64"
    using filled_add [of "count_lo ctx" 1] by (simp add: count_update)
  ultimately show "(sha1_update [0] ctx, ctx) \<in> measure (\<lambda>ctx. let f = filled (count_lo ctx) in if f \<le> 56 then 56 - f else 120 - f)"
    by (cases "filled (count_lo ctx) = 63") (auto simp: Let_def)
qed simp

declare pad_zeros.simps [simp del]

definition final_count :: "SHA1Context \<Rightarrow> u8 list" where
  "final_count ctx = map (\<lambda>i. ucast (drop_bit ((3 - (i AND 3)) * 8) (if i \<ge> 4 then count_lo ctx else count_hi ctx) AND 255)) [0..<8]"

definition state_words :: "sha1_state \<Rightarrow> u32 list" where
  "state_words s = (case s of (a, b, c, d, e) \<Rightarrow> [a, b, c, d, e])"

definition sha1_digest :: "sha1_state \<Rightarrow> u8 list" where
  "sha1_digest s = map (\<lambda>i. ucast (drop_bit ((3 - (i AND 3)) * 8) (state_words s ! drop_bit 2 i) AND 255)) [0..<20]"

definition sha1_final :: "SHA1Context \<Rightarrow> u8 list" where
  "sha1_final ctx =
     (let finalcount = final_count ctx in
      sha1_digest (sha_state (sha1_update finalcount (pad_zeros (sha1_update [0x80] ctx)))))"

definition sha1 :: "u8 list \<Rightarrow> u8 list \<Rightarrow> u8 list" where
  "sha1 buffer data = sha1_final (sha1_update data (sha1_init buffer))"


section \<open>The standard\<close>

text \<open>The functions and constants of FIPS 180-4.\<close>

function fips_W :: "u8 list \<Rightarrow> nat \<Rightarrow> u32" where
  "fips_W b t = (if t < 16 then be_word b t
     else rol (fips_W b (t - 3) XOR fips_W b (t - 8) XOR fips_W b (t - 14) XOR fips_W b (t - 16)) 1)"
  by pat_completeness auto
termination
  by (relation "measure (\<lambda>(b, t). t)") auto

declare fips_W.simps [simp del]

definition fips_f :: "nat \<Rightarrow> u32 \<Rightarrow> u32 \<Rightarrow> u32 \<Rightarrow> u32" where
  "fips_f t x y z =
     (if t < 20 then (x AND y) XOR (NOT x AND z)
      else if 40 \<le> t \<and> t < 60 then (x AND y) XOR (x AND z) XOR (y AND z)
      else x XOR y XOR z)"

definition fips_K :: "nat \<Rightarrow> u32" where
  "fips_K t = (if t < 20 then 0x5A827999 else if t < 40 then 0x6ED9EBA1 else if t < 60 then 0x8F1BBCDC else 0xCA62C1D6)"

definition fips_round :: "u8 list \<Rightarrow> nat \<Rightarrow> sha1_state \<Rightarrow> sha1_state" where
  "fips_round M t s = (case s of (a, b, c, d, e) \<Rightarrow> (rol a 5 + fips_f t b c d + e + fips_K t + fips_W M t, a, rol b 30, c, d))"

definition fips_block :: "sha1_state \<Rightarrow> u8 list \<Rightarrow> sha1_state" where
  "fips_block s M = (case (s, fold (fips_round M) [0..<80] s) of
     ((h0, h1, h2, h3, h4), (a, b, c, d, e)) \<Rightarrow> (a + h0, b + h1, c + h2, d + h3, e + h4))"

lemma schedule_W:
  "16 \<le> n \<Longrightarrow> fold (\<lambda>i w. w @ [rol (w ! (i - 3) XOR w ! (i - 8) XOR w ! (i - 14) XOR w ! (i - 16)) 1])
     [16..<n] (map (be_word b) [0..<16]) = map (fips_W b) [0..<n]"
proof (induction n rule: nat_induct_at_least)
  case base
  have "map (be_word b) [0..<16] = map (fips_W b) [0..<16]" by (intro map_cong) (simp_all add: fips_W.simps)
  then show ?case by simp
next
  case (Suc n)
  then show ?case by (simp add: fips_W.simps [of b n])
qed

lemma choose_eq: "(x AND y) OR (NOT x AND z) = (x AND y) XOR (NOT x AND (z :: u32))"
  by (rule bit_word_eqI) (auto simp: bit_simps)

lemma majority_eq: "(x AND y) OR (x AND z) OR (y AND z) = (x AND y) XOR (x AND z) XOR (y AND (z :: u32))"
  by (rule bit_word_eqI) (auto simp: bit_simps)

lemma schedule_nth: "t < 80 \<Longrightarrow> schedule M ! t = fips_W M t"
  using schedule_W [of 80 M] by (simp only: schedule_def) (simp del: upt_rec_numeral)

lemma sha1_round_standard: "t < 80 \<Longrightarrow> sha1_round (schedule M) t s = fips_round M t s"
  unfolding sha1_round_def fips_round_def fips_f_def fips_K_def Let_def
  by (simp only: schedule_nth choose_eq majority_eq split: prod.split if_split) simp

lemma sha1_transform_block: "sha1_transform s M = fips_block s M"
proof -
  have "fold (sha1_round (schedule M)) [0..<80] s = fold (fips_round M) [0..<80] s"
    by (intro fold_cong refl ext sha1_round_standard) simp
  then show ?thesis unfolding sha1_transform_def fips_block_def
    by (simp only: add.commute split: prod.split)
qed

text \<open>The blocks of a message one after the other, and the message padded to whole blocks with its length in bits.\<close>

function process :: "sha1_state \<Rightarrow> u8 list \<Rightarrow> sha1_state" where
  "process s m = (if length m \<ge> 64 then process (fips_block s (take 64 m)) (drop 64 m) else s)"
  by pat_completeness auto
termination
  by (relation "measure (\<lambda>(s, m). length m)") auto

declare process.simps [simp del]

definition sha1_H0 :: sha1_state where
  "sha1_H0 = (0x67452301, 0xEFCDAB89, 0x98BADCFE, 0x10325476, 0xC3D2E1F0)"

definition be64 :: "nat \<Rightarrow> u8 list" where
  "be64 n = map (\<lambda>i. of_nat (n div 256 ^ (7 - i) mod 256)) [0..<8]"

definition sha1_pad :: "u8 list \<Rightarrow> u8 list" where
  "sha1_pad m = m @ [0x80] @ replicate ((119 - length m mod 64) mod 64) 0 @ be64 (8 * length m)"

definition sha1_spec :: "u8 list \<Rightarrow> u8 list" where
  "sha1_spec m = sha1_digest (process sha1_H0 (sha1_pad m))"

section \<open>Streaming\<close>

lemma process_blocks: "length a mod 64 = 0 \<Longrightarrow> process s (a @ b) = process (process s a) b"
proof (induction s a rule: process.induct)
  case (1 s m)
  show ?case
  proof (cases "length m \<ge> 64")
    case True
    then have "(length m - 64) mod 64 = 0" using "1.prems" by (simp add: mod_if [of "length m"])
    with "1.IH" True show ?thesis by (simp add: process.simps [of s])
  next
    case False
    then have "m = []" using "1.prems" by simp
    then show ?thesis by (simp add: process.simps [of s "[]"])
  qed
qed

lemma process_short: "length m < 64 \<Longrightarrow> process s m = s"
  by (simp add: process.simps)

lemma process_block: "length b = 64 \<Longrightarrow> process s b = sha1_transform s b"
  by (simp add: process.simps sha1_transform_block)

lemma full_blocks_process:
  "i \<le> length d \<Longrightarrow> full_blocks d i s = (i + (length d - i) div 64 * 64, process s (drop i d))"
proof (induction d i s rule: full_blocks.induct)
  case (1 d i s)
  show ?case
  proof (cases "i + 63 < length d")
    case True
    then have "(length d - i) div 64 = Suc ((length d - (i + 64)) div 64)"
      using div_if [of 64 "length d - i"] by simp
    moreover have "64 \<le> length d - i" using True by simp
    ultimately show ?thesis using 1 True
      by (simp add: full_blocks.simps [of d i s] process.simps [of s "drop i d"] sha1_transform_block add.commute)
  next
    case False
    with "1.prems" show ?thesis by (simp add: full_blocks.simps [of d i s] process_short)
  qed
qed

text \<open>The context after the bytes \<open>p\<close>.\<close>

definition partial :: "u8 list \<Rightarrow> u8 list" where
  "partial p = drop (length p div 64 * 64) p"

definition sha1_inv :: "SHA1Context \<Rightarrow> u8 list \<Rightarrow> bool" where
  "sha1_inv ctx p \<longleftrightarrow> sha_state ctx = process sha1_H0 p \<and> length (sha_buffer ctx) = 64 \<and>
     take (length p mod 64) (sha_buffer ctx) = partial p \<and>
     count_lo ctx = of_nat (length p * 8) \<and> count_hi ctx = of_nat (length p * 8 div 2 ^ 32)"

lemma length_partial: "length (partial p) = length p mod 64"
  by (simp add: partial_def minus_div_mult_eq_mod)

lemma process_partial:
  "process s (p @ d) = process (process s p) (partial p @ d)"
proof -
  let ?k = "length p div 64 * 64"
  have k: "length (take ?k p) mod 64 = 0" "take ?k p @ partial p = p" by (simp_all add: partial_def)
  have "process s p = process s (take ?k p)"
    using process_blocks [OF k(1), of s "partial p"] k(2) length_partial [of p] by (simp add: process_short)
  moreover have "process s (p @ d) = process (process s (take ?k p)) (partial p @ d)"
    using process_blocks [OF k(1), of s "partial p @ d"] k(2) by (metis append_assoc)
  ultimately show ?thesis by simp
qed

lemma partial_append: "partial (p @ d) = partial (partial p @ d)"
proof -
  let ?q = "length p div 64" and ?r = "length p mod 64"
  have p: "length p = ?q * 64 + ?r" by simp
  have len: "length (p @ d) div 64 = ?q + (?r + length d) div 64"
    using div_mult_self1 [of 64 "?r + length d" ?q] by (simp add: algebra_simps)
  have "drop ((?q + (?r + length d) div 64) * 64) (p @ d) = drop ((?r + length d) div 64 * 64) (drop (?q * 64) (p @ d))"
    by (simp add: algebra_simps)
  also have "drop (?q * 64) (p @ d) = partial p @ d" by (simp add: partial_def)
  finally show ?thesis unfolding partial_def [of "p @ d"] partial_def [of "partial p @ d"] len
    by (simp add: length_partial)
qed

lemma carry: "b < M \<Longrightarrow> (a + b) div M = a div M + (if (a + b) mod M < b then 1 else (0::nat))"
proof -
  assume b: "b < M"
  let ?r = "a mod M"
  have r: "?r < M" using b by simp
  have "(a + b) div M = a div M + (?r + b) div M" using div_add1_eq [of a b M] b by simp
  moreover have "(a + b) mod M = (?r + b) mod M" by (simp add: mod_add_left_eq)
  moreover have "(?r + b) div M = (if (?r + b) mod M < b then 1 else 0)"
  proof (cases "?r + b < M")
    case False
    then have "?r + b - M < M" using r b by linarith
    then have "(?r + b) div M = 1" "(?r + b) mod M = ?r + b - M"
      using False le_div_geq [of M "?r + b"] le_mod_geq [of M "?r + b"] b by simp_all
    moreover have "?r + b - M < b" using r False by linarith
    ultimately show ?thesis by simp
  qed simp
  ultimately show ?thesis by simp
qed

text \<open>Up to \<open>2 ^ 29\<close> bytes at once, the carry from the low word is counted right.\<close>

lemma count_bits_inv:
  assumes "count_lo ctx = of_nat (n * 8)" "count_hi ctx = of_nat (n * 8 div 2 ^ 32)" "len < 2 ^ 29"
  shows "count_lo (count_bits len ctx) = of_nat ((n + len) * 8)" "count_hi (count_bits len ctx) = of_nat ((n + len) * 8 div 2 ^ 32)"
proof -
  have lo: "count_lo ctx + of_nat (len * 8) = of_nat ((n + len) * 8)"
    by (simp add: assms(1) algebra_simps)
  then show "count_lo (count_bits len ctx) = of_nat ((n + len) * 8)" by (simp add: count_bits_def Let_def)
  have "len * 8 < 2 ^ 32" using assms(3) by simp
  from carry [OF this, of "n * 8"]
  have "(n + len) * 8 div 2 ^ 32 = n * 8 div 2 ^ 32 + (if (n + len) * 8 mod 2 ^ 32 < len * 8 then 1 else 0)"
    by (simp add: algebra_simps)
  moreover have "unat (of_nat ((n + len) * 8) :: u32) = (n + len) * 8 mod 2 ^ 32" by (subst unat_of_nat) simp
  moreover have "len div 2 ^ 29 = 0" using assms(3) by simp
  ultimately show "count_hi (count_bits len ctx) = of_nat ((n + len) * 8 div 2 ^ 32)"
    unfolding count_bits_def lo Let_def by (simp add: assms(2))
qed

lemma copy_in_front:
  "length b = 64 \<Longrightarrow> length q \<le> 64 \<Longrightarrow> length (copy_in 0 q b) = 64 \<and> take (length q) (copy_in 0 q b) = q"
  by (simp add: copy_in_def)

lemma sha1_update_inv:
  assumes inv: "sha1_inv ctx p" and d: "length d < 2 ^ 29"
  shows "sha1_inv (sha1_update d ctx) (p @ d)"
proof -
  let ?j = "length p mod 64" and ?ctx = "count_bits (length d) ctx"
  note ctx = inv [unfolded sha1_inv_def]
  have j: "unat (drop_bit 3 (count_lo ctx) AND 63) = ?j"
    unfolding filled_and_63 using ctx filled_of_nat by simp
  have count: "count_lo ?ctx = of_nat (length (p @ d) * 8)" "count_hi ?ctx = of_nat (length (p @ d) * 8 div 2 ^ 32)"
    using count_bits_inv [of ctx "length p" "length d"] ctx d by simp_all
  have same: "sha_state ?ctx = sha_state ctx" "sha_buffer ?ctx = sha_buffer ctx" by (simp_all add: count_bits_def Let_def)
  show ?thesis
  proof (cases "?j + length d > 63")
    case True
    let ?i = "64 - ?j"
    let ?b = "copy_in ?j (take ?i d) (sha_buffer ctx)"
    have i: "?i \<le> length d" using True by simp
    have b: "?b = partial p @ take ?i d" "length ?b = 64"
      using ctx i length_partial [of p] by (simp_all add: copy_in_def)
    let ?s = "sha1_transform (sha_state ctx) ?b" and ?k = "(length d - ?i) div 64 * 64"
    have state: "process sha1_H0 (p @ d) = process ?s (drop ?i d)"
    proof -
      have "partial p @ d = ?b @ drop ?i d" by (simp add: b(1))
      moreover have "length ?b mod 64 = 0" by (simp only: b(2)) simp
      ultimately show ?thesis
        using process_partial [of sha1_H0 p d] process_blocks [of ?b "sha_state ctx" "drop ?i d"] process_block [OF b(2)] ctx by metis
    qed
    have "partial (p @ d) = partial (?b @ drop ?i d)" unfolding partial_append [of p d] b(1) by simp
    also have "\<dots> = partial (drop ?i d)"
      using partial_append [of ?b "drop ?i d"] b(2) by (simp add: partial_def)
    also have "\<dots> = drop (?i + ?k) d" by (simp add: partial_def add.commute)
    finally have rest: "partial (p @ d) = drop (?i + ?k) d" .
    have len: "length (drop (?i + ?k) d) = length (p @ d) mod 64" unfolding rest [symmetric] by (rule length_partial)
    have "length (p @ d) mod 64 \<le> 64" by (rule less_imp_le) simp
    then have buf: "length (copy_in 0 (drop (?i + ?k) d) ?b) = 64" "take (length (p @ d) mod 64) (copy_in 0 (drop (?i + ?k) d) ?b) = drop (?i + ?k) d"
      using copy_in_front [OF b(2), of "drop (?i + ?k) d"] unfolding len by blast+
    have "sha1_update d ctx = ?ctx\<lparr> sha_state := process ?s (drop ?i d), sha_buffer := copy_in 0 (drop (?i + ?k) d) ?b \<rparr>"
      using True i by (simp add: sha1_update_def j same Let_def full_blocks_process)
    then show ?thesis using count state rest buf by (simp add: sha1_inv_def)
  next
    case False
    have "sha1_update d ctx = ?ctx\<lparr> sha_buffer := copy_in ?j d (sha_buffer ctx) \<rparr>"
      using False by (simp add: sha1_update_def j same Let_def)
    moreover have "length (p @ d) mod 64 = ?j + length d"
      using False mod_add_left_eq [of "length p" 64 "length d"] by simp
    moreover have "length (partial p @ d) div 64 = 0" using False length_partial [of p] by simp
    then have "partial (p @ d) = partial p @ d"
      unfolding partial_append [of p d] partial_def [of "partial p @ d"] by simp
    moreover have "process sha1_H0 (p @ d) = process sha1_H0 p"
      using process_partial [of sha1_H0 p d] False length_partial [of p] by (simp add: process_short)
    ultimately show ?thesis
      using count ctx False length_partial [of p] by (simp add: sha1_inv_def copy_in_def same)
  qed
qed

section \<open>The hash is that of the standard\<close>

text \<open>The zeros that are added.\<close>

definition zeros_for :: "nat \<Rightarrow> nat" where
  "zeros_for n = (120 - n mod 64) mod 64"

lemma zeros_for_step: "n mod 64 \<noteq> 56 \<Longrightarrow> zeros_for n = Suc (zeros_for (n + 1))"
proof -
  assume n: "n mod 64 \<noteq> 56"
  have "(n + 1) mod 64 = (if n mod 64 = 63 then 0 else n mod 64 + 1)" by (simp add: mod_Suc)
  moreover have "zeros_for m = (if m mod 64 \<le> 56 then 56 - m mod 64 else 120 - m mod 64)" for m
  proof (cases "m mod 64 \<le> 56")
    case True
    then have "120 - m mod 64 = 64 + (56 - m mod 64)" by simp
    with True show ?thesis unfolding zeros_for_def by (simp only: mod_add_self1) simp
  next
    case False
    moreover have "m mod 64 < 64" by simp
    ultimately show ?thesis unfolding zeros_for_def by simp
  qed
  moreover have "n mod 64 < 64" by simp
  ultimately show ?thesis using n by auto
qed

lemma pad_zeros_inv: "sha1_inv ctx p \<Longrightarrow> sha1_inv (pad_zeros ctx) (p @ replicate (zeros_for (length p)) 0)"
proof (induction ctx arbitrary: p rule: pad_zeros.induct)
  case (1 ctx)
  have f: "filled (count_lo ctx) = length p mod 64"
    using "1.prems" filled_of_nat [of "length p"] by (simp add: sha1_inv_def)
  show ?case
  proof (cases "length p mod 64 = 56")
    case True
    then have "count_lo ctx AND 504 = 448" "zeros_for (length p) = 0" using f filled_and_504 by (simp_all add: zeros_for_def)
    with "1.prems" show ?thesis by (simp add: pad_zeros.simps [of ctx])
  next
    case False
    then have c: "count_lo ctx AND 504 \<noteq> 448" using f filled_and_504 by simp
    have "sha1_inv (sha1_update [0] ctx) (p @ [0])" using sha1_update_inv [OF "1.prems"] by simp
    from "1.IH" [OF c this] show ?thesis
      using c zeros_for_step [OF False] by (simp add: pad_zeros.simps [of ctx])
  qed
qed

text \<open>The count as bytes.\<close>

lemma low_byte: "(ucast (drop_bit k (w :: u32) AND 255) :: u8) = of_nat (unat w div 2 ^ k mod 256)"
proof -
  have "(255::u32) = mask 8" by (simp add: mask_eq_exp_minus_1)
  then have "drop_bit k w AND 255 = take_bit 8 (drop_bit k w)" by (simp only: take_bit_eq_mask)
  then have "(ucast (drop_bit k w AND 255) :: u8) = ucast (drop_bit k w)"
    by (simp only:) (rule bit_word_eqI, auto simp: bit_simps)
  moreover have "unat (drop_bit k w) = unat w div 2 ^ k" by (subst unat_drop_bit_eq) (simp add: drop_bit_eq_div)
  moreover have "(ucast (drop_bit k w) :: u8) = of_nat (unat (drop_bit k w))" by simp
  moreover have "(of_nat m :: u8) = of_nat (m mod 256)" for m
    by (rule word_unat_eq_iff [THEN iffD2]) (simp add: unat_of_nat)
  ultimately show ?thesis by metis
qed

lemma mod_div_mod: "x mod 2 ^ 32 div 2 ^ k mod 256 = x div 2 ^ k mod (256::nat)" if "k \<le> 24"
proof -
  have pow: "(2::nat) ^ 32 = 2 ^ k * (256 * 2 ^ (24 - k))" using that power_add [of "2::nat" k "24 - k"] by simp
  have "x mod (a * b) div a = x div a mod b" if "0 < a" for a b :: nat using that by (simp add: mod_mult2_eq)
  then have "x mod 2 ^ 32 div 2 ^ k = x div 2 ^ k mod (256 * 2 ^ (24 - k))" unfolding pow by simp
  then show ?thesis by (simp only: mod_mod_cancel dvd_triv_left)
qed

lemma final_count_be64:
  assumes "count_lo ctx = of_nat (n * 8)" "count_hi ctx = of_nat (n * 8 div 2 ^ 32)" "n < 2 ^ 61"
  shows "final_count ctx = be64 (8 * n)"
proof -
  have lo: "unat (count_lo ctx) = 8 * n mod 2 ^ 32" unfolding assms(1) by (subst unat_of_nat) (simp add: mult.commute)
  have "8 * n div 2 ^ 32 < 2 ^ 32" using assms(3) by simp
  then have hi: "unat (count_hi ctx) = 8 * n div 2 ^ 32" unfolding assms(2) by (subst unat_of_nat) (simp add: mult.commute)
  have bytes: "of_nat (unat (count_hi ctx) div 2 ^ k mod 256) = (of_nat (8 * n div 2 ^ (32 + k) mod 256) :: u8)"
    "k \<le> 24 \<Longrightarrow> of_nat (unat (count_lo ctx) div 2 ^ k mod 256) = (of_nat (8 * n div 2 ^ k mod 256) :: u8)" for k
    unfolding hi lo using mod_div_mod [of k "8 * n"] by (simp_all only: power_add div_mult2_eq)
  have "[0..<8] = [0, 1, 2, 3, 4, 5, 6, 7]" by (simp add: upt_rec)
  then show ?thesis
    using bytes(1) [of 24] bytes(1) [of 16] bytes(1) [of 8] bytes(1) [of 0]
      bytes(2) [of 24] bytes(2) [of 16] bytes(2) [of 8] bytes(2) [of 0]
    unfolding final_count_def be64_def low_byte by simp
qed

text \<open>C14. The hash of a message of less than \<open>2 ^ 29\<close> bytes is that of the standard: of the blocks of the message
  padded with one bit, zeros and its length, whatever the block buffer held before.\<close>

theorem sha1_is_standard:
  assumes "length buffer = 64" "length m < 2 ^ 29"
  shows "sha1 buffer m = sha1_spec m"
proof -
  let ?ctx = "sha1_update m (sha1_init buffer)" and ?m1 = "m @ [0x80]"
  let ?m2 = "?m1 @ replicate (zeros_for (length ?m1)) 0"
  have "sha1_inv (sha1_init buffer) []"
    using assms(1) by (simp add: sha1_inv_def sha1_init_def sha1_H0_def partial_def process_short)
  then have m: "sha1_inv ?ctx m" using sha1_update_inv assms(2) by fastforce
  then have "sha1_inv (sha1_update [0x80] ?ctx) ?m1" using sha1_update_inv by simp
  then have padded: "sha1_inv (pad_zeros (sha1_update [0x80] ?ctx)) ?m2" by (rule pad_zeros_inv)
  have count: "final_count ?ctx = be64 (8 * length m)"
    using m assms(2) final_count_be64 [of ?ctx "length m"] by (simp add: sha1_inv_def)
  have "length (be64 (8 * length m)) < 2 ^ 29" by (simp add: be64_def)
  then have "sha1_inv (sha1_update (final_count ?ctx) (pad_zeros (sha1_update [0x80] ?ctx))) (?m2 @ be64 (8 * length m))"
    unfolding count by (rule sha1_update_inv [OF padded])
  moreover have "zeros_for (length ?m1) = (119 - length m mod 64) mod 64"
  proof (cases "length m mod 64 = 63")
    case True
    then show ?thesis by (simp add: zeros_for_def mod_Suc)
  next
    case False
    then show ?thesis by (simp add: zeros_for_def mod_Suc)
  qed
  then have "?m2 @ be64 (8 * length m) = sha1_pad m" by (simp add: sha1_pad_def)
  ultimately show ?thesis
    unfolding sha1_def sha1_final_def sha1_spec_def by (simp add: sha1_inv_def Let_def)
qed

theorem sha1_is_standard_witness:
  "sha1 (replicate 64 7) [0x61, 0x62, 0x63] = sha1_spec [0x61, 0x62, 0x63]"
  by (rule sha1_is_standard) simp_all

text \<open>From \<open>2 ^ 29\<close> bytes at once on, the comparison of 32 with 64 bits always finds a carry, which \<open>len >> 29\<close>
  counts again: the length of a message of that size is counted as twice as much.\<close>

lemma long_data_counted_twice:
  "count_hi (count_bits (2 ^ 29) (sha1_init buffer)) = 2" "(2 ^ 29 * 8 :: nat) div 2 ^ 32 = 1"
  by (simp_all add: count_bits_def sha1_init_def Let_def)

end
