(* ===== verification/Sihd_Device.thy ===== *)
theory Sihd_Device
  imports Sihd_Lifecycle Sihd_Channel
begin

text \<open>
  Devices: services that drive the services below them (core/Device.cpp) and hold channels
  (core/AChannelContainer.cpp). A device is a tree of services, each under one of the controllers of
  \<open>Sihd_Service\<close>. What the classes of the program do in their own methods, \<open>do_OP\<close> of a service and \<open>on_OP\<close>
  of a device, is an argument that changes the rest of the program's state; so is the resolution of links, whose
  targets are objects that are not services of the device.
\<close>

section \<open>Channels of a container\<close>

record ChannelConfiguration =
  cf_type :: Type
  cf_size :: nat
  cf_match :: bool
  cf_resizable :: bool

text \<open>\<open>added\<close> is the result of \<open>add_child\<close>.\<close>

definition container_add_channel :: "'e ArrayEnv_scheme \<Rightarrow> bool \<Rightarrow> Type \<Rightarrow> nat \<Rightarrow> Channel option cxx" where
  "container_add_channel e added t n = cxx_bind (new_Channel e t n) (\<lambda>c. Val (if added then Some c else None))"

definition container_add_channel_resizable ::
    "'e ArrayEnv_scheme \<Rightarrow> bool \<Rightarrow> Type \<Rightarrow> nat \<Rightarrow> nat \<Rightarrow> Channel option cxx" where
  "container_add_channel_resizable e added t n cap =
     cxx_bind (container_add_channel e added t n) (\<lambda>c.
     case c of
       None \<Rightarrow> Val None
     | Some c \<Rightarrow> cxx_bind (ch_reserve e cap c) (\<lambda>(_, c). Val (Some (set_resizable True c))))"

type_synonym channels_link = "string \<rightharpoonup> ChannelConfiguration"

definition add_unlinked_channel :: "'e ArrayEnv_scheme \<Rightarrow> bool \<Rightarrow> bool \<Rightarrow> string \<Rightarrow> Type \<Rightarrow> nat \<Rightarrow> bool \<Rightarrow> channels_link
    \<Rightarrow> (Channel option \<times> channels_link) cxx" where
  "add_unlinked_channel e linked added name t n check_match links =
     (if linked
      then Val (None, links(name \<mapsto> \<lparr> cf_type = t, cf_size = n, cf_match = check_match, cf_resizable = False \<rparr>))
      else cxx_bind (container_add_channel e added t n) (\<lambda>c. Val (c, links)))"

definition add_unlinked_channel_resizable :: "'e ArrayEnv_scheme \<Rightarrow> bool \<Rightarrow> bool \<Rightarrow> string \<Rightarrow> Type \<Rightarrow> nat \<Rightarrow> nat \<Rightarrow> bool
    \<Rightarrow> channels_link \<Rightarrow> (Channel option \<times> channels_link) cxx" where
  "add_unlinked_channel_resizable e linked added name t n cap check_match links =
     (if linked
      then Val (None, links(name \<mapsto> \<lparr> cf_type = t, cf_size = n, cf_match = check_match, cf_resizable = True \<rparr>))
      else cxx_bind (container_add_channel_resizable e added t n cap) (\<lambda>c. Val (c, links)))"

text \<open>Whether the object a link leads to may stand for the channel; objects that are no channels always may.\<close>

definition container_on_check_link :: "channels_link \<Rightarrow> string \<Rightarrow> Channel option \<Rightarrow> bool" where
  "container_on_check_link links name child = (case child of
     None \<Rightarrow> True
   | Some c \<Rightarrow>
       (case links name of
          None \<Rightarrow> True
        | Some conf \<Rightarrow>
            cf_resizable conf = ch_resizable c \<and>
            \<not> (cf_match conf \<and> cf_type conf \<noteq> ch_type c) \<and>
            \<not> (cf_match conf \<and> cf_size conf \<noteq> ch_size c)))"

definition remove_channel_observer :: "nat \<Rightarrow> nat \<Rightarrow> Net \<Rightarrow> Net" where
  "remove_channel_observer x c net =
     set_channel c ((channels net ! c)\<lparr> ch_observers := remove_observer x (ch_observers (channels net ! c)) \<rparr>) net"

text \<open>Observing, with the list of the channels that are observed.\<close>

definition container_observe :: "nat \<Rightarrow> nat option \<Rightarrow> nat list \<times> Net \<Rightarrow> bool \<times> nat list \<times> Net" where
  "container_observe x c s = (case (c, s) of
     (None, observed, net) \<Rightarrow> (False, observed, net)
   | (Some c, observed, net) \<Rightarrow>
       (case observe x c net of (added, net) \<Rightarrow> (True, if added then observed @ [c] else observed, net)))"

definition remove_channels_observation :: "nat \<Rightarrow> nat list \<times> Net \<Rightarrow> nat list \<times> Net" where
  "remove_channels_observation x s = (case s of (observed, net) \<Rightarrow> ([], fold (remove_channel_observer x) observed net))"

text \<open>What a device declares and what another makes when it is not linked agree.\<close>

lemma unlinked_channel_passes_check:
  assumes "add_unlinked_channel e True a name t n m links = Val (r, links')"
    and "add_unlinked_channel e False True name' t n m' other = Val (Some c, other')"
  shows "container_on_check_link links' name (Some c) \<longleftrightarrow> m \<longrightarrow> ch_size c = n"
  using assms
  by (auto simp: add_unlinked_channel_def container_add_channel_def new_Channel_def container_on_check_link_def
      cxx_bind_Val_iff split: if_splits)

section \<open>The tree\<close>

datatype ctrl =
    NoCtrl
  | DefCtrl ServiceController
  | BlkCtrl BlockingServiceController
  | ThrCtrl ThreadedServiceController

text \<open>Children that are not services, services with a number, a controller and how often observers were
  notified, and devices with their children in order.\<close>

datatype device_node =
    Plain
  | Leaf nat ctrl nat
  | Dev nat ServiceController nat "device_node list"

record 'w Program =
  do_leaf :: "nat \<Rightarrow> Operation \<Rightarrow> 'w \<Rightarrow> bool \<times> 'w"
  on_op :: "nat \<Rightarrow> Operation \<Rightarrow> 'w \<Rightarrow> bool \<times> 'w"
  dev_links :: "nat \<Rightarrow> 'w \<Rightarrow> bool \<times> 'w"
  dev_unobserve :: "nat \<Rightarrow> 'w \<Rightarrow> 'w"

definition new_device_controller :: ServiceController where
  "new_device_controller = optional_setup new_ServiceController"

text \<open>
  An operation of \<open>AService\<close> under a controller. \<open>r\<close> is what the body \<open>do_OP\<close> gives, which only counts when
  the controller accepts.
\<close>

fun ctrl_op :: "ctrl \<Rightarrow> Operation \<Rightarrow> bool \<times> 's \<Rightarrow> 's \<Rightarrow> nat \<Rightarrow> ctrl \<times> 's \<times> nat \<times> bool" where
  "ctrl_op NoCtrl op r s k =
     (case aservice_op sc_op_start sc_op_end (\<lambda>_ _. r) \<lparr> svc_ctrl = None, svc_world = s, svc_notified = k \<rparr> op of
        (a, ret) \<Rightarrow> (NoCtrl, svc_world a, svc_notified a, ret))"
| "ctrl_op (DefCtrl c) op r s k =
     (case aservice_op sc_op_start sc_op_end (\<lambda>_ _. r) \<lparr> svc_ctrl = Some c, svc_world = s, svc_notified = k \<rparr> op of
        (a, ret) \<Rightarrow> (DefCtrl (the (svc_ctrl a)), svc_world a, svc_notified a, ret))"
| "ctrl_op (BlkCtrl c) op r s k =
     (case aservice_op b_op_start b_op_end (\<lambda>_ _. r) \<lparr> svc_ctrl = Some c, svc_world = s, svc_notified = k \<rparr> op of
        (a, ret) \<Rightarrow> (BlkCtrl (the (svc_ctrl a)), svc_world a, svc_notified a, ret))"
| "ctrl_op (ThrCtrl c) op r s k =
     (case aservice_op t_op_start t_op_end (\<lambda>_ _. r) \<lparr> svc_ctrl = Some c, svc_world = s, svc_notified = k \<rparr> op of
        (a, ret) \<Rightarrow> (ThrCtrl (the (svc_ctrl a)), svc_world a, svc_notified a, ret))"

declare ctrl_op.simps [simp del]

fun the_def :: "ctrl \<Rightarrow> ServiceController" where
  "the_def (DefCtrl c) = c"
| "the_def _ = new_ServiceController"

definition dev_result :: "nat \<Rightarrow> ServiceController \<Rightarrow> nat \<Rightarrow> Operation \<Rightarrow> bool \<times> device_node list \<times> 'w \<Rightarrow> device_node list \<times> 'w
    \<Rightarrow> bool \<times> device_node \<times> 'w" where
  "dev_result i c k op r s = (case ctrl_op (DefCtrl c) op r s k of
     (c, (ks, w), k, ret) \<Rightarrow> (ret, Dev i (the_def c) k ks, w))"

text \<open>
  All operations but \<open>start\<close>. The children take part one after the other, whatever they return; \<open>dev_body\<close> is the rest
  of \<open>do_setup\<close>, \<open>do_init\<close>, \<open>do_stop\<close> and \<open>do_reset\<close>, given what the children returned.
\<close>

definition dev_body :: "'w Program \<Rightarrow> nat \<Rightarrow> Operation \<Rightarrow> bool \<times> device_node list \<times> 'w \<Rightarrow> bool \<times> device_node list \<times> 'w" where
  "dev_body P i op r = (case r of (ret, ks, w) \<Rightarrow>
     if op = Stop \<or> op = Reset
     then (case on_op P i op w of (b, w) \<Rightarrow> (b \<and> ret, if op = Reset then [] else ks, w))
     else if ret then (case on_op P i op w of (b, w) \<Rightarrow> (b, ks, w))
     else (False, ks, w))"

fun other_op :: "'w Program \<Rightarrow> Operation \<Rightarrow> device_node \<Rightarrow> 'w \<Rightarrow> bool \<times> device_node \<times> 'w"
  and other_ops :: "'w Program \<Rightarrow> Operation \<Rightarrow> device_node list \<Rightarrow> 'w \<Rightarrow> bool \<times> device_node list \<times> 'w" where
  "other_op P op Plain w = (True, Plain, w)"
| "other_op P op (Leaf i c k) w = (case ctrl_op c op (do_leaf P i op w) w k of (c, w, k, ret) \<Rightarrow> (ret, Leaf i c k, w))"
| "other_op P op (Dev i c k ks) w =
     dev_result i c k op (dev_body P i op (other_ops P op ks (if op = Stop then dev_unobserve P i w else w))) (ks, w)"
| "other_ops P op [] w = (True, [], w)"
| "other_ops P op (t # ts) w =
     (case other_op P op t w of (b, t, w) \<Rightarrow>
      case other_ops P op ts w of (ret, ts, w) \<Rightarrow> (b \<and> ret, t # ts, w))"

text \<open>The services that were started are stopped again.\<close>

fun stop_started :: "'w Program \<Rightarrow> (bool \<times> device_node) list \<Rightarrow> 'w \<Rightarrow> device_node list \<times> 'w" where
  "stop_started P [] w = ([], w)"
| "stop_started P ((started, t) # ts) w =
     (case (if started then snd (other_op P Stop t w) else (t, w)) of (t, w) \<Rightarrow>
      case stop_started P ts w of (ts, w) \<Rightarrow> (t # ts, w))"

fun is_service :: "device_node \<Rightarrow> bool" where
  "is_service Plain = False"
| "is_service _ = True"

text \<open>\<open>start\<close> goes on to the first service that cannot be started; each child comes back with whether it was
  started.\<close>

fun start_op :: "'w Program \<Rightarrow> device_node \<Rightarrow> 'w \<Rightarrow> bool \<times> device_node \<times> 'w"
  and start_ops :: "'w Program \<Rightarrow> device_node list \<Rightarrow> 'w \<Rightarrow> bool \<times> (bool \<times> device_node) list \<times> 'w" where
  "start_op P Plain w = (True, Plain, w)"
| "start_op P (Leaf i c k) w = (case ctrl_op c Start (do_leaf P i Start w) w k of (c, w, k, ret) \<Rightarrow> (ret, Leaf i c k, w))"
| "start_op P (Dev i c k ks) w =
     (let r =
        (case start_ops P ks w of (ret, ts, w) \<Rightarrow>
         case (if ret then dev_links P i w else (False, w)) of (ret, w) \<Rightarrow>
         case (if ret then on_op P i Start w else (False, w)) of (ret, w) \<Rightarrow>
           if ret then (True, map snd ts, w)
           else (case stop_started P ts w of (ts, w) \<Rightarrow> (False, ts, w))) in
      dev_result i c k Start r (ks, w))"
| "start_ops P [] w = (True, [], w)"
| "start_ops P (t # ts) w =
     (case start_op P t w of (b, t', w) \<Rightarrow>
        if b then (case start_ops P ts w of (ret, ts, w) \<Rightarrow> (ret, (is_service t, t') # ts, w))
        else (False, (False, t') # map (Pair False) ts, w))"

definition service_op :: "'w Program \<Rightarrow> Operation \<Rightarrow> device_node \<Rightarrow> 'w \<Rightarrow> bool \<times> device_node \<times> 'w" where
  "service_op P op t w = (if op = Start then start_op P t w else other_op P op t w)"

definition service_run :: "'w Program \<Rightarrow> Operation list \<Rightarrow> device_node \<Rightarrow> 'w \<Rightarrow> device_node \<times> 'w" where
  "service_run P ops t w = fold (\<lambda>op (t, w). snd (service_op P op t w)) ops (t, w)"

text \<open>The destructor of a device without a parent.\<close>

fun last_event :: "device_node \<Rightarrow> Operation option" where
  "last_event (Dev i c k ks) = Some (sm_last_event (statemachine c))"
| "last_event _ = None"

definition destroy_device :: "'w Program \<Rightarrow> device_node \<Rightarrow> 'w \<Rightarrow> device_node \<times> 'w" where
  "destroy_device P t w =
     (case (if last_event t = Some Start then snd (service_op P Stop t w) else (t, w)) of (t, w) \<Rightarrow>
        if last_event t = Some Stop then snd (service_op P Reset t w) else (t, w))"


section \<open>Controllers\<close>

fun ctrl_running :: "ctrl \<Rightarrow> bool" where
  "ctrl_running NoCtrl = False"
| "ctrl_running (DefCtrl c) = (sc_state c = Running)"
| "ctrl_running (BlkCtrl c) = (b_current_state c = BRunning)"
| "ctrl_running (ThrCtrl c) = (t_current_state c = TRunning)"

fun ctrl_settled :: "ctrl \<Rightarrow> bool" where
  "ctrl_settled (DefCtrl c) = (\<exists>os oi. sc_settled os oi c)"
| "ctrl_settled (ThrCtrl c) = t_settled c"
| "ctrl_settled _ = True"

text \<open>What an operation does to a controller at rest: it is refused and changes nothing, or the result of the body
  decides about the next state.\<close>

definition ctrl_effect :: "ctrl \<Rightarrow> Operation \<Rightarrow> bool \<Rightarrow> ctrl \<Rightarrow> bool" where
  "ctrl_effect c op ret c' \<longleftrightarrow> ctrl_settled c' \<and>
     (op = Start \<longrightarrow> ret \<longrightarrow> c = NoCtrl \<or> ctrl_running c') \<and>
     (op = Start \<longrightarrow> \<not> ret \<longrightarrow> \<not> ctrl_running c') \<and>
     (op \<noteq> Start \<longrightarrow> ctrl_running c' \<longrightarrow> ctrl_running c \<and> op \<noteq> Stop)"

lemma default_ctrl_op:
  assumes "sc_settled os oi c" "lifecycle_op op" "ctrl_op (DefCtrl c) op r s k = (c', s', k', ret)"
  shows "c' = DefCtrl c \<and> s' = s \<and> \<not> ret \<and> lifecycle os oi (sc_state c) op b = None \<or>
    (\<exists>d. c' = DefCtrl d \<and> s' = snd r \<and> ret = fst r \<and> sc_settled os oi d \<and> lifecycle os oi (sc_state c) op ret = Some (sc_state d))"
proof (cases "sc_op_start c op")
  case (Pair c1 accepted)
  show ?thesis
  proof (cases accepted)
    case False
    with Pair have "c1 = c" by (auto dest: sc.refused_keeps)
    with Pair False sc_op_lifecycle [OF assms(1,2), of b] assms(3) show ?thesis by (simp add: aservice_op_def ctrl_op.simps)
  next
    case True
    have "lifecycle os oi (sc_state c) op (fst r) = Some (sc_state (fst (sc_op_end c1 op (fst r))))"
        "sc_settled os oi (fst (sc_op_end c1 op (fst r)))"
      using sc_op_lifecycle [OF assms(1,2), of "fst r"] Pair True by simp_all
    moreover have "c' = DefCtrl (fst (sc_op_end c1 op (fst r)))" "s' = snd r" "ret = fst r"
      using assms(3) Pair True by (auto simp: aservice_op_def ctrl_op.simps Let_def split: prod.splits if_splits)
    ultimately show ?thesis by blast
  qed
qed

lemma lifecycle_running:
  "lifecycle os oi x op ret = Some y \<Longrightarrow> (y = Running \<longleftrightarrow> op = Start \<and> ret) \<and> (x = Running \<longleftrightarrow> op = Stop)"
  by (cases "(os, oi, x, op, ret)" rule: lifecycle.cases) (auto split: if_splits)

lemma stop_accepted: "lifecycle os oi Running Stop b \<noteq> None"
  by simp

text \<open>A device under its controller.\<close>

lemma dev_result_cases:
  assumes "sc_settled os oi c" "lifecycle_op op" "dev_result i c k op r (ks, w) = (ret, t', w')"
  obtains (refused) k' where "t' = Dev i c k' ks" "w' = w" "\<not> ret" "\<And>b. lifecycle os oi (sc_state c) op b = None"
  | (accepted) d k' where "t' = Dev i d k' (fst (snd r))" "w' = snd (snd r)" "ret = fst r" "sc_settled os oi d"
      "sc_state d = Running \<longleftrightarrow> op = Start \<and> ret" "sc_state c = Running \<longleftrightarrow> op = Stop"
proof -
  obtain c' s' k' ret' where run: "ctrl_op (DefCtrl c) op r (ks, w) k = (c', s', k', ret')" by (metis prod_cases4)
  have t': "t' = Dev i (the_def c') k' (fst s')" "w' = snd s'" "ret = ret'"
    using assms(3) by (auto simp: dev_result_def run split: prod.splits)
  show ?thesis
  proof (cases "c' = DefCtrl c \<and> s' = (ks, w) \<and> \<not> ret' \<and> (\<forall>b. lifecycle os oi (sc_state c) op b = None)")
    case True
    then show ?thesis using refused t' by simp
  next
    case False
    then obtain d where "c' = DefCtrl d" "s' = snd r" "ret' = fst r" "sc_settled os oi d"
        "lifecycle os oi (sc_state c) op ret' = Some (sc_state d)"
      using default_ctrl_op [OF assms(1,2) run] by blast
    then show ?thesis using accepted t' lifecycle_running by simp
  qed
qed

lemma ctrl_op_effect:
  assumes "ctrl_settled c" "lifecycle_op op" "ctrl_op c op r s k = (c', s', k', ret)" "op = Start \<Longrightarrow> \<not> ret \<Longrightarrow> \<not> ctrl_running c"
  shows "ctrl_effect c op ret c'"
proof (cases c)
  case NoCtrl
  then show ?thesis using assms(3) by (auto simp: ctrl_effect_def ctrl_op.simps split: prod.splits)
next
  case (DefCtrl d)
  then obtain os oi where d: "sc_settled os oi d" using assms(1) by auto
  from default_ctrl_op [OF this assms(2) assms(3) [unfolded DefCtrl], of True] show ?thesis
  proof
    assume "c' = DefCtrl d \<and> s' = s \<and> \<not> ret \<and> lifecycle os oi (sc_state d) op True = None"
    moreover from this have "sc_state d = Running \<Longrightarrow> op \<noteq> Stop" using stop_accepted by metis
    ultimately show ?thesis using d assms(4) DefCtrl by (auto simp: ctrl_effect_def)
  next
    assume "\<exists>e. c' = DefCtrl e \<and> s' = snd r \<and> ret = fst r \<and> sc_settled os oi e \<and> lifecycle os oi (sc_state d) op ret = Some (sc_state e)"
    then obtain e where e: "c' = DefCtrl e" "sc_settled os oi e" "lifecycle os oi (sc_state d) op ret = Some (sc_state e)" by blast
    from e(2) have "ctrl_settled c'" unfolding e(1) ctrl_settled.simps by blast
    then show ?thesis using DefCtrl lifecycle_running [OF e(3)] by (auto simp: ctrl_effect_def e(1))
  qed
next
  case (BlkCtrl d)
  then show ?thesis using assms
    by (cases "b_current_state d"; cases op; cases "fst r") (auto simp: ctrl_effect_def ctrl_op.simps aservice_op_def split: prod.splits if_splits)
next
  case (ThrCtrl d)
  then show ?thesis using assms
    by (cases "t_current_state d"; cases op; cases "fst r")
      (auto simp: ctrl_effect_def ctrl_op.simps aservice_op_def t_settled_def split: prod.splits if_splits)
qed


section \<open>What runs below a device\<close>

text \<open>No service of the tree is running, and all that have a controller are.\<close>

fun quiet :: "device_node \<Rightarrow> bool" where
  "quiet Plain = True"
| "quiet (Leaf i c k) = (\<not> ctrl_running c)"
| "quiet (Dev i c k ks) = (sc_state c \<noteq> Running \<and> (\<forall>t \<in> set ks. quiet t))"

fun all_running :: "device_node \<Rightarrow> bool" where
  "all_running Plain = True"
| "all_running (Leaf i c k) = (c = NoCtrl \<or> ctrl_running c)"
| "all_running (Dev i c k ks) = (sc_state c = Running \<and> (\<forall>t \<in> set ks. all_running t))"

text \<open>Controllers are at rest, and below a device that is not running nothing runs.\<close>

fun orderly :: "device_node \<Rightarrow> bool" where
  "orderly Plain = True"
| "orderly (Leaf i c k) = ctrl_settled c"
| "orderly (Dev i c k ks) \<longleftrightarrow> ctrl_settled (DefCtrl c) \<and> (\<forall>t \<in> set ks. orderly t) \<and>
     (sc_state c \<noteq> Running \<longrightarrow> (\<forall>t \<in> set ks. quiet t))"

definition other_operation :: "Operation \<Rightarrow> bool" where
  "other_operation op \<longleftrightarrow> op \<in> {Setup, Init, Stop, Reset}"

lemma other_operation_lifecycle: "other_operation op \<Longrightarrow> lifecycle_op op"
  by (auto simp: other_operation_def)

lemma other_op_orderly:
  "other_op P op t w = (ret, t', w') \<Longrightarrow> other_operation op \<Longrightarrow> orderly t \<Longrightarrow>
    orderly t' \<and> (quiet t \<or> op = Stop \<longrightarrow> quiet t')"
  "other_ops P op ts w = (ret, ts', w') \<Longrightarrow> other_operation op \<Longrightarrow> (\<forall>t \<in> set ts. orderly t) \<Longrightarrow>
    (\<forall>t \<in> set ts'. orderly t) \<and> ((\<forall>t \<in> set ts. quiet t) \<or> op = Stop \<longrightarrow> (\<forall>t \<in> set ts'. quiet t))"
proof (induction P op t w and P op ts w arbitrary: ret t' w' and ret ts' w' rule: other_op_other_ops.induct)
  case (2 P op i c k w)
  obtain c1 s1 k1 r1 where run: "ctrl_op c op (do_leaf P i op w) w k = (c1, s1, k1, r1)" by (metis prod_cases4)
  have op: "op \<noteq> Start" using "2.prems"(2) by (auto simp: other_operation_def)
  have "ctrl_settled c" using "2.prems"(3) by simp
  from ctrl_op_effect [OF this other_operation_lifecycle [OF "2.prems"(2)] run] op
  have eff: "ctrl_effect c op r1 c1" by simp
  have "t' = Leaf i c1 k1" using "2.prems"(1) run by simp
  then show ?case using eff op by (auto simp: ctrl_effect_def)
next
  case (3 P op i c k ks w)
  obtain os oi where c: "sc_settled os oi c" and ks: "\<forall>t \<in> set ks. orderly t" "sc_state c \<noteq> Running \<Longrightarrow> \<forall>t \<in> set ks. quiet t"
    using "3.prems"(3) by auto
  note op = "3.prems"(2)
  obtain b ts v where kids: "other_ops P op ks (if op = Stop then dev_unobserve P i w else w) = (b, ts, v)" by (metis prod_cases3)
  define r where "r = dev_body P i op (b, ts, v)"
  have "fst (snd r) = (if op = Reset then [] else ts)" by (auto simp: r_def dev_body_def split: prod.splits)
  then have r: "dev_result i c k op r (ks, w) = (ret, t', w')"
    "(\<forall>t \<in> set (fst (snd r)). orderly t) \<and> ((\<forall>t \<in> set ks. quiet t) \<or> op = Stop \<longrightarrow> (\<forall>t \<in> set (fst (snd r)). quiet t))"
    using "3.prems"(1) "3.IH" [OF kids op ks(1)] kids by (simp_all add: r_def)
  show ?case
  proof (cases rule: dev_result_cases [OF c other_operation_lifecycle [OF op] r(1), case_names refused accepted])
    case (refused k')
    have "quiet t'" if "quiet (Dev i c k ks) \<or> op = Stop"
    proof -
      have "sc_state c \<noteq> Running" using that refused(4) stop_accepted by (metis quiet.simps(3))
      then show ?thesis using ks(2) refused(1) by simp
    qed
    then show ?thesis using refused(1) "3.prems"(3) by auto
  next
    case (accepted d k')
    have "op \<noteq> Start" using op by (auto simp: other_operation_def)
    then have "\<forall>t \<in> set (fst (snd r)). quiet t" "sc_state d \<noteq> Running" using r(2) ks(2) accepted(5,6) by auto
    then show ?thesis using accepted(1,4) r(2) by auto
  qed
next
  case (5 P op t ts w)
  obtain b t1 w1 where t1: "other_op P op t w = (b, t1, w1)" by (metis prod_cases3)
  obtain b2 ts2 w2 where ts2: "other_ops P op ts w1 = (b2, ts2, w2)" by (metis prod_cases3)
  have "ts' = t1 # ts2" using "5.prems"(1) t1 ts2 by simp
  moreover have "orderly t1 \<and> (quiet t \<or> op = Stop \<longrightarrow> quiet t1)"
    using "5.IH"(1) [OF t1 "5.prems"(2)] "5.prems"(3) by simp
  moreover have "(\<forall>t \<in> set ts2. orderly t) \<and> ((\<forall>t \<in> set ts. quiet t) \<or> op = Stop \<longrightarrow> (\<forall>t \<in> set ts2. quiet t))"
    using "5.IH"(2) [OF t1 [symmetric] refl ts2 "5.prems"(2)] "5.prems"(3) by simp
  ultimately show ?case by simp
qed simp_all

lemma stop_started_quiet:
  "stop_started P ts w = (ts', w') \<Longrightarrow> (\<forall>(b, t) \<in> set ts. orderly t \<and> (\<not> b \<longrightarrow> quiet t)) \<Longrightarrow>
    (\<forall>t \<in> set ts'. orderly t \<and> quiet t)"
proof (induction P ts w arbitrary: ts' w' rule: stop_started.induct)
  case (2 P b t ts w)
  obtain t1 w1 where t1: "(if b then snd (other_op P Stop t w) else (t, w)) = (t1, w1)" by fastforce
  have "orderly t1 \<and> quiet t1"
  proof (cases b)
    case True
    then obtain r where "other_op P Stop t w = (r, t1, w1)" using t1 by (metis prod.collapse)
    then show ?thesis using other_op_orderly(1) [of P Stop t w r t1 w1] 2 by (auto simp: other_operation_def)
  next
    case False
    then show ?thesis using t1 2 by auto
  qed
  then show ?case using 2 t1 by (auto split: prod.splits)
qed simp

lemma start_op_orderly:
  "start_op P t w = (ret, t', w') \<Longrightarrow> orderly t \<Longrightarrow> quiet t \<Longrightarrow>
    orderly t' \<and> (ret \<longrightarrow> all_running t') \<and> (\<not> ret \<longrightarrow> quiet t') \<and> is_service t' = is_service t \<and> (\<not> is_service t' \<longrightarrow> quiet t')"
  "start_ops P ks w = (ret, ts, w') \<Longrightarrow> (\<forall>t \<in> set ks. orderly t \<and> quiet t) \<Longrightarrow>
    (\<forall>(b, t) \<in> set ts. orderly t \<and> (\<not> b \<longrightarrow> quiet t)) \<and> (ret \<longrightarrow> (\<forall>(b, t) \<in> set ts. all_running t))"
proof (induction P t w and P ks w arbitrary: ret t' w' and ret ts w' rule: start_op_start_ops.induct)
  case (2 P i c k w)
  obtain c1 s1 k1 r1 where run: "ctrl_op c Start (do_leaf P i Start w) w k = (c1, s1, k1, r1)" by (metis prod_cases4)
  have eff: "ctrl_effect c Start r1 c1" using ctrl_op_effect [OF _ _ run] "2.prems" by simp
  have c1: "c = NoCtrl \<Longrightarrow> c1 = NoCtrl" using run by (auto simp: ctrl_op.simps split: prod.splits)
  have "t' = Leaf i c1 k1" "ret = r1" using "2.prems"(1) run by simp_all
  then show ?case using eff c1 by (auto simp: ctrl_effect_def)
next
  case (3 P i c k ks w)
  obtain os oi where c: "sc_settled os oi c" and ks: "\<forall>t \<in> set ks. orderly t \<and> quiet t" and idle: "sc_state c \<noteq> Running"
    using "3.prems" by auto
  obtain b ts v where kids: "start_ops P ks w = (b, ts, v)" by (metis prod_cases3)
  have ts: "\<forall>(b, t) \<in> set ts. orderly t \<and> (\<not> b \<longrightarrow> quiet t)" "b \<Longrightarrow> \<forall>(b, t) \<in> set ts. all_running t"
    using "3.IH" [OF kids ks] by blast+
  obtain r where r: "dev_result i c k Start r (ks, w) = (ret, t', w')"
    "\<forall>t \<in> set (fst (snd r)). orderly t" "fst r \<Longrightarrow> \<forall>t \<in> set (fst (snd r)). all_running t" "\<not> fst r \<Longrightarrow> \<forall>t \<in> set (fst (snd r)). quiet t"
  proof -
    obtain l v1 where l: "(if b then dev_links P i v else (False, v)) = (l, v1)" by fastforce
    obtain h v2 where h: "(if l then on_op P i Start v1 else (False, v1)) = (h, v2)" by fastforce
    obtain ts1 v3 where st: "stop_started P ts v2 = (ts1, v3)" by fastforce
    have "h \<Longrightarrow> b" using h l by (auto split: if_splits)
    then have "h \<Longrightarrow> \<forall>t \<in> set (map snd ts). all_running t" using ts(2) by auto
    moreover have "\<forall>t \<in> set (map snd ts). orderly t" using ts(1) by auto
    moreover have "\<forall>t \<in> set ts1. orderly t \<and> quiet t" using st ts(1) by (rule stop_started_quiet)
    moreover have "dev_result i c k Start (if h then (True, map snd ts, v2) else (False, ts1, v3)) (ks, w) = (ret, t', w')"
      using "3.prems"(1) kids l h st by (cases h) (simp_all add: Let_def)
    ultimately show thesis by (intro that [of "if h then (True, map snd ts, v2) else (False, ts1, v3)"]) auto
  qed
  have start: "lifecycle_op Start" by simp
  show ?case
  proof (cases rule: dev_result_cases [OF c start r(1), case_names refused accepted])
    case (refused k')
    then show ?thesis using "3.prems" by auto
  next
    case (accepted d k')
    then show ?thesis using r by auto
  qed
next
  case (5 P t ks w)
  obtain b t1 w1 where t1: "start_op P t w = (b, t1, w1)" by (metis prod_cases3)
  have IH: "orderly t1" "b \<Longrightarrow> all_running t1" "\<not> b \<Longrightarrow> quiet t1" "is_service t1 = is_service t" "\<not> is_service t1 \<Longrightarrow> quiet t1"
    using "5.IH"(1) [OF t1] "5.prems"(2) by auto
  show ?case
  proof (cases b)
    case True
    obtain b2 ts2 w2 where ts2: "start_ops P ks w1 = (b2, ts2, w2)" by (metis prod_cases3)
    have "(\<forall>(b, t) \<in> set ts2. orderly t \<and> (\<not> b \<longrightarrow> quiet t)) \<and> (b2 \<longrightarrow> (\<forall>(b, t) \<in> set ts2. all_running t))"
      using "5.IH"(2) [OF t1 [symmetric] refl True ts2] "5.prems"(2) by auto
    moreover have "ret = b2" "ts = (is_service t, t1) # ts2" using "5.prems"(1) t1 True ts2 by simp_all
    ultimately show ?thesis using IH True by auto
  next
    case False
    then have "ret = False" "ts = (False, t1) # map (Pair False) ks" using "5.prems"(1) t1 by simp_all
    then show ?thesis using IH False "5.prems"(2) by auto
  qed
qed simp_all


fun node_running :: "device_node \<Rightarrow> bool" where
  "node_running Plain = False"
| "node_running (Leaf i c k) = ctrl_running c"
| "node_running (Dev i c k ks) = (sc_state c = Running)"

lemma orderly_quiet: "orderly t \<Longrightarrow> \<not> node_running t \<Longrightarrow> quiet t"
  by (cases t) auto

lemma sc_settled_new_device: "sc_settled True False new_device_controller"
  unfolding new_device_controller_def by (rule sc_settled_optional_setup [OF sc_settled_new])

lemma service_op_device:
  assumes "orderly (Dev i c k ks)" "lifecycle_op op" "service_op P op (Dev i c k ks) w = (ret, t', w')"
  shows "orderly t' \<and> (\<exists>c k ks. t' = Dev i c k ks)"
proof -
  obtain os oi where c: "sc_settled os oi c" using assms(1) by auto
  obtain r where r: "dev_result i c k op r (ks, w) = (ret, t', w')"
    using assms(3) by (cases "op = Start") (auto simp: service_op_def Let_def)
  note cases = dev_result_cases [OF c assms(2) r, case_names refused accepted]
  have dev: "\<exists>c k ks. t' = Dev i c k ks" by (cases rule: cases) blast+
  show ?thesis
  proof (cases "op = Start")
    case False
    then have "other_operation op" using assms(2) by (cases op) (simp_all add: other_operation_def)
    then show ?thesis using other_op_orderly(1) assms(1,3) False dev unfolding service_op_def by metis
  next
    case True
    show ?thesis
    proof (cases "sc_state c = Running")
      case False
      then have "quiet (Dev i c k ks)" using assms(1) orderly_quiet by simp
      then show ?thesis using start_op_orderly(1) assms(1,3) True dev unfolding service_op_def by metis
    next
      case running: True
      show ?thesis
      proof (cases rule: cases)
        case (refused k')
        then show ?thesis using assms(1) by simp
      next
        case (accepted d k')
        then show ?thesis using running True by simp
      qed
    qed
  qed
qed

lemma service_run_device:
  "orderly (Dev i c k ks) \<Longrightarrow> list_all lifecycle_op ops \<Longrightarrow> service_run P ops (Dev i c k ks) w = (t', w') \<Longrightarrow>
    orderly t' \<and> (\<exists>c k ks. t' = Dev i c k ks)"
proof (induction ops arbitrary: c k ks w)
  case Nil
  then have "t' = Dev i c k ks" by (simp add: service_run_def)
  then show ?case using Nil.prems(1) by blast
next
  case (Cons op ops)
  obtain ret t1 w1 where op: "service_op P op (Dev i c k ks) w = (ret, t1, w1)" by (metis prod_cases3)
  then have "orderly t1 \<and> (\<exists>c k ks. t1 = Dev i c k ks)"
    using service_op_device [OF Cons.prems(1) _ op] Cons.prems(2) by simp
  moreover have "service_run P ops t1 w1 = (t', w')" using Cons.prems(3) op by (simp add: service_run_def)
  ultimately show ?case using Cons by auto
qed

text \<open>C6. Whatever setups, inits, starts, stops and resets a device gets and whatever its services and its own methods
  return: while it is not running no service below it runs. Started when it is not running, it either
  reports success and all services below it that have a controller are running, or it reports failure and
  none is, the ones it had started having been stopped.\<close>

theorem device_runs_all_or_none:
  assumes "orderly (Dev i c k ks)" "list_all lifecycle_op ops" "service_run P ops (Dev i c k ks) w = (t, v)"
    and "\<not> node_running t" "service_op P Start t v = (ret, t', v')"
  shows "orderly t \<and> quiet t \<and> orderly t' \<and> (if ret then all_running t' else quiet t')"
proof -
  have t: "orderly t" using service_run_device [OF assms(1-3)] by simp
  moreover from this have "quiet t" using assms(4) by (rule orderly_quiet)
  ultimately show ?thesis using start_op_orderly(1) [of P t v ret t' v'] assms(5) by (simp add: service_op_def)
qed

text \<open>A device with two services of which the second does not start.\<close>

definition failing_program :: "nat Program" where
  "failing_program = \<lparr> do_leaf = (\<lambda>i op n. (\<not> (i = 2 \<and> op = Start), n + 1)), on_op = (\<lambda>i op n. (True, n)),
     dev_links = (\<lambda>i n. (True, n)), dev_unobserve = (\<lambda>i n. n) \<rparr>"

definition two_services :: device_node where
  "two_services = Dev 0 new_device_controller 0
     [Leaf 1 (BlkCtrl new_BlockingServiceController) 0, Plain, Leaf 2 (ThrCtrl new_ThreadedServiceController) 0]"

theorem device_runs_all_or_none_witness:
  "\<exists>t v t' v'. service_run failing_program [Init] two_services 0 = (t, v) \<and>
     service_op failing_program Start t v = (False, t', v') \<and> quiet t'"
proof -
  have two: "two_services = Dev 0 new_device_controller 0
     [Leaf 1 (BlkCtrl new_BlockingServiceController) 0, Plain, Leaf 2 (ThrCtrl new_ThreadedServiceController) 0]"
    by (rule two_services_def)
  have ord: "orderly two_services"
    using sc_settled_new_device
    by (auto simp: two t_settled_def new_ThreadedServiceController_def new_BlockingServiceController_def new_device_controller_def)
  obtain t v where run: "service_run failing_program [Init] two_services 0 = (t, v)" by fastforce
  obtain ret t' v' where start: "service_op failing_program Start t v = (ret, t', v')" by (metis prod_cases3)
  have "case service_run failing_program [Init] two_services 0 of (t, v) \<Rightarrow>
      \<not> node_running t \<and> \<not> fst (service_op failing_program Start t v)" by code_simp
  then have idle: "\<not> node_running t" "\<not> ret" using run start by simp_all
  have "list_all lifecycle_op [Init]" by simp
  from device_runs_all_or_none [OF ord [unfolded two] this run [unfolded two] idle(1) start] idle(2) run start
  show ?thesis by (auto simp: two)
qed


section \<open>The destructor\<close>

text \<open>
  The destructor looks at the last event of the state machine to stop and reset a device that was not. When no
  operation is under way that event is the outcome of the last operation, not the operation: the destructor does
  nothing, and what runs below goes on.
\<close>

lemma sc_op_end_event:
  "snd (sc_op_end c op b) \<Longrightarrow> sm_last_event (statemachine (fst (sc_op_end c op b))) = (if b then Success else OpError)"
  by (auto simp: sc_op_end_def transition_sm_edge sc_notify_def split: option.splits prod.splits)

lemma ctrl_last_event:
  assumes "sc_settled os oi c" "lifecycle_op op" "ctrl_op (DefCtrl c) op r s k = (DefCtrl d, s', k', ret)"
  shows "sm_last_event (statemachine d) \<in> {sm_last_event (statemachine c), Success, OpError}"
proof (cases "sc_op_start c op")
  case (Pair c1 accepted)
  show ?thesis
  proof (cases accepted)
    case False
    with Pair have "c1 = c" by (auto dest: sc.refused_keeps)
    with Pair False assms(3) show ?thesis by (simp add: ctrl_op.simps aservice_op_def)
  next
    case True
    have "snd (sc_op_end c1 op (fst r))" using sc_op_lifecycle [OF assms(1,2), of "fst r"] Pair True by simp
    from sc_op_end_event [OF this]
    have "sm_last_event (statemachine (fst (sc_op_end c1 op (fst r)))) \<in> {Success, OpError}" by (simp split: if_split)
    moreover have "d = fst (sc_op_end c1 op (fst r))"
      using assms(3) Pair True by (auto simp: ctrl_op.simps aservice_op_def Let_def split: prod.splits if_splits)
    ultimately show ?thesis by blast
  qed
qed

lemma service_op_last_event:
  assumes "orderly (Dev i c k ks)" "lifecycle_op op" "service_op P op (Dev i c k ks) w = (ret, Dev i d k' ks', w')"
  shows "sm_last_event (statemachine d) \<in> {sm_last_event (statemachine c), Success, OpError}"
proof -
  obtain os oi where c: "sc_settled os oi c" using assms(1) by auto
  obtain r where r: "dev_result i c k op r (ks, w) = (ret, Dev i d k' ks', w')"
    using assms(3) by (cases "op = Start") (auto simp: service_op_def Let_def)
  obtain c' s k1 b where run: "ctrl_op (DefCtrl c) op r (ks, w) k = (c', s, k1, b)" by (metis prod_cases4)
  from default_ctrl_op [OF c assms(2) run] have "\<exists>e. c' = DefCtrl e" by blast
  then obtain e where e: "c' = DefCtrl e" by blast
  have "d = e" using r by (simp add: dev_result_def run e split: prod.splits)
  then show ?thesis using ctrl_last_event [OF c assms(2) run [unfolded e]] by simp
qed

lemma destructor_does_nothing:
  "orderly (Dev i c k ks) \<Longrightarrow> sm_last_event (statemachine c) \<notin> {Start, Stop} \<Longrightarrow> list_all lifecycle_op ops \<Longrightarrow>
    service_run P ops (Dev i c k ks) w = (t, v) \<Longrightarrow> destroy_device P t v = (t, v)"
proof (induction ops arbitrary: c k ks w)
  case Nil
  then have "t = Dev i c k ks" by (simp add: service_run_def)
  then show ?case using Nil.prems(2) by (simp add: destroy_device_def)
next
  case (Cons op ops)
  obtain ret t1 w1 where op: "service_op P op (Dev i c k ks) w = (ret, t1, w1)" by (metis prod_cases3)
  obtain d k1 ks1 where t1: "orderly t1" "t1 = Dev i d k1 ks1"
    using service_op_device [OF Cons.prems(1) _ op] Cons.prems(3) list.pred_inject(2) by metis
  have "sm_last_event (statemachine d) \<notin> {Start, Stop}"
    using service_op_last_event [OF Cons.prems(1) _ op [unfolded t1(2)]] Cons.prems(2,3) by auto
  moreover have "service_run P ops t1 w1 = (t, v)" using Cons.prems(4) op by (simp add: service_run_def)
  ultimately show ?case using Cons.IH t1 Cons.prems(3) by simp
qed

end
