(* ===== verification/Spec2Isabelle.thy ===== *)
theory Spec2Isabelle
  imports Sihd_Lifecycle Sihd_ThreadPool Sihd_StrNum Sihd_Splitter Sihd_Distance Sihd_Layout
    Sihd_Cache Sihd_Scheduler Sihd_Synchronizer Sihd_Node Sihd_LineReader Sihd_Url Sihd_Robots Sihd_Route
    Sihd_DynMessage Sihd_Fs Sihd_Csv Sihd_DevFilter Sihd_Hash Sihd_Time Sihd_Device
begin

text \<open>
  A verification library for sihd, a C++ library for applications that are built from named
  objects, services, channels and devices. The program is a set of modules under
  \<open>src/modules\<close>. The module \<open>util\<close> carries the data structures and protocols that all others
  use; \<open>sys\<close> wraps the operating system, \<open>net\<close>, \<open>http\<close>, \<open>ssh\<close> and \<open>crypto\<close> the network and its
  libraries, \<open>core\<close> the devices and channels, \<open>csv\<close> and \<open>json\<close> two file formats, and the rest are
  user interfaces and bindings. This library models the logic of \<open>util\<close>, and of the other
  modules the parts that are logic and not calls of the platform: the devices and channels of \<open>core\<close>,
  the reader and writer of \<open>csv\<close>, the texts of \<open>http\<close>, the line reader of \<open>sys\<close>. Paths below are relative to
  \<open>src/modules\<close>; header files are those of the same name under \<open>include\<close>.

  \<^bold>\<open>How the code is read.\<close>
  A function of the code is a function here, with the name it has there (\<open>op\<close> prefixes and class
  prefixes such as \<open>sc_\<close> or \<open>sq_\<close> where two classes share a name). A class is a record of its fields
  and its methods take and return that record. An exception of the standard library and undefined
  behaviour are values: the type \<open>cxx\<close> of \<open>Sihd_Chars\<close> has the constructors \<open>Val\<close>, \<open>Raise\<close> and
  \<open>Undef\<close>, and a theorem that a call is a \<open>Val\<close> says that it is defined and does not throw. A \<open>string\<close>
  is a list of bytes. \<open>size_t\<close> and \<open>int\<close> that index texts and arrays are natural numbers; each
  theory says below which size this is the code's arithmetic. Integers whose width matters (the
  packed transitions of \<open>StateMachine\<close>, the numbers of \<open>Sihd_StrNum\<close>) are machine words, or integers
  with the range checks of the code. A \<open>std::map\<close> is a function to options, or an ordered
  association list where its order is seen; the order of an \<open>unordered_map\<close> is an argument of what
  depends on it. Shared memory and threads are step relations in which one step is one block of
  code that is atomic, by a mutex or by an atomic variable.

  \<^bold>\<open>The theories.\<close>

  \<^item> \<open>Sihd_Prelude\<close>: machine words, the collections of facts, generic lemmas. \<open>Sihd_Chars\<close>: the
    C and C++ library functions on characters and strings that the code calls.

  \<^item> \<open>Sihd_StateMachine\<close> (util/StateMachine.hpp): the flat table of transitions under 64-bit keys,
    with the locale \<open>transition_table\<close>: adding an edge changes exactly that edge.
    \<open>Sihd_Service\<close> (AService.cpp, ServiceController.cpp, BlockingServiceController.cpp,
    ThreadedServiceController.cpp): the operations of a service and the three controllers, behind
    the locale \<open>service_controller\<close> which each of them interprets.
    \<open>Sihd_Lifecycle\<close>: the abstract life cycle and the proof that a service under the default
    controller implements it (C1), what must have happened before a service runs (C2), and that
    the error state is final (C3).

  \<^item> \<open>Sihd_SafeQueue\<close> (util/SafeQueue.hpp): each call holds the mutex, so runs are sequences of
    events; order and loss of the queue (C4, C5), and its bound (\<open>queue_respects_bound\<close>). \<open>Sihd_ThreadPool\<close> (util/ThreadPool.cpp):
    submitter, workers and \<open>stop\<close> as a step relation over a queue that meets the locale \<open>job_queue\<close>;
    jobs run once and in order (C7), \<open>stop\<close> returns (C8, a measure falls with every step and some
    step is enabled until all threads have exited).

  \<^item> \<open>Sihd_Str\<close>, \<open>Sihd_StrNum\<close>, \<open>Sihd_Escapes\<close> (util/str.cpp, util/num.cpp): the index loops of
    the string functions are kept and each is shown equal to a function on lists: \<open>replace_eq\<close>,
    \<open>trim_eq\<close>, \<open>hexdump_eq\<close>, \<open>remove_escape_char_eq\<close>, \<open>remove_enclosing_eq\<close>. The properties C9, C13 and
    C17 are about those. Buffers that the code fills by index have explicit writes, so that C17 also
    says that nothing is written behind them.

  \<^item> \<open>Sihd_Splitter\<close> (util/Splitter.cpp, StrConfiguration.cpp, CmdInterpreter.cpp): tokens with
    delimiters, escapes and enclosing sequences. C19 relates counting with splitting for every
    splitter; \<open>split_plain\<close> and \<open>str_split_join\<close> describe splitting by a delimiter string for the
    clients in other theories (C20, C21, and later paths, queries, header lines);
    \<open>history_is_last_successful_lines\<close> is about the interpreter's history.

  \<^item> \<open>Sihd_Distance\<close> (str.cpp: levenshtein, search): one overwritten row computes the least cost of
    an edit script (C23). \<open>Sihd_Layout\<close> (str.cpp: word_wrap, wrap, to_columns): C24, C25.

  \<^item> \<open>Sihd_Cache\<close> (util/Cache.hpp): C26. \<open>Sihd_Scheduler\<close> (Scheduler.cpp, Task.cpp): the worker and
    its clients as a step relation on the maps and vectors of the scheduler; C27, C28, and
    \<open>worker_reads_empty_map\<close>, a reachable state in which the worker dereferences the end of the
    map. \<open>Sihd_Synchronizer\<close> (Synchronizer.cpp, AThreadedService.cpp): C29.

  \<^item> \<open>Sihd_Node\<close> (util/Named.cpp, Node.cpp): objects in a heap, deletion explicit. Paths (C30, C31),
    ownership and deletion (C32), and an invariant of all operations under which no map lookup
    throws (C33).

  \<^item> \<open>Sihd_Array\<close> (util/Array.hpp, Slice.hpp): buffer, size and capacity; the locale \<open>flex_array\<close>
    states what a growing array promises, and the interpretation \<open>arr\<close> proves it of the model (C34,
    C35). \<open>Sihd_LineReader\<close> (sys/LineReader.cpp, \<open>File::read\<close> of sys/File.cpp) is its client: C36
    states that reading ends and gives the lines of the file for every size of the read buffer.

  \<^item> \<open>Sihd_Url\<close> (util/Url.cpp), \<open>Sihd_Robots\<close> (http/src/navigator/RobotsTxt.cpp), \<open>Sihd_Http\<close>
    (HttpHeader.cpp, Mime.cpp, HttpRequest.cpp, HttpResponse.cpp), \<open>Sihd_Route\<close> (http/src/server/Route.cpp):
    texts of the web. Encoders and parsers are inverse on the values that the format can
    carry (C37, C39, \<open>http_response_roundtrip\<close>), the decision on a robots file is that of the RFC
    (C38), and a request goes to the most specific route (C40). These rest on the splitter, the
    numbers and the arrays above.

  \<^item> \<open>Sihd_Message\<close>, \<open>Sihd_DynMessage\<close> (util/type.cpp, array_utils.cpp, Message.cpp, MessageField.cpp,
    DynMessage.cpp): fields with an offset into one shared buffer; what is written to a field of a type
    is read back from it and from no other (C11). \<open>Sihd_Csv\<close> (csv/src): reader, writer and their
    round trip (C12), over the line reader and the splitter.

  \<^item> \<open>Sihd_Observable\<close> (util/Observable.hpp): a notification calls the observers in order, whatever
    they add and remove while it runs (C18). \<open>Sihd_Float\<close>: the doubles of the code as rationals with
    the rounding of IEEE 754. \<open>Sihd_Value\<close> (util/Value.cpp), \<open>Sihd_Channel\<close> (core/Channel.cpp): typed
    values; a channel is an array of a type with observers that write to other channels. A write
    notifies each observer once, and only on a change unless told otherwise (C15), and a cascade of writes between channels ends
    (C10). \<open>Sihd_DevFilter\<close> (core/DevFilter.cpp): the rules of a filter device, compared with what a
    rule means (C16). \<open>Sihd_Device\<close> (core/Device.cpp, AChannelContainer.cpp): the operations of a
    device over the service of its children: all are run, or none is left running (C6).

  \<^item> \<open>Sihd_Hash\<close> (util/hash.cpp): the SHA-1 of the code, with its blocks and padding, is that of FIPS
    180-4 up to the length at which the bit counter is wrong (C14). \<open>Sihd_Time\<close> (util/time.cpp,
    Timestamp.cpp, the time functions of str.cpp): units, calendar and clock texts (C22).

  \<^bold>\<open>Termination, bounds and fuel.\<close>
  Only the calls of user code have fuel: \<open>notify_observers\<close> of \<open>Sihd_Observable\<close> and the writes of
  \<open>Sihd_Channel\<close> take the depth to which notifications may nest, and give \<open>None\<close> beyond it. C10 shows
  that one level for each channel is enough, C18 that the length of the list is when handlers only remove
  observers. Loops whose index grows are functions with a measure; where an
  argument of 0 would stop progress, the code's guard against it is in the definition. A loop that
  has no end in the code (the growth of an array whose factor does not enlarge it) is \<open>Undef\<close>. That
  waiting threads return is C8; that the reading loop ends is C36.

  \<^bold>\<open>Limits of the code that the model shows.\<close>
  Lemmas outside the properties record behaviour a caller may not expect: an adjacent match that
  \<open>replace\<close> skips, an empty first token that the splitter drops, a query parameter without a value
  that a url loses, agents that a later group of a robots file forgets, a path that is decoded twice
  before it is matched, the worker of the scheduler that reads an empty map, filter rules whose chain
  blocks on its own mutex, values that lose the sign of what they hold, a device whose destructor stops
  nothing, a hash of more than 2 to the 29 bytes, negative offsets of time, present times that a double
  does not hold exactly, and others. Each is listed in the manifest with its line.

  \<^bold>\<open>Not modelled.\<close>
  Calls of the platform and of other libraries, which are arguments where the modelled code depends on
  their result: files (but for reading a stream), processes, signals, terminals, sockets, ssh, cryptography,
  compression, simdjson, the time zone, the user interfaces, the lua and python bindings. The numbers of
  a text as a double are an argument (\<open>strtod\<close>); random numbers are not modelled. Of the thread pool the
  statistics and futures are left out. Of \<open>core\<close> the devices that record and play are left out: their
  state is that of a scheduler and of files, and they add no protocol of their own. Configurables apply
  values of a JSON library to setters. The manifest lists every component with its status and the reason.
\<close>

end
